(* ===== verification/Prelude.thy ===== *)
theory Prelude
  imports Main "HOL-Library.Word"
begin

text \<open>
  Shared vocabulary of the development: the machine integers of the program, the
  results of fallible and of asynchronous operations, and the few operations on byte
  vectors (\<open>Vec::resize\<close>, writing into a slice, \<open>copy_within\<close>) that the
  components use, with their lemmas.

  Integers keep their width where the program computes with them: \<open>u8\<close>, \<open>u64\<close> and
  \<open>usize\<close> are words, and \<open>+\<close>, \<open>-\<close>, \<open>*\<close> on them wrap as in the release
  profile of \<open>Cargo.toml\<close> (no \<open>overflow-checks\<close>). \<open>usize\<close> is taken with 64 bits.
  A counter that only indexes a vector in memory, and so stays below the vector's length,
  is a \<open>nat\<close>.
\<close>

unbundle bit_operations_syntax

named_theorems byte_simps \<open>equations about byte vectors and their slices\<close>
named_theorems wire_simps \<open>equations about encoded messages\<close>

type_synonym u8 = "8 word"
type_synonym u64 = "64 word"
type_synonym usize = "64 word"

text \<open>A Rust string is its UTF-8 bytes; \<open>len\<close> counts bytes.\<close>

type_synonym rstring = "u8 list"

section \<open>Results\<close>

text \<open>
  The errors of the program: one constructor per \<open>bail!\<close> or \<open>anyhow!\<close> of the source
  that the model distinguishes, and one per failing library call behind a \<open>?\<close>.
\<close>

datatype error =
    IoError                        \<comment> \<open>a socket or file operation failed\<close>
  | UnexpectedEof                  \<comment> \<open>\<open>read_exact\<close>, \<open>read_u8\<close>, \<open>read_u64\<close> at end of stream\<close>
  | ConnectionClosed               \<comment> \<open>``Connection closed by peer''\<close>
  | StringTooLong u64 usize        \<comment> \<open>``String length .. exceeds maximum allowed ..''\<close>
  | Utf8Error                      \<comment> \<open>\<open>String::from_utf8\<close>\<close>
  | TryFromIntError                \<comment> \<open>\<open>try_into\<close> on an integer out of range\<close>
  | UnknownStatusCode
  | StatusError rstring            \<comment> \<open>a status byte other than \<open>Ack\<close>, with its message\<close>
  | ReceiverClosed                 \<comment> \<open>``Receiver has been closed''\<close>
  | EmptySource                    \<comment> \<open>``Source file is empty, nothing to sync''\<close>
  | InvalidDestPath                \<comment> \<open>``Invalid characters in destination path''\<close>
  | HashWorkerFailed rstring       \<comment> \<open>``Hash worker failed: ..''\<close>
  | SecretTooLong                  \<comment> \<open>``The secret cannot exceed 255 characters''\<close>
  | MissingSource                  \<comment> \<open>``Missing source file''\<close>
  | NoUsername                     \<comment> \<open>``Failed to get current username''\<close>
  | SshNotAuthenticated            \<comment> \<open>``Could not connect to SSH of remote end''\<close>
  | SshError                       \<comment> \<open>an operation of the SSH session failed\<close>
  | Panic                          \<comment> \<open>a panic of the standard library, here a division by zero\<close>

type_synonym 'a result = "error + 'a"

abbreviation Ok :: "'a \<Rightarrow> 'a result" where "Ok \<equiv> Inr"
abbreviation Err :: "error \<Rightarrow> 'a result" where "Err \<equiv> Inl"

definition bind_result :: "'a result \<Rightarrow> ('a \<Rightarrow> 'b result) \<Rightarrow> 'b result" where
  "bind_result r f = (case r of Inl e \<Rightarrow> Inl e | Inr x \<Rightarrow> f x)"

lemma bind_result_simps [simp]:
  "bind_result (Inl e) f = Inl e"
  "bind_result (Inr x) f = f x"
  by (simp_all add: bind_result_def)

text \<open>What one poll of a future gives.\<close>

datatype 'a poll = Pending | Ready 'a

section \<open>Byte vectors\<close>

text \<open>\<open>v.resize(n, 0)\<close>: truncate, or extend with zero bytes.\<close>

definition resize :: "u8 list \<Rightarrow> nat \<Rightarrow> u8 list" where
  "resize v n = take n v @ replicate (n - length v) 0"

lemma length_resize [simp]: "length (resize v n) = n"
  by (simp add: resize_def)

lemma resize_same [simp]: "length v = n \<Longrightarrow> resize v n = v"
  by (simp add: resize_def)

lemma take_resize [byte_simps]: "k \<le> n \<Longrightarrow> k \<le> length v \<Longrightarrow> take k (resize v n) = take k v"
  by (simp add: resize_def min_def)

text \<open>The effect of a \<open>read\<close> of \<open>bs\<close> into \<open>&mut v[k..]\<close>.\<close>

definition write_at :: "'a list \<Rightarrow> nat \<Rightarrow> 'a list \<Rightarrow> 'a list" where
  "write_at v k bs = take k v @ bs @ drop (k + length bs) v"

lemma length_write_at [simp]: "k + length bs \<le> length v \<Longrightarrow> length (write_at v k bs) = length v"
  by (simp add: write_at_def)

lemma take_write_at [byte_simps]:
  "k \<le> length v \<Longrightarrow> take (k + length bs) (write_at v k bs) = take k v @ bs"
  by (simp add: write_at_def)

lemma write_at_Nil [simp]: "write_at v k [] = v"
  by (simp add: write_at_def)

text \<open>\<open>a.copy_within(n.., 0)\<close>: move the tail to the front, the rest stays.\<close>

definition copy_within :: "'a list \<Rightarrow> nat \<Rightarrow> 'a list" where
  "copy_within a n = drop n a @ drop (length a - n) a"

lemma length_copy_within [simp]: "n \<le> length a \<Longrightarrow> length (copy_within a n) = length a"
  by (simp add: copy_within_def)

lemma take_copy_within [byte_simps]:
  "n \<le> l \<Longrightarrow> l \<le> length a \<Longrightarrow> take (l - n) (copy_within a n) = drop n (take l a)"
  by (simp add: copy_within_def drop_take)

end
