(* ===== verification/Endian.thy ===== *)
theory Endian
  imports Prelude
begin

text \<open>
  Big-endian integers on the wire. \<open>store_be\<close> and \<open>load_be\<close> are the two byte loops
  of \<open>common.rs\<close> (\<open>ResumableWriteString::new\<close>, \<open>ResumableWriteFileBlock::write_to\<close>
  and the header loops of both \<open>read_on\<close>); \<open>be_bytes\<close> is the reference encoding.
  The lemmas show that the loops compute it and that encoding and decoding are inverse
  to each other on eight bytes.
\<close>

section \<open>The loops of the source\<close>

text \<open>\<open>for i in (0..n).rev() { vec[i] = (len & 0xFF) as u8; len >>= 8; }\<close>\<close>

primrec store_be :: "nat \<Rightarrow> u8 list \<Rightarrow> u64 \<Rightarrow> u8 list" where
  "store_be 0 vec len = vec"
| "store_be (Suc i) vec len = store_be i (vec[i := ucast (len AND 0xFF)]) (drop_bit 8 len)"

text \<open>\<open>for val in buf { acc <<= 8; acc += *val as u64; }\<close>\<close>

primrec load_be :: "u64 \<Rightarrow> u8 list \<Rightarrow> u64" where
  "load_be acc [] = acc"
| "load_be acc (val # buf) = load_be (push_bit 8 acc + ucast val) buf"

section \<open>The reference encoding\<close>

primrec be_digits :: "nat \<Rightarrow> nat \<Rightarrow> u8 list" where
  "be_digits 0 x = []"
| "be_digits (Suc n) x = be_digits n (x div 256) @ [word_of_nat (x mod 256)]"

definition be_bytes :: "u64 \<Rightarrow> u8 list" where
  "be_bytes w = be_digits 8 (unat w)"

definition be_val :: "u8 list \<Rightarrow> nat" where
  "be_val bs = foldl (\<lambda>a b. a * 256 + unat b) 0 bs"

lemma length_be_digits [simp]: "length (be_digits n x) = n"
  by (induction n arbitrary: x) simp_all

lemma length_be_bytes [simp]: "length (be_bytes w) = 8"
  by (simp add: be_bytes_def)

lemma be_bytes_not_Nil [simp]: "be_bytes w \<noteq> []"
  using length_be_bytes [of w] by fastforce

lemma be_val_snoc [simp]: "be_val (bs @ [b]) = be_val bs * 256 + unat b"
  by (simp add: be_val_def)

lemma be_val_Nil [simp]: "be_val [] = 0"
  by (simp add: be_val_def)

lemma unat_byte_of_nat: "x < 256 \<Longrightarrow> unat (word_of_nat x :: u8) = x"
  by (simp add: unat_of_nat)

lemma be_val_digits: "x < 256 ^ n \<Longrightarrow> be_val (be_digits n x) = x"
proof (induction n arbitrary: x)
  case (Suc n)
  then have "x div 256 < 256 ^ n" by (simp add: less_mult_imp_div_less mult.commute)
  then show ?case using Suc.IH by (simp add: unat_byte_of_nat)
qed simp

lemma be_val_less: "be_val bs < 256 ^ length bs"
proof (induction bs rule: rev_induct)
  case (snoc b bs)
  have "unat b < 256" using unsigned_less [of b, where ?'a = nat] by simp
  moreover have "be_val bs + 1 \<le> 256 ^ length bs" using snoc by simp
  then have "(be_val bs + 1) * 256 \<le> 256 ^ length bs * 256" by (rule mult_le_mono1)
  ultimately show ?case by simp
qed simp

lemma digits_be_val: "be_digits (length bs) (be_val bs) = bs"
proof (induction bs rule: rev_induct)
  case (snoc b bs)
  have "unat b < 256" using unsigned_less [of b, where ?'a = nat] by simp
  then show ?case using snoc by simp
qed simp

section \<open>The loops compute the reference encoding\<close>

lemma unat_word_le: "unat (w :: u64) < 256 ^ 8"
  using unsigned_less [of w, where ?'a = nat] by simp

lemma byte_and_mask: "(ucast (len AND 0xFF) :: u8) = word_of_nat (unat (len :: u64) mod 256)"
proof -
  have "len AND 0xFF = take_bit 8 len"
    by (simp add: take_bit_eq_mask mask_numeral)
  moreover have "unat (ucast (take_bit 8 len) :: u8) = unat len mod 256"
    by (simp add: unsigned_ucast_eq unsigned_take_bit_eq) (simp add: take_bit_eq_mod)
  ultimately have "unat (ucast (len AND 0xFF) :: u8) = unat len mod 256" by simp
  then show ?thesis by (simp add: word_unat_eq_iff unat_of_nat)
qed

lemma unat_drop_8: "unat (drop_bit 8 (len :: u64)) = unat len div 256"
  by (simp only: unat_drop_bit_eq) (simp add: drop_bit_eq_div)

lemma store_be_digits:
  "n \<le> length vec \<Longrightarrow> store_be n vec len = be_digits n (unat len) @ drop n vec"
proof (induction n arbitrary: vec len)
  case (Suc n)
  then show ?case
    by (simp add: unat_drop_8 byte_and_mask Cons_nth_drop_Suc [symmetric])
qed simp

lemma store_be_be_bytes: "length vec = 8 \<Longrightarrow> store_be 8 vec len = be_bytes len"
  by (simp add: store_be_digits be_bytes_def)

lemma load_be_snoc: "load_be acc (bs @ [b]) = push_bit 8 (load_be acc bs) + ucast b"
  by (induction bs arbitrary: acc) simp_all

lemma unat_load_be: "length bs \<le> 8 \<Longrightarrow> unat (load_be 0 bs) = be_val bs"
proof (induction bs rule: rev_induct)
  case (snoc b bs)
  have "be_val (bs @ [b]) < 256 ^ length (bs @ [b])" by (rule be_val_less)
  also have "\<dots> \<le> 256 ^ 8" using snoc.prems by (intro power_increasing) simp_all
  finally have lt: "be_val bs * 256 + unat b < 2 ^ 64" by simp
  have "load_be 0 (bs @ [b]) = word_of_nat (be_val bs * 256 + unat b)"
    using snoc by (simp add: load_be_snoc push_bit_eq_mult flip: snoc.IH)
  then show ?case using lt by (simp only: unat_of_nat be_val_snoc) simp
qed simp

lemma load_be_bytes [simp]: "load_be 0 (be_bytes w) = w"
proof -
  have "unat (load_be 0 (be_bytes w)) = unat w"
    using be_val_digits [OF unat_word_le] by (simp add: unat_load_be be_bytes_def)
  then show ?thesis by (simp add: word_unat_eq_iff)
qed

lemma be_bytes_load [simp]: "length bs = 8 \<Longrightarrow> be_bytes (load_be 0 bs) = bs"
  using digits_be_val [of bs] by (simp add: be_bytes_def unat_load_be)

lemma be_bytes_inject [simp]: "be_bytes v = be_bytes w \<longleftrightarrow> v = w"
  by (metis load_be_bytes)

end
