(* ===== verification/Async_IO.thy ===== *)
theory Async_IO
  imports Endian
begin

text \<open>
  The environment of the program's asynchronous I/O. The peer, the network and the
  kernel are not code of the repository: what each call to \<open>read\<close> and \<open>write\<close> of
  \<open>tokio::io\<close> returns is an input of the model, a finite script of events. Every outcome
  the library documents is an event: some bytes, but no more than the buffer holds; zero
  bytes at the end of the stream; an error; not ready yet. A theorem about all scripts is
  a theorem about every fragmentation of the data and about every point at which a
  \<open>select!\<close> may drop a future that is not ready.

  The operations that an \<open>.await\<close> outside of a \<open>select!\<close> drives to completion
  (\<open>read_exact\<close>, \<open>write_all\<close>) pass over the events that are not ready.
\<close>

section \<open>Reading\<close>

datatype rd_event = Chunk "u8 list" | Wait | Eof | RdFail

type_synonym rstream = "rd_event list"

datatype read_res = RdPending | RdErr | RdBytes "u8 list"

text \<open>One poll of \<open>read(buf)\<close> with room for \<open>cap\<close> bytes.\<close>

fun read_poll :: "nat \<Rightarrow> rstream \<Rightarrow> read_res \<times> rstream" where
  "read_poll cap [] = (RdPending, [])"
| "read_poll cap (Wait # es) = (RdPending, es)"
| "read_poll cap (Eof # es) = (RdBytes [], Eof # es)"
| "read_poll cap (RdFail # es) = (RdErr, RdFail # es)"
| "read_poll cap (Chunk bs # es) =
     (if bs = [] then read_poll cap es
      else if length bs \<le> cap then (RdBytes bs, es)
      else (RdBytes (take cap bs), Chunk (drop cap bs) # es))"

text \<open>What a script amounts to: the bytes it delivers, how it ends, how often it is not ready.\<close>

datatype stream_end = StillOpen | AtEof | AtFail

fun bytes_of :: "rstream \<Rightarrow> u8 list" where
  "bytes_of [] = []"
| "bytes_of (Chunk bs # es) = bs @ bytes_of es"
| "bytes_of (Wait # es) = bytes_of es"
| "bytes_of (Eof # es) = []"
| "bytes_of (RdFail # es) = []"

fun end_of :: "rstream \<Rightarrow> stream_end" where
  "end_of [] = StillOpen"
| "end_of (Chunk bs # es) = end_of es"
| "end_of (Wait # es) = end_of es"
| "end_of (Eof # es) = AtEof"
| "end_of (RdFail # es) = AtFail"

fun waits :: "rstream \<Rightarrow> nat" where
  "waits [] = 0"
| "waits (Chunk bs # es) = waits es"
| "waits (Wait # es) = Suc (waits es)"
| "waits (Eof # es) = 0"
| "waits (RdFail # es) = 0"

lemma read_poll_bytes:
  "read_poll cap es = (RdBytes bs, es') \<Longrightarrow> bytes_of es = bs @ bytes_of es'
     \<and> end_of es' = end_of es \<and> waits es' = waits es \<and> length bs \<le> cap"
  by (induction cap es rule: read_poll.induct) (auto split: if_splits)

lemma read_poll_none:
  "read_poll cap es = (RdBytes [], es') \<Longrightarrow> 0 < cap \<Longrightarrow> bytes_of es = [] \<and> end_of es = AtEof"
  by (induction cap es rule: read_poll.induct) (auto split: if_splits)

lemma read_poll_err:
  "read_poll cap es = (RdErr, es') \<Longrightarrow>
     bytes_of es = [] \<and> bytes_of es' = [] \<and> end_of es = AtFail \<and> end_of es' = AtFail"
  by (induction cap es rule: read_poll.induct) (auto split: if_splits)

lemma read_poll_pending:
  "read_poll cap es = (RdPending, es') \<Longrightarrow> bytes_of es' = bytes_of es \<and> end_of es' = end_of es
     \<and> (waits es = Suc (waits es') \<or> waits es = 0 \<and> waits es' = 0 \<and> bytes_of es = [] \<and> end_of es = StillOpen)"
  by (induction cap es rule: read_poll.induct) (auto split: if_splits)

text \<open>\<open>read_exact(buf).await\<close> for a buffer of \<open>n\<close> bytes: fill the buffer or fail at the end.\<close>

fun read_exact_from :: "nat \<Rightarrow> u8 list \<Rightarrow> rstream \<Rightarrow> u8 list result poll \<times> rstream" where
  "read_exact_from n acc es =
     (if n = 0 then (Ready (Ok acc), es) else
      (case es of
         [] \<Rightarrow> (Pending, [])
       | Wait # es' \<Rightarrow> read_exact_from n acc es'
       | Eof # es' \<Rightarrow> (Ready (Err UnexpectedEof), Eof # es')
       | RdFail # es' \<Rightarrow> (Ready (Err IoError), RdFail # es')
       | Chunk bs # es' \<Rightarrow>
           (if length bs \<le> n then read_exact_from (n - length bs) (acc @ bs) es'
            else (Ready (Ok (acc @ take n bs)), Chunk (drop n bs) # es'))))"

declare read_exact_from.simps [simp del]

abbreviation read_exact :: "nat \<Rightarrow> rstream \<Rightarrow> u8 list result poll \<times> rstream" where
  "read_exact n es \<equiv> read_exact_from n [] es"

text \<open>How \<open>read_exact\<close> ends when the stream has too few bytes.\<close>

fun short_read :: "stream_end \<Rightarrow> 'a result poll" where
  "short_read StillOpen = Pending"
| "short_read AtEof = Ready (Err UnexpectedEof)"
| "short_read AtFail = Ready (Err IoError)"

text \<open>\<open>read_exact\<close> depends on the bytes of the script only, not on how they are cut.\<close>

lemma read_exact_from_enough:
  "n \<le> length (bytes_of es) \<Longrightarrow>
     \<exists>es'. read_exact_from n acc es = (Ready (Ok (acc @ take n (bytes_of es))), es')
       \<and> bytes_of es' = drop n (bytes_of es) \<and> end_of es' = end_of es"
proof (induction n acc es rule: read_exact_from.induct)
  case (1 n acc es)
  show ?case
  proof (cases "n = 0")
    case True
    then show ?thesis by (simp add: read_exact_from.simps)
  next
    case False
    then show ?thesis
      using 1 by (subst read_exact_from.simps)
        (auto split: list.splits rd_event.splits)
  qed
qed

lemma read_exact_from_short:
  "length (bytes_of es) < n \<Longrightarrow>
     \<exists>es'. read_exact_from n acc es = (short_read (end_of es), es')"
proof (induction n acc es rule: read_exact_from.induct)
  case (1 n acc es)
  then show ?case
    by (subst read_exact_from.simps) (auto split: list.splits rd_event.splits)
qed

section \<open>Writing\<close>

datatype wr_event = Accept nat | WrWait | WrFail

datatype write_res = WrPending | WrErr | Wrote nat

text \<open>One poll of \<open>write(data)\<close>.\<close>

fun write_poll :: "u8 list \<Rightarrow> wr_event list \<Rightarrow> u8 list \<Rightarrow> write_res \<times> wr_event list \<times> u8 list" where
  "write_poll data [] out = (WrPending, [], out)"
| "write_poll data (WrWait # es) out = (WrPending, es, out)"
| "write_poll data (WrFail # es) out = (WrErr, es, out)"
| "write_poll data (Accept n # es) out =
     (Wrote (min n (length data)), es, out @ take n data)"

text \<open>\<open>write_all(data).await\<close>; a write of zero bytes is an error there (\<open>WriteZero\<close>).\<close>

fun write_all_to :: "u8 list \<Rightarrow> wr_event list \<Rightarrow> u8 list \<Rightarrow>
    unit result poll \<times> wr_event list \<times> u8 list" where
  "write_all_to data es out =
     (if data = [] then (Ready (Ok ()), es, out) else
      (case es of
         [] \<Rightarrow> (Pending, [], out)
       | WrWait # es' \<Rightarrow> write_all_to data es' out
       | WrFail # es' \<Rightarrow> (Ready (Err IoError), es', out)
       | Accept n # es' \<Rightarrow>
           (if n = 0 then (Ready (Err IoError), es', out)
            else write_all_to (drop n data) es' (out @ take n data))))"

declare write_all_to.simps [simp del]

lemma write_all_to_simps [simp]:
  "write_all_to [] es out = (Ready (Ok ()), es, out)"
  "data \<noteq> [] \<Longrightarrow> write_all_to data [] out = (Pending, [], out)"
  "data \<noteq> [] \<Longrightarrow> write_all_to data (WrWait # es) out = write_all_to data es out"
  "data \<noteq> [] \<Longrightarrow> write_all_to data (WrFail # es) out = (Ready (Err IoError), es, out)"
  "data \<noteq> [] \<Longrightarrow> write_all_to data (Accept n # es) out =
     (if n = 0 then (Ready (Err IoError), es, out)
      else write_all_to (drop n data) es (out @ take n data))"
  by (simp_all add: write_all_to.simps [of data] write_all_to.simps [of "[]"])

text \<open>A schedule that never fails, and how many bytes it takes.\<close>

fun sound_sched :: "wr_event list \<Rightarrow> bool" where
  "sound_sched [] = True"
| "sound_sched (Accept n # es) = (0 < n \<and> sound_sched es)"
| "sound_sched (WrWait # es) = sound_sched es"
| "sound_sched (WrFail # es) = False"

fun accepts :: "wr_event list \<Rightarrow> nat" where
  "accepts [] = 0"
| "accepts (Accept n # es) = Suc (accepts es)"
| "accepts (WrWait # es) = accepts es"
| "accepts (WrFail # es) = accepts es"

lemma replicate_accept [simp]:
  "accepts (replicate n (Accept k)) = n" "sound_sched (replicate n (Accept k)) \<longleftrightarrow> n = 0 \<or> 0 < k"
  by (induction n) auto

lemma write_all_to_ok:
  "sound_sched es \<Longrightarrow> length data \<le> accepts es \<Longrightarrow>
     \<exists>es'. write_all_to data es out = (Ready (Ok ()), es', out @ data) \<and> sound_sched es'
       \<and> accepts es \<le> accepts es' + length data"
proof (induction es arbitrary: data out)
  case (Cons e es)
  show ?case
  proof (cases "data = []")
    case False
    then have len: "0 < length data" by simp
    show ?thesis
    proof (cases e)
      case (Accept n)
      with Cons.prems have n: "0 < n" and *: "sound_sched es" "length (drop n data) \<le> accepts es"
        by auto
      from Cons.IH [OF *, of "out @ take n data"] obtain es' where
        "write_all_to (drop n data) es (out @ take n data) = (Ready (Ok ()), es', out @ data)"
        "sound_sched es'" "accepts es \<le> accepts es' + (length data - n)"
        by auto
      moreover from this(3) n len have "Suc (accepts es) \<le> accepts es' + length data"
        by linarith
      ultimately show ?thesis using Accept False n by simp
    qed (use Cons False in auto)
  qed (use Cons.prems in auto)
qed simp

text \<open>Whatever happens, only a prefix of the data goes out.\<close>

lemma write_all_to_prefix:
  "write_all_to data es out = (r, es', out') \<Longrightarrow>
     \<exists>sent rest. data = sent @ rest \<and> out' = out @ sent \<and> (r = Ready (Ok ()) \<longrightarrow> rest = [])"
proof (induction es arbitrary: data out)
  case Nil
  then show ?case by (cases "data = []") auto
next
  case (Cons e es)
  show ?case
  proof (cases "data = []")
    case False
    show ?thesis
    proof (cases e)
      case (Accept n)
      show ?thesis
      proof (cases "n = 0")
        case n: False
        with Cons.prems Accept False obtain sent rest where
          "drop n data = sent @ rest" "out' = (out @ take n data) @ sent"
          "r = Ready (Ok ()) \<longrightarrow> rest = []"
          using Cons.IH [of "drop n data" "out @ take n data"] by auto
        moreover from this(1) have "data = (take n data @ sent) @ rest"
          using append_take_drop_id [of n data] by simp
        ultimately show ?thesis by (metis append_assoc)
      qed (use Cons.prems Accept False in auto)
    qed (use Cons False in auto)
  qed (use Cons.prems in auto)
qed

end
