(* ===== verification/Crates.thy ===== *)
theory Crates
  imports Endian Utf8
begin

text \<open>
  Third-party code. What the program computes with other crates is a parameter of the
  model: one record whose fields are the functions the source calls. What the program
  relies on, as those crates document it, is stated as predicates on the record; a
  theorem that needs one of them has it as a hypothesis. \<open>sample_crates\<close> is a concrete
  record that satisfies them all; the witnesses use it.
\<close>

record crates =
  u64_to_wire :: "u64 \<Rightarrow> u8 list"        \<comment> \<open>the bytes \<open>AsyncWriteExt::write_u64\<close> of tokio writes\<close>
  u64_of_wire :: "u8 list \<Rightarrow> u64"        \<comment> \<open>the value \<open>AsyncReadExt::read_u64\<close> of tokio makes of eight bytes\<close>
  crc32c :: "u8 list \<Rightarrow> 32 word"         \<comment> \<open>\<open>crc32c::crc32c\<close>\<close>
  md5_digest :: "u8 list \<Rightarrow> u8 list"     \<comment> \<open>\<open>Md5::digest\<close>\<close>
  hex_encode :: "u8 list \<Rightarrow> rstring"     \<comment> \<open>\<open>hex::encode\<close>\<close>

text \<open>tokio reads and writes integers in big-endian order.\<close>

definition tokio_big_endian :: "crates \<Rightarrow> bool" where
  "tokio_big_endian C \<longleftrightarrow>
     (\<forall>w. u64_to_wire C w = be_bytes w) \<and> (\<forall>bs. u64_of_wire C bs = load_be 0 bs)"

lemma tokio_big_endian_simps:
  "tokio_big_endian C \<Longrightarrow> u64_to_wire C w = be_bytes w"
  "tokio_big_endian C \<Longrightarrow> u64_of_wire C bs = load_be 0 bs"
  by (simp_all add: tokio_big_endian_def)

text \<open>\<open>hex::encode\<close> writes two lower-case hexadecimal digits per byte; a digest of MD5 has 16 bytes.\<close>

definition hex_digit :: "nat \<Rightarrow> u8" where
  "hex_digit n = word_of_nat (if n < 10 then 48 + n else 87 + n)"

definition hex_of :: "u8 list \<Rightarrow> rstring" where
  "hex_of bs = concat (map (\<lambda>b. [hex_digit (unat b div 16), hex_digit (unat b mod 16)]) bs)"

definition hex_documented :: "crates \<Rightarrow> bool" where
  "hex_documented C \<longleftrightarrow>
     (\<forall>bs. hex_encode C bs = hex_of bs) \<and> (\<forall>bs. length (md5_digest C bs) = 16)"

lemma length_hex_of [simp]: "length (hex_of bs) = 2 * length bs"
  by (induction bs) (simp_all add: hex_of_def)

lemma hex_digit_ascii: "n < 16 \<Longrightarrow> hex_digit n < 0x80"
  by (simp add: hex_digit_def word_less_nat_alt unat_of_nat)

lemma utf8_hex_of [simp]: "utf8_valid (hex_of bs)"
proof (rule utf8_valid_ascii)
  fix d assume "d \<in> set (hex_of bs)"
  then obtain b :: u8 where "d = hex_digit (unat b div 16) \<or> d = hex_digit (unat b mod 16)"
    by (auto simp: hex_of_def)
  moreover have "unat b < 256" using unsigned_less [of b, where ?'a = nat] by simp
  then have "unat b div 16 < 16" by simp
  ultimately show "d < 0x80" using hex_digit_ascii by fastforce
qed

text \<open>The concrete record of the witnesses: the real encodings, and two simple checksums.\<close>

definition sample_crates :: crates where
  "sample_crates =
     \<lparr> u64_to_wire = be_bytes, u64_of_wire = load_be 0,
       crc32c = (\<lambda>bs. foldl (\<lambda>a b. a * 257 + ucast b + 1) 0 bs),
       md5_digest = (\<lambda>bs. resize bs 16), hex_encode = hex_of \<rparr>"

lemma sample_crates_simps [simp]:
  "u64_to_wire sample_crates = be_bytes" "u64_of_wire sample_crates = load_be 0"
  "hex_encode sample_crates = hex_of" "md5_digest sample_crates bs = resize bs 16"
  by (simp_all add: sample_crates_def)

lemma sample_crates_ok [simp]: "tokio_big_endian sample_crates" "hex_documented sample_crates"
  by (simp_all add: tokio_big_endian_def hex_documented_def)

end
