(* ===== verification/Wire.thy ===== *)
theory Wire
  imports Async_IO Crates
begin

text \<open>
  The wire protocol of \<open>common.rs\<close>: status codes, and the helpers \<open>write_string\<close>,
  \<open>read_string\<close>, \<open>write_status\<close> and \<open>check_status\<close> that are awaited to completion.
  They are functions from the state of a connection to a result and the next state; a
  \<open>?\<close> of the source is \<open>io_bind\<close>. The properties are the round trips, for every
  fragmentation of the stream, and the rejections.
\<close>

section \<open>Connections\<close>

text \<open>
  A connection is its script of incoming events, its schedule of accepted writes and
  the bytes written so far. Components that touch more (the file system) extend the record.
\<close>

record conn =
  rx :: rstream
  tx_sched :: "wr_event list"
  tx_out :: "u8 list"

type_synonym ('z, 'a) io = "'z conn_scheme \<Rightarrow> 'a result poll \<times> 'z conn_scheme"

definition io_return :: "'a \<Rightarrow> ('z, 'a) io" where
  "io_return x c = (Ready (Ok x), c)"

definition io_fail :: "error \<Rightarrow> ('z, 'a) io" where
  "io_fail e c = (Ready (Err e), c)"

definition io_bind :: "('z, 'a) io \<Rightarrow> ('a \<Rightarrow> ('z, 'b) io) \<Rightarrow> ('z, 'b) io" where
  "io_bind m f c =
     (case m c of
        (Pending, c') \<Rightarrow> (Pending, c')
      | (Ready (Inl e), c') \<Rightarrow> (Ready (Err e), c')
      | (Ready (Inr x), c') \<Rightarrow> f x c')"

definition io_lift :: "'a result \<Rightarrow> ('z, 'a) io" where
  "io_lift r c = (Ready r, c)"

lemma io_simps [simp]:
  "io_return x c = (Ready (Ok x), c)" "io_fail e c = (Ready (Err e), c)"
  "io_lift r c = (Ready r, c)"
  by (simp_all add: io_return_def io_fail_def io_lift_def)

lemma io_bind_simps [simp]:
  "m c = (Ready (Ok x), c') \<Longrightarrow> io_bind m f c = f x c'"
  "m c = (Ready (Err e), c') \<Longrightarrow> io_bind m f c = (Ready (Err e), c')"
  "m c = (Pending, c') \<Longrightarrow> io_bind m f c = (Pending, c')"
  by (simp_all add: io_bind_def)

subsection \<open>Primitive reads and writes\<close>

definition io_read_exact :: "nat \<Rightarrow> ('z, u8 list) io" where
  "io_read_exact n c = (case read_exact n (rx c) of (r, es) \<Rightarrow> (r, c\<lparr>rx := es\<rparr>))"

definition read_u8 :: "('z, u8) io" where
  "read_u8 = io_bind (io_read_exact 1) (\<lambda>bs. io_return (bs ! 0))"

definition read_u64 :: "crates \<Rightarrow> ('z, u64) io" where
  "read_u64 C = io_bind (io_read_exact 8) (\<lambda>bs. io_return (u64_of_wire C bs))"

definition io_write_all :: "u8 list \<Rightarrow> ('z, unit) io" where
  "io_write_all data c =
     (case write_all_to data (tx_sched c) (tx_out c) of
        (r, es, out) \<Rightarrow> (r, c\<lparr>tx_sched := es, tx_out := out\<rparr>))"

definition write_u8 :: "u8 \<Rightarrow> ('z, unit) io" where
  "write_u8 b = io_write_all [b]"

definition write_u64 :: "crates \<Rightarrow> u64 \<Rightarrow> ('z, unit) io" where
  "write_u64 C w = io_write_all (u64_to_wire C w)"

text \<open>\<open>consumed bs c c'\<close>: in state \<open>c\<close> the peer's next bytes are \<open>bs\<close>; in \<open>c'\<close> exactly they are consumed.\<close>

definition consumed :: "u8 list \<Rightarrow> 'z conn_scheme \<Rightarrow> 'z conn_scheme \<Rightarrow> bool" where
  "consumed bs c c' \<longleftrightarrow> bytes_of (rx c) = bs @ bytes_of (rx c') \<and> end_of (rx c') = end_of (rx c)
     \<and> c' = c\<lparr>rx := rx c'\<rparr>"

lemma consumed_trans:
  "consumed bs c c' \<Longrightarrow> consumed bs' c' c'' \<Longrightarrow> consumed (bs @ bs') c c''"
  unfolding consumed_def by (metis append_assoc conn.surjective conn.update_convs(1))

lemma io_read_exact_ok:
  assumes "bytes_of (rx c) = bs @ rest" and "length bs = n"
  obtains c' where "io_read_exact n c = (Ready (Ok bs), c')" "consumed bs c c'"
    "bytes_of (rx c') = rest"
proof -
  from assms have "n \<le> length (bytes_of (rx c))" by simp
  from read_exact_from_enough [OF this, of "[]"] obtain es where
    "read_exact n (rx c) = (Ready (Ok bs), es)" "bytes_of es = rest" "end_of es = end_of (rx c)"
    using assms by auto
  then show thesis
    using assms by (intro that [of "c\<lparr>rx := es\<rparr>"]) (simp_all add: io_read_exact_def consumed_def)
qed

lemma read_u8_ok:
  assumes "bytes_of (rx c) = b # rest"
  obtains c' where "read_u8 c = (Ready (Ok b), c')" "consumed [b] c c'" "bytes_of (rx c') = rest"
proof -
  from assms have "bytes_of (rx c) = [b] @ rest" by simp
  then obtain c' where "io_read_exact 1 c = (Ready (Ok [b]), c')" "consumed [b] c c'"
    "bytes_of (rx c') = rest"
    using io_read_exact_ok [of c "[b]" rest 1] by auto
  then show thesis by (intro that [of c']) (simp_all add: read_u8_def)
qed

lemma read_u64_ok:
  assumes "tokio_big_endian C" and "bytes_of (rx c) = be_bytes w @ rest"
  obtains c' where "read_u64 C c = (Ready (Ok w), c')" "consumed (be_bytes w) c c'"
    "bytes_of (rx c') = rest"
proof -
  from assms(2) obtain c' where "io_read_exact 8 c = (Ready (Ok (be_bytes w)), c')"
    "consumed (be_bytes w) c c'" "bytes_of (rx c') = rest"
    using io_read_exact_ok [of c "be_bytes w" rest 8] by auto
  then show thesis
    using assms(1) by (intro that [of c']) (simp_all add: read_u64_def tokio_big_endian_simps)
qed

text \<open>\<open>can_send n c\<close>: no failure is scheduled and at least \<open>n\<close> more bytes are accepted.\<close>

definition can_send :: "nat \<Rightarrow> 'z conn_scheme \<Rightarrow> bool" where
  "can_send n c \<longleftrightarrow> sound_sched (tx_sched c) \<and> n \<le> accepts (tx_sched c)"

text \<open>\<open>sent bs c c'\<close>: between the two states exactly \<open>bs\<close> was written.\<close>

definition sent :: "u8 list \<Rightarrow> 'z conn_scheme \<Rightarrow> 'z conn_scheme \<Rightarrow> bool" where
  "sent bs c c' \<longleftrightarrow> tx_out c' = tx_out c @ bs
     \<and> c' = c\<lparr>tx_sched := tx_sched c', tx_out := tx_out c'\<rparr>"

lemma sent_trans: "sent bs c c' \<Longrightarrow> sent bs' c' c'' \<Longrightarrow> sent (bs @ bs') c c''"
  unfolding sent_def by (cases c, cases c', cases c'') simp

lemma io_write_all_ok:
  assumes "can_send (length data + k) c"
  obtains c' where "io_write_all data c = (Ready (Ok ()), c')" "sent data c c'" "can_send k c'"
proof -
  from assms have "sound_sched (tx_sched c)" "length data \<le> accepts (tx_sched c)"
    by (simp_all add: can_send_def)
  from write_all_to_ok [OF this, of "tx_out c"] obtain es where
    "write_all_to data (tx_sched c) (tx_out c) = (Ready (Ok ()), es, tx_out c @ data)"
    "sound_sched es" "accepts (tx_sched c) \<le> accepts es + length data"
    by blast
  then show thesis
    using assms by (intro that [of "c\<lparr>tx_sched := es, tx_out := tx_out c @ data\<rparr>"])
      (simp_all add: io_write_all_def sent_def can_send_def)
qed

lemma io_write_all_done:
  assumes "io_write_all data c = (Ready (Ok ()), c')"
  shows "sent data c c'"
proof -
  obtain r es out where w: "write_all_to data (tx_sched c) (tx_out c) = (r, es, out)"
    by (metis prod_cases3)
  with assms have "r = Ready (Ok ())" "c' = c\<lparr>tx_sched := es, tx_out := out\<rparr>"
    by (simp_all add: io_write_all_def)
  with write_all_to_prefix [OF w] show ?thesis by (auto simp: sent_def)
qed

section \<open>Status codes\<close>

datatype StatusCode =
    Ack
  | InvalidSecret
  | FileSizeDiffers
  | PermissionDenied
  | ClientAlreadyConnected
  | UnknownHashAlgorithm
  | UnsupportedProtocolVersion
  | InvalidBlockSize

text \<open>There are eight codes: quantifiers over them are finite checks.\<close>

instantiation StatusCode :: enum
begin

definition enum_StatusCode :: "StatusCode list" where
  "enum_StatusCode = [Ack, InvalidSecret, FileSizeDiffers, PermissionDenied, ClientAlreadyConnected,
     UnknownHashAlgorithm, UnsupportedProtocolVersion, InvalidBlockSize]"

definition enum_all_StatusCode :: "(StatusCode \<Rightarrow> bool) \<Rightarrow> bool" where
  "enum_all_StatusCode P \<longleftrightarrow> list_all P enum_class.enum"

definition enum_ex_StatusCode :: "(StatusCode \<Rightarrow> bool) \<Rightarrow> bool" where
  "enum_ex_StatusCode P \<longleftrightarrow> list_ex P enum_class.enum"

instance
proof
  show UNIV: "(UNIV :: StatusCode set) = set enum_class.enum"
    by (auto simp: enum_StatusCode_def intro: StatusCode.exhaust)
  show "distinct (enum_class.enum :: StatusCode list)" by (simp add: enum_StatusCode_def)
  show "enum_class.enum_all P \<longleftrightarrow> Ball UNIV P" "enum_class.enum_ex P \<longleftrightarrow> Bex UNIV P" for P :: "StatusCode \<Rightarrow> bool"
    by (simp_all add: UNIV enum_all_StatusCode_def enum_ex_StatusCode_def list_all_iff list_ex_iff)
qed

end

definition PROTOCOL_VERSION :: u8 where
  "PROTOCOL_VERSION = 1"

text \<open>The conversions that \<open>IntEnum\<close> derives from the discriminants.\<close>

fun status_to_u8 :: "StatusCode \<Rightarrow> u8" where
  "status_to_u8 Ack = 0"
| "status_to_u8 InvalidSecret = 1"
| "status_to_u8 FileSizeDiffers = 2"
| "status_to_u8 PermissionDenied = 3"
| "status_to_u8 ClientAlreadyConnected = 4"
| "status_to_u8 UnknownHashAlgorithm = 5"
| "status_to_u8 UnsupportedProtocolVersion = 6"
| "status_to_u8 InvalidBlockSize = 7"

definition status_of_u8 :: "u8 \<Rightarrow> StatusCode option" where
  "status_of_u8 b =
     (if b = 0 then Some Ack
      else if b = 1 then Some InvalidSecret
      else if b = 2 then Some FileSizeDiffers
      else if b = 3 then Some PermissionDenied
      else if b = 4 then Some ClientAlreadyConnected
      else if b = 5 then Some UnknownHashAlgorithm
      else if b = 6 then Some UnsupportedProtocolVersion
      else if b = 7 then Some InvalidBlockSize
      else None)"

lemma status_of_to_u8 [simp]: "status_of_u8 (status_to_u8 st) = Some st"
  by (cases st) (simp_all add: status_of_u8_def)

text \<open>The decoding fails on exactly the bytes that encode no status, and two codes never share a byte.\<close>

lemma status_of_u8_None: "status_of_u8 b = None \<longleftrightarrow> b \<notin> set (map status_to_u8 enum_class.enum)"
  by (simp add: status_of_u8_def enum_StatusCode_def)

lemma status_to_u8_inject: "\<forall>st st'. status_to_u8 st = status_to_u8 st' \<longrightarrow> st = st'"
  by code_simp

text \<open>A string literal of the source as its bytes.\<close>

definition lit :: "string \<Rightarrow> rstring" where
  "lit s = map (\<lambda>ch. word_of_nat (of_char ch)) s"

text \<open>\<open>to_string\<close> of an unsigned integer: its decimal digits.\<close>

fun dec :: "nat \<Rightarrow> rstring" where
  "dec n = (if n < 10 then [word_of_nat (48 + n)] else dec (n div 10) @ [word_of_nat (48 + n mod 10)])"

declare dec.simps [simp del]

lemma dec_nonempty [simp]: "dec n \<noteq> []"
  by (subst dec.simps) simp

fun status_result :: "StatusCode \<Rightarrow> unit result" where
  "status_result Ack = Ok ()"
| "status_result InvalidSecret = Err (StatusError (lit ''Invalid Secret''))"
| "status_result FileSizeDiffers = Err (StatusError (lit ''File size differs''))"
| "status_result PermissionDenied = Err (StatusError (lit ''Permission denied''))"
| "status_result ClientAlreadyConnected = Err (StatusError (lit ''A client is already connected''))"
| "status_result UnknownHashAlgorithm =
     Err (StatusError (lit ''Hash algorithm is not supported on remote end''))"
| "status_result UnsupportedProtocolVersion = Err (StatusError (lit ''Protocol version mismatch''))"
| "status_result InvalidBlockSize = Err (StatusError (lit ''Invalid block size''))"

definition write_status :: "StatusCode \<Rightarrow> ('z, unit) io" where
  "write_status status = write_u8 (status_to_u8 status)"

definition check_status :: "('z, unit) io" where
  "check_status =
     io_bind read_u8 (\<lambda>b.
       case status_of_u8 b of
         None \<Rightarrow> io_fail UnknownStatusCode
       | Some status \<Rightarrow> io_lift (status_result status))"

section \<open>Strings\<close>

definition write_string :: "crates \<Rightarrow> rstring \<Rightarrow> ('z, unit) io" where
  "write_string C s =
     io_bind (write_u64 C (word_of_nat (length s))) (\<lambda>_. io_write_all s)"

definition read_string :: "crates \<Rightarrow> usize \<Rightarrow> ('z, rstring) io" where
  "read_string C max_len =
     io_bind (read_u64 C) (\<lambda>size.
       if size > max_len then io_fail (StringTooLong size max_len)
       else io_bind (io_read_exact (unat size)) (\<lambda>s. io_lift (from_utf8 s)))"

text \<open>The message format both sides agree on.\<close>

definition string_message :: "rstring \<Rightarrow> u8 list" where
  "string_message s = be_bytes (word_of_nat (length s)) @ s"

section \<open>What the helpers put on the wire and take from it\<close>

lemma write_string_done:
  assumes "tokio_big_endian C" and "write_string C s c = (Ready (Ok ()), c')"
  shows "sent (string_message s) c c'"
proof -
  obtain r c1 where w: "write_u64 C (word_of_nat (length s)) c = (r, c1)" by fastforce
  with assms(2) have "r = Ready (Ok ())" and s: "io_write_all s c1 = (Ready (Ok ()), c')"
    by (auto simp: write_string_def io_bind_def split: poll.splits sum.splits)
  with w assms(1) have "sent (be_bytes (word_of_nat (length s))) c c1"
    using io_write_all_done by (auto simp: write_u64_def tokio_big_endian_simps)
  from sent_trans [OF this io_write_all_done [OF s]] show ?thesis by (simp add: string_message_def)
qed

lemma write_string_ok:
  assumes "tokio_big_endian C" and "can_send (8 + length s + k) c"
  obtains c' where "write_string C s c = (Ready (Ok ()), c')" "sent (string_message s) c c'" "can_send k c'"
proof -
  let ?hdr = "be_bytes (word_of_nat (length s))"
  from assms(2) have "can_send (length ?hdr + (length s + k)) c" by (simp add: add.assoc)
  then obtain c1 where c1: "io_write_all ?hdr c = (Ready (Ok ()), c1)" "can_send (length s + k) c1"
    by (rule io_write_all_ok)
  from c1(2) obtain c' where c': "io_write_all s c1 = (Ready (Ok ()), c')" "can_send k c'"
    by (rule io_write_all_ok)
  have "write_u64 C (word_of_nat (length s)) c = (Ready (Ok ()), c1)"
    using c1(1) assms(1) by (simp add: write_u64_def tokio_big_endian_simps)
  then have w: "write_string C s c = (Ready (Ok ()), c')" using c'(1) by (simp add: write_string_def)
  with write_string_done [OF assms(1) w] c'(2) show thesis using that by blast
qed

lemma read_string_ok:
  assumes "tokio_big_endian C" and "utf8_valid s" and "length s \<le> unat max_len"
    and "bytes_of (rx c) = string_message s @ rest"
  obtains c' where "read_string C max_len c = (Ready (Ok s), c')" "consumed (string_message s) c c'"
    "bytes_of (rx c') = rest"
proof -
  let ?size = "word_of_nat (length s) :: u64"
  from assms(4) have "bytes_of (rx c) = be_bytes ?size @ s @ rest" by (simp add: string_message_def)
  with assms(1) obtain c1 where c1: "read_u64 C c = (Ready (Ok ?size), c1)"
    "consumed (be_bytes ?size) c c1" "bytes_of (rx c1) = s @ rest"
    by (rule read_u64_ok)
  have size: "unat ?size = length s"
    using assms(3) unsigned_less [of max_len, where ?'a = nat] by (simp add: unat_of_nat)
  then have "\<not> ?size > max_len" using assms(3) by (simp add: word_less_nat_alt)
  moreover from c1(3) size obtain c' where c': "io_read_exact (unat ?size) c1 = (Ready (Ok s), c')"
    "consumed s c1 c'" "bytes_of (rx c') = rest"
    using io_read_exact_ok [of c1 s rest "unat ?size"] by auto
  ultimately have "read_string C max_len c = (Ready (Ok s), c')"
    using c1(1) assms(2) by (simp add: read_string_def)
  with c' consumed_trans [OF c1(2) c'(2)] show thesis
    by (intro that [of c']) (simp_all add: string_message_def)
qed

lemma write_status_done:
  "write_status st c = (Ready (Ok ()), c') \<Longrightarrow> sent [status_to_u8 st] c c'"
  by (simp add: write_status_def write_u8_def io_write_all_done)

lemma check_status_byte:
  assumes "bytes_of (rx c) = b # rest"
  obtains c' where "check_status c =
      (Ready (case status_of_u8 b of None \<Rightarrow> Err UnknownStatusCode | Some st \<Rightarrow> status_result st), c')"
    "consumed [b] c c'" "bytes_of (rx c') = rest"
proof -
  from assms obtain c' where "read_u8 c = (Ready (Ok b), c')" "consumed [b] c c'" "bytes_of (rx c') = rest"
    by (rule read_u8_ok)
  then show thesis
    by (intro that [of c']) (auto simp: check_status_def split: option.splits)
qed

section \<open>Properties\<close>

text \<open>
  A string written with \<open>write_string\<close> is read back by \<open>read_string\<close>, and nothing
  beyond it is consumed, for every way the network cuts the bytes, provided the limit
  admits its length.
\<close>

theorem string_round_trip:
  assumes "tokio_big_endian C" and "utf8_valid s" and "length s \<le> unat max_len"
    and "write_string C s c = (Ready (Ok ()), c')"
    and "tx_out c' = tx_out c @ msg" and "bytes_of (rx d) = msg @ rest"
  shows "\<exists>d'. read_string C max_len d = (Ready (Ok s), d') \<and> bytes_of (rx d') = rest"
proof -
  have "msg = string_message s"
    using write_string_done [OF assms(1,4)] assms(5) by (simp add: sent_def)
  with assms(6) have "bytes_of (rx d) = string_message s @ rest" by simp
  from read_string_ok [OF assms(1-3) this] show ?thesis by metis
qed

theorem string_round_trip_witness:
  "\<exists>d'. read_string sample_crates 256
      \<lparr>rx = [Chunk [0, 0, 0], Wait, Chunk [0, 0, 0, 0, 2, 104], Chunk [105, 7], Eof],
       tx_sched = [], tx_out = []\<rparr> = (Ready (Ok [104, 105]), d') \<and> bytes_of (rx d') = [7]"
proof -
  let ?c = "\<lparr>rx = [], tx_sched = [Accept 5, WrWait, Accept 9, Accept 9], tx_out = [1]\<rparr>"
  let ?c' = "\<lparr>rx = [], tx_sched = [], tx_out = [1, 0, 0, 0, 0, 0, 0, 0, 2, 104, 105]\<rparr>"
  have hdr: "be_bytes 2 = [0, 0, 0, 0, 0, 0, 0, 2]" by code_simp
  have "write_string sample_crates [104, 105] ?c = (Ready (Ok ()), ?c')"
    by (simp add: write_string_def write_u64_def io_bind_def io_write_all_def hdr)
  then show ?thesis
    by (rule string_round_trip [rotated 3, where msg = "[0, 0, 0, 0, 0, 0, 0, 2, 104, 105]"]) simp_all
qed

text \<open>
  A length above the limit is rejected before any of the string is read: exactly the
  eight bytes of the length are consumed, whatever follows.
\<close>

theorem read_string_rejects_long:
  assumes "tokio_big_endian C" and "len > max_len" and "bytes_of (rx c) = be_bytes len @ rest"
  shows "\<exists>c'. read_string C max_len c = (Ready (Err (StringTooLong len max_len)), c')
    \<and> bytes_of (rx c') = rest"
proof -
  from assms(1,3) obtain c' where "read_u64 C c = (Ready (Ok len), c')" "bytes_of (rx c') = rest"
    by (rule read_u64_ok)
  with assms(2) show ?thesis by (simp add: read_string_def)
qed

theorem read_string_rejects_long_witness:
  "\<exists>c'. read_string sample_crates 3 \<lparr>rx = [Chunk (be_bytes 7 @ [1]), Wait], tx_sched = [], tx_out = []\<rparr>
     = (Ready (Err (StringTooLong 7 3)), c') \<and> bytes_of (rx c') = [1]"
  by (rule read_string_rejects_long) simp_all

text \<open>
  A status written by one side is what \<open>check_status\<close> reports on the other: success for
  \<open>Ack\<close> and the status' own error for every other code.
\<close>

theorem status_round_trip:
  assumes "write_status st c = (Ready (Ok ()), c')" and "tx_out c' = tx_out c @ msg"
    and "bytes_of (rx d) = msg @ rest"
  shows "\<exists>d'. check_status d = (Ready (status_result st), d') \<and> bytes_of (rx d') = rest
    \<and> (status_result st = Ok () \<longleftrightarrow> st = Ack)"
proof -
  have "msg = [status_to_u8 st]"
    using write_status_done [OF assms(1)] assms(2) by (simp add: sent_def)
  with assms(3) have "bytes_of (rx d) = status_to_u8 st # rest" by simp
  then obtain d' where "check_status d = (Ready (status_result st), d')" "bytes_of (rx d') = rest"
    by (rule check_status_byte) simp
  moreover have "status_result st = Ok () \<longleftrightarrow> st = Ack" by (cases st) simp_all
  ultimately show ?thesis by blast
qed

theorem status_round_trip_witness:
  "\<exists>d'. check_status \<lparr>rx = [Wait, Chunk [2, 9]], tx_sched = [], tx_out = []\<rparr>
     = (Ready (status_result FileSizeDiffers), d') \<and> bytes_of (rx d') = [9]
     \<and> (status_result FileSizeDiffers = Ok () \<longleftrightarrow> FileSizeDiffers = Ack)"
proof -
  have "write_status FileSizeDiffers \<lparr>rx = [], tx_sched = [WrWait, Accept 1], tx_out = []\<rparr>
      = (Ready (Ok ()), \<lparr>rx = [], tx_sched = [], tx_out = [2]\<rparr>)"
    by (simp add: write_status_def write_u8_def io_write_all_def)
  then show ?thesis by (rule status_round_trip [where msg = "[2]"]) simp_all
qed

text \<open>
  A byte that is no status code is reported as unknown; the known codes are exactly 0 to 7.
\<close>

lemma check_status_unknown:
  assumes "bytes_of (rx c) = b # rest"
  shows "(\<exists>c'. check_status c = (Ready (Err UnknownStatusCode), c')) \<longleftrightarrow> 7 < b"
proof -
  have "status_of_u8 b = None \<longleftrightarrow> 7 < b"
  proof
    assume "status_of_u8 b = None"
    then have "b \<noteq> 0 \<and> b \<noteq> 1 \<and> b \<noteq> 2 \<and> b \<noteq> 3 \<and> b \<noteq> 4 \<and> b \<noteq> 5 \<and> b \<noteq> 6 \<and> b \<noteq> 7"
      by (simp add: status_of_u8_def split: if_splits)
    then show "7 < b" by (simp add: word_unat_eq_iff word_less_nat_alt)
  qed (auto simp: status_of_u8_def)
  moreover have "status_result st \<noteq> Err UnknownStatusCode" for st by (cases st) simp_all
  moreover from assms obtain c' where "check_status c =
      (Ready (case status_of_u8 b of None \<Rightarrow> Err UnknownStatusCode | Some st \<Rightarrow> status_result st), c')"
    by (rule check_status_byte)
  ultimately show ?thesis by (auto split: option.splits)
qed

end
