(* ===== verification/Resumable_Read.thy ===== *)
theory Resumable_Read
  imports Wire
begin

text \<open>
  \<open>ResumableReadString\<close> and \<open>ResumableReadFileBlock\<close> of \<open>common.rs\<close>: readers whose
  progress lives in the struct, so that a \<open>select!\<close> may drop the future of \<open>read_on\<close>
  at any \<open>.await\<close> and create it again. \<open>rrs_read_on\<close> and \<open>rrfb_read_on\<close> are one poll
  of such a future; \<open>drive\<close> creates it again as long as it is pending.

  The locale \<open>resumable_reader\<close> is the contract the event loops rely on: no byte of the
  stream is lost or read twice by a cancellation, and a complete message is returned
  whatever its fragmentation. Both structs are interpretations of it.
\<close>

section \<open>Driving a future that may be dropped\<close>

primrec drive :: "nat \<Rightarrow> ('s \<Rightarrow> 'e \<Rightarrow> 'a poll \<times> 's \<times> 'e) \<Rightarrow> 's \<Rightarrow> 'e \<Rightarrow> 'a poll \<times> 's \<times> 'e" where
  "drive 0 f s e = (Pending, s, e)"
| "drive (Suc n) f s e =
     (case f s e of
        (Pending, s', e') \<Rightarrow> drive n f s' e'
      | (Ready r, s', e') \<Rightarrow> (Ready r, s', e'))"

text \<open>Reading \<open>k\<close> messages one after the other.\<close>

primrec drive_seq :: "nat \<Rightarrow> nat \<Rightarrow> ('s \<Rightarrow> 'e \<Rightarrow> 'a result poll \<times> 's \<times> 'e) \<Rightarrow> ('s \<Rightarrow> 'a \<Rightarrow> 'v) \<Rightarrow>
    's \<Rightarrow> 'e \<Rightarrow> 'v list \<times> 's \<times> 'e" where
  "drive_seq n 0 f v s e = ([], s, e)"
| "drive_seq n (Suc k) f v s e =
     (case drive n f s e of
        (Ready (Inr x), s', e') \<Rightarrow>
          (case drive_seq n k f v s' e' of (vs, s'', e'') \<Rightarrow> (v s' x # vs, s'', e''))
      | (_, s', e') \<Rightarrow> ([], s', e'))"

text \<open>The error a read loop reports is the one the end of the stream calls for.\<close>

fun stream_error :: "stream_end \<Rightarrow> error \<Rightarrow> bool" where
  "stream_error StillOpen e = False"
| "stream_error AtEof e = (e = ConnectionClosed)"
| "stream_error AtFail e = (e = IoError)"

locale resumable_reader =
  fixes read_on :: "'s \<Rightarrow> rstream \<Rightarrow> 'a result poll \<times> 's \<times> rstream"
    and inv :: "'s \<Rightarrow> bool"
    and got :: "'s \<Rightarrow> u8 list"
    and val :: "'s \<Rightarrow> 'a \<Rightarrow> 'v"
    and enc :: "'v \<Rightarrow> u8 list"
    and ok :: "'v \<Rightarrow> bool"
  assumes pending: "inv s \<Longrightarrow> read_on s es = (Pending, s', es') \<Longrightarrow>
      inv s' \<and> got s @ bytes_of es = got s' @ bytes_of es' \<and> end_of es' = end_of es
      \<and> (waits es = Suc (waits es') \<or> waits es' = 0 \<and> bytes_of es' = [] \<and> end_of es = StillOpen)"
    and ready: "inv s \<Longrightarrow> read_on s es = (Ready (Ok x), s', es') \<Longrightarrow>
      inv s' \<and> got s' = [] \<and> ok (val s' x) \<and> end_of es' = end_of es \<and> waits es' \<le> waits es
      \<and> got s @ bytes_of es = enc (val s' x) @ bytes_of es'"
    and fails: "inv s \<Longrightarrow> read_on s es = (Ready (Err e), s', es') \<Longrightarrow> ok v \<Longrightarrow>
      got s @ bytes_of es \<noteq> enc v @ rest"
    and truncated: "inv s \<Longrightarrow> read_on s es = (Ready (Err e), s', es') \<Longrightarrow> ok v \<Longrightarrow>
      got s @ bytes_of es @ missing = enc v \<Longrightarrow> stream_error (end_of es) e"
    and partial: "inv s \<Longrightarrow> ok v \<Longrightarrow> got s \<noteq> enc v @ rest"
    and prefix_free: "ok v \<Longrightarrow> ok v' \<Longrightarrow> enc v @ r = enc v' @ r' \<Longrightarrow> v = v' \<and> r = r'"
begin

text \<open>A complete message in the stream is returned, however often the future is dropped.\<close>

lemma drive_complete:
  assumes "inv s" and "ok v" and "got s @ bytes_of es = enc v @ rest" and "waits es < n"
  shows "\<exists>x s' es'. drive n read_on s es = (Ready (Ok x), s', es') \<and> val s' x = v
    \<and> inv s' \<and> got s' = [] \<and> bytes_of es' = rest \<and> end_of es' = end_of es \<and> waits es' \<le> waits es"
  using assms
proof (induction n arbitrary: s es)
  case (Suc n)
  obtain p s' es' where p: "read_on s es = (p, s', es')" by (metis prod_cases3)
  show ?case
  proof (cases p)
    case Pending
    note p = p [unfolded this]
    from pending [OF Suc.prems(1) p] have I: "inv s'" "got s' @ bytes_of es' = enc v @ rest"
      "end_of es' = end_of es" "waits es = Suc (waits es') \<or> waits es' = 0 \<and> bytes_of es' = [] \<and> end_of es = StillOpen"
      using Suc.prems(3) by simp_all
    then have "waits es = Suc (waits es')" using partial [OF I(1) Suc.prems(2)] by auto
    with Suc.IH [OF I(1) Suc.prems(2) I(2)] Suc.prems(4) I(3) p show ?thesis by fastforce
  next
    case (Ready r)
    show ?thesis
    proof (cases r)
      case (Inl e)
      with fails [OF Suc.prems(1)] Suc.prems(2,3) p Ready show ?thesis by blast
    next
      case (Inr x)
      with p Ready have p: "read_on s es = (Ready (Ok x), s', es')" by simp
      from ready [OF Suc.prems(1) p] Suc.prems(3) prefix_free [OF Suc.prems(2)]
      have "val s' x = v" "bytes_of es' = rest" by metis+
      with ready [OF Suc.prems(1) p] p show ?thesis by simp
    qed
  qed
qed simp

text \<open>A stream of messages is returned message by message, in order.\<close>

lemma drive_seq_complete:
  assumes "inv s" and "got s = []" and "\<And>v. v \<in> set vs \<Longrightarrow> ok v"
    and "bytes_of es = concat (map enc vs) @ rest" and "waits es < n"
  shows "\<exists>s' es'. drive_seq n (length vs) read_on val s es = (vs, s', es') \<and> inv s' \<and> got s' = []
    \<and> bytes_of es' = rest \<and> end_of es' = end_of es"
  using assms
proof (induction vs arbitrary: s es)
  case (Cons v vs)
  then have "ok v" "got s @ bytes_of es = enc v @ concat (map enc vs) @ rest" by simp_all
  from drive_complete [OF Cons.prems(1) this Cons.prems(5)] obtain x s' es' where
    d: "drive n read_on s es = (Ready (Ok x), s', es')" "val s' x = v" and
    I: "inv s'" "got s' = []" "bytes_of es' = concat (map enc vs) @ rest"
       "end_of es' = end_of es" "waits es' \<le> waits es"
    by blast
  from Cons.IH [OF I(1,2) _ I(3)] I Cons.prems(3,5) d show ?case by fastforce
qed simp

text \<open>A stream that ends inside a message is an error, and the error says how it ended.\<close>

lemma drive_truncated:
  assumes "inv s" and "ok v" and "got s @ bytes_of es @ missing = enc v" and "missing \<noteq> []"
    and "end_of es \<noteq> StillOpen" and "waits es < n"
  shows "\<exists>e s' es'. drive n read_on s es = (Ready (Err e), s', es') \<and> stream_error (end_of es) e"
  using assms
proof (induction n arbitrary: s es)
  case (Suc n)
  obtain p s' es' where p: "read_on s es = (p, s', es')" by (metis prod_cases3)
  show ?case
  proof (cases p)
    case Pending
    note p = p [unfolded this]
    from pending [OF Suc.prems(1) p] Suc.prems(3,5) have I: "inv s'"
      "got s' @ bytes_of es' @ missing = enc v" "end_of es' = end_of es" "waits es = Suc (waits es')"
      by (auto simp flip: append_assoc)
    from Suc.IH [OF I(1) Suc.prems(2) I(2) Suc.prems(4)] I Suc.prems(5,6) p show ?thesis by auto
  next
    case (Ready r)
    show ?thesis
    proof (cases r)
      case (Inl e)
      with truncated [OF Suc.prems(1) _ Suc.prems(2,3)] p Ready show ?thesis by auto
    next
      case (Inr x)
      with p Ready have p: "read_on s es = (Ready (Ok x), s', es')" by simp
      from ready [OF Suc.prems(1) p] have okx: "ok (val s' x)"
        and "(got s @ bytes_of es) @ missing = enc (val s' x) @ bytes_of es' @ missing" by simp_all
      then have "enc v @ [] = enc (val s' x) @ bytes_of es' @ missing" using Suc.prems(3) by simp
      from prefix_free [OF Suc.prems(2) okx this] Suc.prems(4) show ?thesis by simp
    qed
  qed
qed simp

text \<open>A value that is returned was in the stream.\<close>

lemma drive_sound:
  assumes "inv s" and "drive n read_on s es = (Ready (Ok x), s', es')"
  shows "inv s' \<and> got s' = [] \<and> ok (val s' x) \<and> end_of es' = end_of es
    \<and> got s @ bytes_of es = enc (val s' x) @ bytes_of es'"
  using assms
proof (induction n arbitrary: s es)
  case (Suc n)
  obtain p s1 es1 where p: "read_on s es = (p, s1, es1)" by (metis prod_cases3)
  show ?case
  proof (cases p)
    case Pending
    with Suc p pending [OF Suc.prems(1), of es s1 es1] show ?thesis by fastforce
  next
    case (Ready r)
    with Suc.prems p ready [OF Suc.prems(1), of es x s1 es1] show ?thesis by simp
  qed
qed simp

text \<open>A poll that is pending keeps every byte it has taken from the stream.\<close>

lemma drive_pending:
  assumes "inv s" and "drive n read_on s es = (Pending, s', es')"
  shows "inv s' \<and> got s @ bytes_of es = got s' @ bytes_of es' \<and> end_of es' = end_of es"
  using assms
proof (induction n arbitrary: s es)
  case (Suc n)
  obtain p s1 es1 where p: "read_on s es = (p, s1, es1)" by (metis prod_cases3)
  with Suc.prems(2) have "p = Pending" by (cases p) auto
  with Suc p pending [OF Suc.prems(1), of es s1 es1] show ?case by fastforce
qed simp

text \<open>A reader never holds a whole message: the poll that completes one takes bytes from the stream.\<close>

lemma message_consumes:
  assumes inv: "inv s" and r: "read_on s es = (Ready (Ok x), s', es')"
  shows "length (bytes_of es') < length (bytes_of es)"
proof (rule ccontr)
  note R = ready [OF inv r]
  assume "\<not> ?thesis"
  moreover have "length (got s) + length (bytes_of es) = length (enc (val s' x)) + length (bytes_of es')"
    using arg_cong [of _ _ length] R by (metis length_append)
  ultimately have "length (enc (val s' x)) \<le> length (got s)" by linarith
  then obtain us where "got s = enc (val s' x) @ us"
    using R by (metis append_eq_append_conv_if append_take_drop_id)
  with partial [OF inv, of "val s' x" us] R show False by blast
qed

text \<open>
  Reading while the peer is still sending: \<open>ahead\<close> are the bytes that have not arrived yet. The reader
  takes all that is there and waits, or returns the next message; it fails only when the stream has
  ended after the last one.
\<close>

lemma stream_read:
  assumes inv: "inv s" and oks: "list_all ok rest" and ok: "ok v0"
    and eq: "got s @ bytes_of es @ ahead = concat (map enc rest)"
    and fin: "waits es = 0" "end_of es = StillOpen \<or> end_of es = AtEof \<and> ahead = []"
    and read: "read_on s es = (p, s', es')"
  obtains (wait) "p = Pending" "inv s'" "got s' @ ahead = concat (map enc rest)" "bytes_of es' = []"
      "waits es' = 0" "end_of es' = end_of es" "end_of es = StillOpen"
    | (message) x rest' where "p = Ready (Ok x)" "inv s'" "got s' = []" "rest = val s' x # rest'"
      "bytes_of es' @ ahead = concat (map enc rest')" "length (bytes_of es') < length (bytes_of es)"
      "waits es' = 0" "end_of es' = end_of es"
    | (over) e where "p = Ready (Err e)" "rest = []" "end_of es = AtEof"
proof (cases p)
  case Pending
  from pending [OF inv read [unfolded Pending]] fin(1) eq show thesis
    by (intro wait) (auto simp flip: append_assoc simp: Pending)
next
  case (Ready r)
  show thesis
  proof (cases r)
    case (Inl e)
    then have r: "read_on s es = (Ready (Err e), s', es')" using read Ready by simp
    have "rest = []"
    proof (cases rest)
      case (Cons v rest')
      then have v: "ok v" "(got s @ bytes_of es) @ ahead = enc v @ concat (map enc rest')" using oks eq by simp_all
      from v(2) consider us where "got s @ bytes_of es = enc v @ us" | us where "(got s @ bytes_of es) @ us = enc v" "ahead \<noteq> []"
        using fin by (metis append_Nil2 append_eq_append_conv2)
      then show ?thesis
        using fails [OF inv r v(1)] truncated [OF inv r v(1)] fin(2) by cases auto
    qed simp
    moreover have "end_of es = AtEof"
      using truncated [OF inv r ok, of "enc v0"] eq fin(2) calculation by auto
    ultimately show thesis using over Ready Inl by blast
  next
    case (Inr x)
    then have r: "read_on s es = (Ready (Ok x), s', es')" using read Ready by simp
    note R = ready [OF inv r]
    have m: "enc (val s' x) @ bytes_of es' @ ahead = concat (map enc rest)" using R eq by (metis append_assoc)
    have "enc (val s' x) \<noteq> []" using partial [of s' "val s' x" "[]"] R by auto
    then obtain v rest' where rest: "rest = v # rest'" using m by (cases rest) auto
    with m oks R prefix_free [of "val s' x" v "bytes_of es' @ ahead" "concat (map enc rest')"]
    have v: "v = val s' x" "bytes_of es' @ ahead = concat (map enc rest')" by auto
    have "length (bytes_of es') < length (bytes_of es)" by (rule message_consumes [OF inv r])
    with R fin(1) rest v show thesis by (intro message) (simp_all add: Ready Inr)
  qed
qed

end

section \<open>The read loop shared by all resumable reads\<close>

text \<open>
  \<open>while off < target { let n = read.read(&mut buf[(off - base)..]).await?;
  if n == 0 { bail!("Connection closed by peer"); } off += n; }\<close>
\<close>

function read_loop :: "nat \<Rightarrow> nat \<Rightarrow> nat \<Rightarrow> u8 list \<Rightarrow> rstream \<Rightarrow>
    unit result poll \<times> nat \<times> u8 list \<times> rstream" where
  "read_loop base target off buf es =
     (if off < target then
        (case read_poll (length buf - (off - base)) es of
           (RdPending, es') \<Rightarrow> (Pending, off, buf, es')
         | (RdErr, es') \<Rightarrow> (Ready (Err IoError), off, buf, es')
         | (RdBytes bs, es') \<Rightarrow>
             (if bs = [] then (Ready (Err ConnectionClosed), off, buf, es')
              else read_loop base target (off + length bs) (write_at buf (off - base) bs) es'))
      else (Ready (Ok ()), off, buf, es))"
  by pat_completeness auto
termination
  by (relation "measure (\<lambda>(base, target, off, buf, es). target - off)") (auto intro: diff_less_mono2)

declare read_loop.simps [simp del]

lemma read_loop_spec:
  assumes "read_loop base target off buf es = (p, off', buf', es')"
    and "base \<le> off" and "off \<le> target" and "length buf = target - base"
  shows "length buf' = length buf \<and> base \<le> off' \<and> off' \<le> target
    \<and> take (off' - base) buf' @ bytes_of es' = take (off - base) buf @ bytes_of es
    \<and> end_of es' = end_of es
    \<and> (p = Pending \<longrightarrow> off' < target \<and> (waits es = Suc (waits es') \<or> waits es' = 0 \<and> bytes_of es' = [] \<and> end_of es = StillOpen))
    \<and> (p = Ready (Ok ()) \<longrightarrow> off' = target \<and> waits es' = waits es)
    \<and> (\<forall>e. p = Ready (Err e) \<longrightarrow> off' < target \<and> bytes_of es' = [] \<and> stream_error (end_of es) e)"
  using assms
proof (induction base target off buf es arbitrary: p off' buf' es' rule: read_loop.induct)
  case (1 base target off buf es)
  show ?case
  proof (cases "off < target")
    case True
    obtain r es1 where r: "read_poll (length buf - (off - base)) es = (r, es1)" by fastforce
    note eq = 1(2) [unfolded read_loop.simps [of base target off buf es]]
    show ?thesis
    proof (cases r)
      case RdPending
      with r eq True have res: "(p, off', buf', es') = (Pending, off, buf, es1)" by simp
      from read_poll_pending [OF r [unfolded RdPending]] res 1(3-) True show ?thesis by auto
    next
      case RdErr
      with r eq True have res: "(p, off', buf', es') = (Ready (Err IoError), off, buf, es1)" by simp
      from read_poll_err [OF r [unfolded RdErr]] res 1(3-) True show ?thesis by auto
    next
      case (RdBytes bs)
      note rb = read_poll_bytes [OF r [unfolded RdBytes]]
      show ?thesis
      proof (cases "bs = []")
        case empty: True
        with r eq True RdBytes
        have res: "(p, off', buf', es') = (Ready (Err ConnectionClosed), off, buf, es1)" by simp
        have "0 < length buf - (off - base)" using 1(3-) True by simp
        from read_poll_none [OF r [unfolded RdBytes empty] this] rb empty res 1(3-) True
        show ?thesis by simp
      next
        case False
        let ?buf = "write_at buf (off - base) bs" and ?off = "off + length bs"
        have le: "off - base + length bs \<le> length buf" using rb 1(3-) True by linarith
        have rec: "read_loop base target ?off ?buf es1 = (p, off', buf', es')"
          using eq True r RdBytes False by simp
        have "take (?off - base) ?buf = take (off - base) buf @ bs"
          using take_write_at [of "off - base" buf bs] le 1(3-) by simp
        with 1(1) [OF True r [symmetric] RdBytes False rec] le 1(3-) rb True show ?thesis
          by simp
      qed
    qed
  next
    case False
    with 1(2-) show ?thesis by (auto simp: read_loop.simps [of base target off buf es])
  qed
qed

section \<open>ResumableReadString\<close>

record ResumableReadString =
  rrs_offset :: nat
  rrs_size :: u64
  rrs_max_len :: usize
  rrs_buf :: "u8 list"

definition rrs_new :: "usize \<Rightarrow> ResumableReadString" where
  "rrs_new max_len = \<lparr>rrs_offset = 0, rrs_size = 0, rrs_max_len = max_len, rrs_buf = []\<rparr>"

text \<open>The second half of \<open>read_on\<close>: the payload loop, the reset and the conversion.\<close>

definition rrs_payload :: "ResumableReadString \<Rightarrow> rstream \<Rightarrow>
    rstring result poll \<times> ResumableReadString \<times> rstream" where
  "rrs_payload s es =
     (case read_loop 8 (unat (rrs_size s + 8)) (rrs_offset s) (rrs_buf s) es of
        (Pending, off, buf, es') \<Rightarrow> (Pending, s\<lparr>rrs_offset := off, rrs_buf := buf\<rparr>, es')
      | (Ready (Inl e), off, buf, es') \<Rightarrow>
          (Ready (Err e), s\<lparr>rrs_offset := off, rrs_buf := buf\<rparr>, es')
      | (Ready (Inr _), off, buf, es') \<Rightarrow>
          (Ready (from_utf8 buf), s\<lparr>rrs_offset := 0, rrs_size := 0, rrs_buf := []\<rparr>, es'))"

definition rrs_read_on :: "ResumableReadString \<Rightarrow> rstream \<Rightarrow>
    rstring result poll \<times> ResumableReadString \<times> rstream" where
  "rrs_read_on s es =
     (if rrs_size s = 0 then
        (case read_loop 0 8 (rrs_offset s) (resize (rrs_buf s) 8) es of
           (Pending, off, buf, es') \<Rightarrow> (Pending, s\<lparr>rrs_offset := off, rrs_buf := buf\<rparr>, es')
         | (Ready (Inl e), off, buf, es') \<Rightarrow>
             (Ready (Err e), s\<lparr>rrs_offset := off, rrs_buf := buf\<rparr>, es')
         | (Ready (Inr _), off, buf, es') \<Rightarrow>
             (let size = load_be (rrs_size s) (take 8 buf) in
              if size > rrs_max_len s then
                (Ready (Err (StringTooLong size (rrs_max_len s))),
                 s\<lparr>rrs_offset := off, rrs_size := size, rrs_buf := buf\<rparr>, es')
              else rrs_payload
                (s\<lparr>rrs_offset := off, rrs_size := size, rrs_buf := replicate (unat size) 0\<rparr>) es'))
      else rrs_payload s es)"

definition rrs_got :: "ResumableReadString \<Rightarrow> u8 list" where
  "rrs_got s =
     (if rrs_size s = 0 then take (rrs_offset s) (rrs_buf s)
      else be_bytes (rrs_size s) @ take (rrs_offset s - 8) (rrs_buf s))"

definition rrs_inv :: "usize \<Rightarrow> ResumableReadString \<Rightarrow> bool" where
  "rrs_inv max_len s \<longleftrightarrow> rrs_max_len s = max_len \<and> unat max_len + 8 < 2 ^ 64
     \<and> (if rrs_size s = 0 then rrs_offset s < 8 \<and> rrs_offset s \<le> length (rrs_buf s)
        else 8 \<le> rrs_offset s \<and> rrs_offset s < unat (rrs_size s) + 8
          \<and> length (rrs_buf s) = unat (rrs_size s) \<and> rrs_size s \<le> max_len)"

text \<open>The strings a reader accepts.\<close>

definition acceptable :: "usize \<Rightarrow> rstring \<Rightarrow> bool" where
  "acceptable max_len str \<longleftrightarrow> utf8_valid str \<and> length str \<le> unat max_len"

lemma rrs_inv_new: "unat max_len + 8 < 2 ^ 64 \<Longrightarrow> rrs_inv max_len (rrs_new max_len)"
  by (simp add: rrs_inv_def rrs_new_def)

lemma rrs_got_new [simp]: "rrs_got (rrs_new max_len) = []"
  by (simp add: rrs_got_def rrs_new_def)

lemma unat_size_plus_8:
  "sz \<le> (max_len :: usize) \<Longrightarrow> unat max_len + 8 < 2 ^ 64 \<Longrightarrow> unat (sz + 8) = unat sz + 8"
  by (simp add: unat_word_ariths word_le_nat_alt)

text \<open>
  Both phases in one lemma: \<open>read_on\<close> pushes on from a state of the payload phase. The
  state just after the header (offset 8, nothing of the payload read) is admitted too.
\<close>

lemma rrs_payload_spec:
  assumes "rrs_payload s es = (p, s', es')"
    and "rrs_max_len s = max_len" "unat max_len + 8 < 2 ^ 64" "rrs_size s \<le> max_len"
    and "8 \<le> rrs_offset s" "rrs_offset s \<le> unat (rrs_size s) + 8"
    and "length (rrs_buf s) = unat (rrs_size s)"
  shows "end_of es' = end_of es
    \<and> (p = Pending \<longrightarrow> rrs_inv max_len s' \<and> rrs_size s' = rrs_size s \<and> rrs_size s \<noteq> 0
        \<and> take (rrs_offset s' - 8) (rrs_buf s') @ bytes_of es' =
           take (rrs_offset s - 8) (rrs_buf s) @ bytes_of es
        \<and> (waits es = Suc (waits es') \<or> waits es' = 0 \<and> bytes_of es' = [] \<and> end_of es = StillOpen))
    \<and> (\<forall>x. p = Ready (Ok x) \<longrightarrow> rrs_inv max_len s' \<and> rrs_got s' = [] \<and> waits es' = waits es
        \<and> utf8_valid x \<and> length x = unat (rrs_size s)
        \<and> take (rrs_offset s - 8) (rrs_buf s) @ bytes_of es = x @ bytes_of es')
    \<and> (\<forall>e. p = Ready (Err e) \<longrightarrow>
        (length (take (rrs_offset s - 8) (rrs_buf s) @ bytes_of es) < unat (rrs_size s)
           \<and> stream_error (end_of es) e
         \<or> unat (rrs_size s) \<le> length (take (rrs_offset s - 8) (rrs_buf s) @ bytes_of es)
           \<and> \<not> utf8_valid (take (unat (rrs_size s)) (take (rrs_offset s - 8) (rrs_buf s) @ bytes_of es))))"
proof -
  obtain q off buf es1 where q:
    "read_loop 8 (unat (rrs_size s + 8)) (rrs_offset s) (rrs_buf s) es = (q, off, buf, es1)"
    by (metis prod_cases4)
  have size8: "unat (rrs_size s + 8) = unat (rrs_size s) + 8"
    using assms by (intro unat_size_plus_8)
  note L = read_loop_spec [OF q]
  have L: "length buf = unat (rrs_size s)" "8 \<le> off" "off \<le> unat (rrs_size s) + 8"
    "take (off - 8) buf @ bytes_of es1 = take (rrs_offset s - 8) (rrs_buf s) @ bytes_of es"
    "end_of es1 = end_of es"
    "q = Pending \<Longrightarrow> off < unat (rrs_size s) + 8 \<and> (waits es = Suc (waits es1) \<or> waits es1 = 0 \<and> bytes_of es1 = [] \<and> end_of es = StillOpen)"
    "q = Ready (Ok ()) \<Longrightarrow> off = unat (rrs_size s) + 8 \<and> waits es1 = waits es"
    "\<And>e. q = Ready (Err e) \<Longrightarrow> off < unat (rrs_size s) + 8 \<and> bytes_of es1 = [] \<and> stream_error (end_of es) e"
    using L assms size8 by simp_all
  show ?thesis
  proof (cases q)
    case Pending
    with q assms(1) have "p = Pending" "s' = s\<lparr>rrs_offset := off, rrs_buf := buf\<rparr>" "es' = es1"
      by (simp_all add: rrs_payload_def)
    moreover from L(2) L(6) [OF Pending] have "rrs_size s \<noteq> 0" by (auto simp: word_unat_eq_iff)
    ultimately show ?thesis using L(1-5) L(6) [OF Pending] assms by (simp add: rrs_inv_def)
  next
    case (Ready r)
    show ?thesis
    proof (cases r)
      case (Inl e)
      with q Ready assms(1) have "p = Ready (Err e)" "es' = es1" by (simp_all add: rrs_payload_def)
      moreover have "length (take (rrs_offset s - 8) (rrs_buf s) @ bytes_of es) < unat (rrs_size s)"
        using L(1,2) L(8) Ready Inl by (subst L(4) [symmetric]) auto
      ultimately show ?thesis using L(5) L(8) Ready Inl by simp
    next
      case (Inr u)
      with q Ready assms(1) have res: "p = Ready (from_utf8 buf)" "es' = es1"
        "s' = s\<lparr>rrs_offset := 0, rrs_size := 0, rrs_buf := []\<rparr>"
        by (simp_all add: rrs_payload_def)
      from L(7) Ready Inr L(1) have off: "take (off - 8) buf = buf" "waits es1 = waits es" by simp_all
      then have "take (rrs_offset s - 8) (rrs_buf s) @ bytes_of es = buf @ bytes_of es1"
        using L(4) by simp
      with res off L(1,5) assms show ?thesis
        by (auto simp: rrs_inv_def rrs_got_def from_utf8_def split: if_splits)
    qed
  qed
qed

text \<open>The three outcomes of the header phase.\<close>

lemma rrs_header_cases:
  assumes "rrs_inv max_len s" "rrs_size s = 0" "rrs_read_on s es = (p, s', es')"
  obtains
    (waiting) "p = Pending" "rrs_inv max_len s'" "rrs_got s @ bytes_of es = rrs_got s' @ bytes_of es'"
      "end_of es' = end_of es" "waits es = Suc (waits es') \<or> waits es' = 0 \<and> bytes_of es' = [] \<and> end_of es = StillOpen"
  | (broken) e where "p = Ready (Err e)" "length (rrs_got s @ bytes_of es) < 8"
      "stream_error (end_of es) e"
  | (header) hdr es1 sz where "length hdr = 8" "sz = load_be 0 hdr" "end_of es1 = end_of es"
      "waits es1 = waits es" "rrs_got s @ bytes_of es = hdr @ bytes_of es1"
      "(if sz > max_len then (Ready (Err (StringTooLong sz max_len)),
          s\<lparr>rrs_offset := 8, rrs_size := sz, rrs_buf := hdr\<rparr>, es1)
        else rrs_payload (s\<lparr>rrs_offset := 8, rrs_size := sz, rrs_buf := replicate (unat sz) 0\<rparr>) es1)
       = (p, s', es')"
proof -
  obtain q off buf es1 where q: "read_loop 0 8 (rrs_offset s) (resize (rrs_buf s) 8) es = (q, off, buf, es1)"
    by (metis prod_cases4)
  have "rrs_offset s < 8" "rrs_offset s \<le> length (rrs_buf s)" "rrs_max_len s = max_len"
    using assms by (simp_all add: rrs_inv_def)
  then have g: "take (rrs_offset s) (resize (rrs_buf s) 8) = rrs_got s"
    using assms(2) by (simp add: rrs_got_def take_resize)
  have L: "length buf = 8" "off \<le> 8" "take off buf @ bytes_of es1 = rrs_got s @ bytes_of es"
    "end_of es1 = end_of es"
    "q = Pending \<Longrightarrow> off < 8 \<and> (waits es = Suc (waits es1) \<or> waits es1 = 0 \<and> bytes_of es1 = [] \<and> end_of es = StillOpen)"
    "q = Ready (Ok ()) \<Longrightarrow> off = 8 \<and> waits es1 = waits es"
    "\<And>e. q = Ready (Err e) \<Longrightarrow> off < 8 \<and> bytes_of es1 = [] \<and> stream_error (end_of es) e"
    using read_loop_spec [OF q] g \<open>rrs_offset s < 8\<close> by simp_all
  show thesis
  proof (cases q)
    case Pending
    with q assms have "p = Pending" "s' = s\<lparr>rrs_offset := off, rrs_buf := buf\<rparr>" "es' = es1"
      by (simp_all add: rrs_read_on_def)
    with L(1-4) L(5) [OF Pending] assms show thesis
      by (intro waiting) (simp_all add: rrs_inv_def rrs_got_def)
  next
    case (Ready r)
    show thesis
    proof (cases r)
      case (Inl e)
      with q Ready assms have "p = Ready (Err e)" by (simp add: rrs_read_on_def)
      moreover have "length (rrs_got s @ bytes_of es) < 8"
        using L(1) L(7) Ready Inl by (subst L(3) [symmetric]) auto
      ultimately show thesis using broken L(7) Ready Inl by blast
    next
      case (Inr u)
      with L(6) Ready have off: "off = 8" "waits es1 = waits es" by simp_all
      with L(1,3) have "rrs_got s @ bytes_of es = buf @ bytes_of es1" by simp
      with q Ready Inr assms off L(1,4) show thesis
        by (intro header [of buf "load_be 0 buf" es1])
          (simp_all add: rrs_read_on_def Let_def \<open>rrs_max_len s = max_len\<close> cong: if_cong)
    qed
  qed
qed

lemma string_message_prefix:
  assumes "length v < 2 ^ 64" and "length hdr = 8" and "hdr @ r = string_message v @ r'"
  shows "unat (load_be 0 hdr) = length v" and "r = v @ r'"
proof -
  have "hdr = be_bytes (word_of_nat (length v))" "r = v @ r'"
    using assms(2,3) by (simp_all add: string_message_def)
  then show "unat (load_be 0 hdr) = length v" "r = v @ r'"
    using assms(1) by (simp_all add: unat_of_nat)
qed

lemma acceptable_length: "acceptable max_len v \<Longrightarrow> length v < 2 ^ 64"
  using unsigned_less [of max_len, where ?'a = nat] by (simp add: acceptable_def)

lemma string_message_inject:
  assumes "length v < 2 ^ 64" "length w < 2 ^ 64" "string_message v @ r = string_message w @ r'"
  shows "v = w \<and> r = r'"
proof -
  have "be_bytes (word_of_nat (length v)) @ v @ r = string_message w @ r'"
    using assms(3) by (simp add: string_message_def)
  from string_message_prefix [OF assms(2) _ this] assms(1)
  have "length v = length w" "v @ r = w @ r'" by (simp_all add: unat_of_nat)
  then show ?thesis by simp
qed

lemma rrs_after_header_inv:
  assumes "rrs_inv max_len s" and "sz \<le> max_len"
  shows "rrs_max_len (s\<lparr>rrs_offset := 8, rrs_size := sz, rrs_buf := b\<rparr>) = max_len"
    "unat max_len + 8 < 2 ^ 64"
  using assms by (simp_all add: rrs_inv_def)

lemma rrs_payload_inv:
  assumes "rrs_inv max_len s" "rrs_size s \<noteq> 0"
  shows "rrs_max_len s = max_len" "unat max_len + 8 < 2 ^ 64" "rrs_size s \<le> max_len"
    "8 \<le> rrs_offset s" "rrs_offset s \<le> unat (rrs_size s) + 8"
    "length (rrs_buf s) = unat (rrs_size s)"
  using assms by (simp_all add: rrs_inv_def)

text \<open>The laws of the contract for \<open>ResumableReadString\<close>, one by one.\<close>

lemma rrs_pending:
  assumes inv: "rrs_inv max_len s" and eq: "rrs_read_on s es = (Pending, s', es')"
  shows "rrs_inv max_len s' \<and> rrs_got s @ bytes_of es = rrs_got s' @ bytes_of es'
    \<and> end_of es' = end_of es \<and> (waits es = Suc (waits es') \<or> waits es' = 0 \<and> bytes_of es' = [] \<and> end_of es = StillOpen)"
proof (cases "rrs_size s = 0")
  case True
  from inv True eq show ?thesis
  proof (cases rule: rrs_header_cases)
    case (header hdr es1 sz)
    let ?t = "s\<lparr>rrs_offset := 8, rrs_size := sz, rrs_buf := replicate (unat sz) 0\<rparr>"
    from header have le: "sz \<le> max_len" and pl: "rrs_payload ?t es1 = (Pending, s', es')"
      by (auto split: if_splits)
    from rrs_payload_spec [OF pl rrs_after_header_inv [OF inv le]] header le show ?thesis
      by (auto simp: rrs_got_def)
  qed auto
next
  case False
  with eq have "rrs_payload s es = (Pending, s', es')" by (simp add: rrs_read_on_def)
  from rrs_payload_spec [OF this rrs_payload_inv [OF inv False]] False show ?thesis
    by (simp add: rrs_got_def)
qed

lemma rrs_ready:
  assumes inv: "rrs_inv max_len s" and eq: "rrs_read_on s es = (Ready (Ok x), s', es')"
  shows "rrs_inv max_len s' \<and> rrs_got s' = [] \<and> acceptable max_len x \<and> end_of es' = end_of es
    \<and> waits es' \<le> waits es \<and> rrs_got s @ bytes_of es = string_message x @ bytes_of es'"
proof (cases "rrs_size s = 0")
  case True
  from inv True eq show ?thesis
  proof (cases rule: rrs_header_cases)
    case (header hdr es1 sz)
    let ?t = "s\<lparr>rrs_offset := 8, rrs_size := sz, rrs_buf := replicate (unat sz) 0\<rparr>"
    from header have le: "sz \<le> max_len" and pl: "rrs_payload ?t es1 = (Ready (Ok x), s', es')"
      by (auto split: if_splits)
    from rrs_payload_spec [OF pl rrs_after_header_inv [OF inv le]] header le show ?thesis
      by (auto simp: string_message_def acceptable_def word_le_nat_alt)
  qed auto
next
  case False
  with eq have pl: "rrs_payload s es = (Ready (Ok x), s', es')" by (simp add: rrs_read_on_def)
  note I = rrs_payload_inv [OF inv False]
  from rrs_payload_spec [OF pl I] False I(3) show ?thesis
    by (simp add: rrs_got_def string_message_def acceptable_def word_le_nat_alt)
qed

lemma rrs_fails:
  assumes inv: "rrs_inv max_len s" and eq: "rrs_read_on s es = (Ready (Err e), s', es')"
    and ok: "acceptable max_len v"
  shows "rrs_got s @ bytes_of es \<noteq> string_message v @ rest"
proof
  assume msg: "rrs_got s @ bytes_of es = string_message v @ rest"
  note len = acceptable_length [OF ok]
  have v: "utf8_valid v" "length v \<le> unat max_len" using ok by (simp_all add: acceptable_def)
  show False
  proof (cases "rrs_size s = 0")
    case True
    from inv True eq show False
    proof (cases rule: rrs_header_cases)
      case (broken e)
      with msg show False by (simp add: string_message_def)
    next
      case (header hdr es1 sz)
      with msg string_message_prefix [OF len header(1), of "bytes_of es1" rest]
      have sz: "unat sz = length v" "bytes_of es1 = v @ rest" by simp_all
      then have le: "sz \<le> max_len" using v by (simp add: word_le_nat_alt)
      let ?t = "s\<lparr>rrs_offset := 8, rrs_size := sz, rrs_buf := replicate (unat sz) 0\<rparr>"
      have "\<not> sz > max_len" using le by simp
      with header(6) have pl: "rrs_payload ?t es1 = (Ready (Err e), s', es')" by (simp only: if_False)
      from rrs_payload_spec [OF pl rrs_after_header_inv [OF inv le]] le sz v show False by simp
    qed auto
  next
    case False
    with eq have pl: "rrs_payload s es = (Ready (Err e), s', es')" by (simp add: rrs_read_on_def)
    let ?got = "take (rrs_offset s - 8) (rrs_buf s) @ bytes_of es"
    have "be_bytes (rrs_size s) @ ?got = string_message v @ rest"
      using msg False by (simp add: rrs_got_def)
    from string_message_prefix [OF len _ this] have "unat (rrs_size s) = length v" "?got = v @ rest"
      by simp_all
    with rrs_payload_spec [OF pl rrs_payload_inv [OF inv False]] v show False by simp
  qed
qed

lemma prefix_take: "g @ m = v \<Longrightarrow> length v \<le> length g \<Longrightarrow> take (length v) g = v"
  by auto

lemma rrs_truncated:
  assumes inv: "rrs_inv max_len s" and eq: "rrs_read_on s es = (Ready (Err e), s', es')"
    and ok: "acceptable max_len v" and msg: "rrs_got s @ bytes_of es @ missing = string_message v"
  shows "stream_error (end_of es) e"
proof -
  note len = acceptable_length [OF ok]
  have v: "utf8_valid v" "length v \<le> unat max_len" using ok by (simp_all add: acceptable_def)
  show ?thesis
  proof (cases "rrs_size s = 0")
    case True
    from inv True eq show ?thesis
    proof (cases rule: rrs_header_cases)
      case (header hdr es1 sz)
      from header(5) msg have "hdr @ bytes_of es1 @ missing = string_message v @ []"
        by (metis append_assoc append_Nil2)
      from string_message_prefix [OF len header(1) this] header(2)
      have sz: "unat sz = length v" "bytes_of es1 @ missing = v" by simp_all
      then have le: "sz \<le> max_len" using v by (simp add: word_le_nat_alt)
      let ?t = "s\<lparr>rrs_offset := 8, rrs_size := sz, rrs_buf := replicate (unat sz) 0\<rparr>"
      have "\<not> sz > max_len" using le by simp
      with header(6) have pl: "rrs_payload ?t es1 = (Ready (Err e), s', es')" by (simp only: if_False)
      from rrs_payload_spec [OF pl rrs_after_header_inv [OF inv le]] le sz v header(3) show ?thesis
        by (cases "missing = []") auto
    qed auto
  next
    case False
    with eq have pl: "rrs_payload s es = (Ready (Err e), s', es')" by (simp add: rrs_read_on_def)
    let ?got = "take (rrs_offset s - 8) (rrs_buf s) @ bytes_of es"
    have "be_bytes (rrs_size s) @ ?got @ missing = string_message v @ []"
      using msg False by (simp add: rrs_got_def)
    from string_message_prefix [OF len _ this]
    have "unat (rrs_size s) = length v" "?got @ missing = v" by simp_all
    moreover from rrs_payload_spec [OF pl rrs_payload_inv [OF inv False]]
    have "stream_error (end_of es) e
      \<or> unat (rrs_size s) \<le> length ?got \<and> \<not> utf8_valid (take (unat (rrs_size s)) ?got)" by blast
    ultimately show ?thesis using v(1) prefix_take [of ?got missing v] by metis
  qed
qed

lemma rrs_partial:
  assumes inv: "rrs_inv max_len s" and ok: "acceptable max_len v"
  shows "rrs_got s \<noteq> string_message v @ rest"
proof
  assume msg: "rrs_got s = string_message v @ rest"
  show False
  proof (cases "rrs_size s = 0")
    case True
    then have "length (rrs_got s) < 8" using inv by (simp add: rrs_got_def rrs_inv_def)
    with msg show False by (simp add: string_message_def)
  next
    case False
    with msg have "be_bytes (rrs_size s) @ take (rrs_offset s - 8) (rrs_buf s) = string_message v @ rest"
      by (simp add: rrs_got_def)
    from string_message_prefix [OF acceptable_length [OF ok] _ this]
    have "unat (rrs_size s) \<le> length (take (rrs_offset s - 8) (rrs_buf s))" by simp
    then show False using inv False by (auto simp: rrs_inv_def)
  qed
qed

lemma rrs_prefix_free:
  "acceptable max_len v \<Longrightarrow> acceptable max_len v' \<Longrightarrow>
     string_message v @ r = string_message v' @ r' \<Longrightarrow> v = v' \<and> r = r'"
  by (rule string_message_inject [OF acceptable_length acceptable_length])

interpretation rrs: resumable_reader rrs_read_on "rrs_inv max_len" rrs_got "\<lambda>_ x. x"
    string_message "acceptable max_len"
  for max_len
  by unfold_locales
    (rule rrs_pending rrs_ready rrs_fails rrs_truncated rrs_partial rrs_prefix_free; assumption)+

section \<open>ResumableReadFileBlock\<close>

record ResumableReadFileBlock =
  rrfb_offset :: usize
  rrfb_block_size :: usize
  rrfb_file_size :: usize
  rrfb_buf_offset :: nat

definition rrfb_new :: "usize \<Rightarrow> usize \<Rightarrow> ResumableReadFileBlock" where
  "rrfb_new block_size file_size =
     \<lparr>rrfb_offset = 0, rrfb_block_size = block_size, rrfb_file_size = file_size, rrfb_buf_offset = 0\<rparr>"

text \<open>
  \<open>current_block_size\<close>: the number of bytes of the block at an offset. The subtraction is on
  \<open>usize\<close> and wraps when the offset is past the end of the file.
\<close>

definition current_block_size :: "usize \<Rightarrow> usize \<Rightarrow> usize \<Rightarrow> usize" where
  "current_block_size block_size file_size offset =
     (let rem = file_size - offset in if rem < block_size then rem else block_size)"

text \<open>The caller's buffer is a second argument of \<open>read_on\<close>; it is state between polls.\<close>

definition rrfb_payload :: "ResumableReadFileBlock \<times> u8 list \<Rightarrow> rstream \<Rightarrow>
    usize result poll \<times> (ResumableReadFileBlock \<times> u8 list) \<times> rstream" where
  "rrfb_payload sb es =
     (case sb of (s, buf) \<Rightarrow>
        (case read_loop 8 (length buf + 8) (rrfb_buf_offset s) buf es of
           (Pending, off, buf', es') \<Rightarrow> (Pending, (s\<lparr>rrfb_buf_offset := off\<rparr>, buf'), es')
         | (Ready (Inl e), off, buf', es') \<Rightarrow> (Ready (Err e), (s\<lparr>rrfb_buf_offset := off\<rparr>, buf'), es')
         | (Ready (Inr _), off, buf', es') \<Rightarrow>
             (Ready (Ok (rrfb_offset s)), (s\<lparr>rrfb_offset := 0, rrfb_buf_offset := 0\<rparr>, buf'), es')))"

definition rrfb_read_on :: "ResumableReadFileBlock \<times> u8 list \<Rightarrow> rstream \<Rightarrow>
    usize result poll \<times> (ResumableReadFileBlock \<times> u8 list) \<times> rstream" where
  "rrfb_read_on sb es =
     (case sb of (s, buf) \<Rightarrow>
        (if rrfb_buf_offset s < 8 then
           (case read_loop 0 8 (rrfb_buf_offset s) (resize buf 8) es of
              (Pending, off, buf', es') \<Rightarrow> (Pending, (s\<lparr>rrfb_buf_offset := off\<rparr>, buf'), es')
            | (Ready (Inl e), off, buf', es') \<Rightarrow>
                (Ready (Err e), (s\<lparr>rrfb_buf_offset := off\<rparr>, buf'), es')
            | (Ready (Inr _), off, buf', es') \<Rightarrow>
                (let offset = load_be (rrfb_offset s) (take 8 buf') in
                 rrfb_payload
                   (s\<lparr>rrfb_offset := offset, rrfb_buf_offset := off\<rparr>,
                    replicate (unat (current_block_size (rrfb_block_size s) (rrfb_file_size s) offset)) 0)
                   es'))
         else rrfb_payload (s, buf) es))"

text \<open>A block on the wire, and which blocks the reader can return.\<close>

definition block_message :: "usize \<times> u8 list \<Rightarrow> u8 list" where
  "block_message b = be_bytes (fst b) @ snd b"

definition block_fits :: "usize \<Rightarrow> usize \<Rightarrow> usize \<times> u8 list \<Rightarrow> bool" where
  "block_fits block_size file_size b \<longleftrightarrow>
     length (snd b) = unat (current_block_size block_size file_size (fst b))"

definition rrfb_got :: "ResumableReadFileBlock \<times> u8 list \<Rightarrow> u8 list" where
  "rrfb_got sb =
     (case sb of (s, buf) \<Rightarrow>
        if rrfb_buf_offset s < 8 then take (rrfb_buf_offset s) buf
        else be_bytes (rrfb_offset s) @ take (rrfb_buf_offset s - 8) buf)"

definition rrfb_inv :: "usize \<Rightarrow> usize \<Rightarrow> ResumableReadFileBlock \<times> u8 list \<Rightarrow> bool" where
  "rrfb_inv block_size file_size sb \<longleftrightarrow>
     (case sb of (s, buf) \<Rightarrow>
        rrfb_block_size s = block_size \<and> rrfb_file_size s = file_size
        \<and> (if rrfb_buf_offset s < 8 then rrfb_offset s = 0 \<and> rrfb_buf_offset s \<le> length buf
           else rrfb_buf_offset s < length buf + 8
             \<and> length buf = unat (current_block_size block_size file_size (rrfb_offset s))))"

lemma rrfb_inv_new: "rrfb_inv block_size file_size (rrfb_new block_size file_size, buf)"
  by (simp add: rrfb_inv_def rrfb_new_def)

lemma rrfb_got_new [simp]: "rrfb_got (rrfb_new block_size file_size, buf) = []"
  by (simp add: rrfb_got_def rrfb_new_def)

lemma rrfb_payload_spec:
  assumes "rrfb_payload (s, buf) es = (p, (s', buf'), es')"
    and "rrfb_block_size s = block_size" "rrfb_file_size s = file_size"
    and "8 \<le> rrfb_buf_offset s" "rrfb_buf_offset s \<le> length buf + 8"
    and "length buf = unat (current_block_size block_size file_size (rrfb_offset s))"
  shows "end_of es' = end_of es
    \<and> (p = Pending \<longrightarrow> rrfb_inv block_size file_size (s', buf')
        \<and> rrfb_got (s', buf') @ bytes_of es' = rrfb_got (s, buf) @ bytes_of es
        \<and> (waits es = Suc (waits es') \<or> waits es' = 0 \<and> bytes_of es' = [] \<and> end_of es = StillOpen))
    \<and> (\<forall>x. p = Ready (Ok x) \<longrightarrow> rrfb_inv block_size file_size (s', buf')
        \<and> rrfb_got (s', buf') = [] \<and> waits es' = waits es
        \<and> block_fits block_size file_size (x, buf')
        \<and> rrfb_got (s, buf) @ bytes_of es = block_message (x, buf') @ bytes_of es')
    \<and> (\<forall>e. p = Ready (Err e) \<longrightarrow>
        length (rrfb_got (s, buf) @ bytes_of es) < length buf + 8 \<and> stream_error (end_of es) e)"
proof -
  obtain q off buf1 es1 where q:
    "read_loop 8 (length buf + 8) (rrfb_buf_offset s) buf es = (q, off, buf1, es1)"
    by (metis prod_cases4)
  have L: "length buf1 = length buf" "8 \<le> off" "off \<le> length buf + 8"
    "take (off - 8) buf1 @ bytes_of es1 = take (rrfb_buf_offset s - 8) buf @ bytes_of es"
    "end_of es1 = end_of es"
    "q = Pending \<Longrightarrow> off < length buf + 8 \<and> (waits es = Suc (waits es1) \<or> waits es1 = 0 \<and> bytes_of es1 = [] \<and> end_of es = StillOpen)"
    "q = Ready (Ok ()) \<Longrightarrow> off = length buf + 8 \<and> waits es1 = waits es"
    "\<And>e. q = Ready (Err e) \<Longrightarrow> off < length buf + 8 \<and> bytes_of es1 = [] \<and> stream_error (end_of es) e"
    using read_loop_spec [OF q] assms by simp_all
  have g: "rrfb_got (s, buf) @ bytes_of es = be_bytes (rrfb_offset s) @ take (off - 8) buf1 @ bytes_of es1"
    using L(4) assms by (simp add: rrfb_got_def)
  show ?thesis
  proof (cases q)
    case Pending
    with q assms(1) have "p = Pending" "s' = s\<lparr>rrfb_buf_offset := off\<rparr>" "buf' = buf1" "es' = es1"
      by (simp_all add: rrfb_payload_def)
    then show ?thesis using L(1-5) L(6) [OF Pending] g assms
      by (simp add: rrfb_inv_def rrfb_got_def)
  next
    case (Ready r)
    show ?thesis
    proof (cases r)
      case (Inl e)
      with q Ready assms(1) have "p = Ready (Err e)" "es' = es1" by (simp_all add: rrfb_payload_def)
      moreover have "length (take (off - 8) buf1 @ bytes_of es1) < length buf"
        using L(1,2) L(8) Ready Inl by auto
      ultimately show ?thesis using g L(5) L(8) Ready Inl by simp
    next
      case (Inr u)
      with q Ready assms(1) have res: "p = Ready (Ok (rrfb_offset s))" "es' = es1" "buf' = buf1"
        "s' = s\<lparr>rrfb_offset := 0, rrfb_buf_offset := 0\<rparr>"
        by (simp_all add: rrfb_payload_def)
      from L(7) Ready Inr L(1) have "take (off - 8) buf1 = buf1" "waits es1 = waits es" by simp_all
      with res g L(1,5) assms show ?thesis
        by (simp add: rrfb_inv_def rrfb_got_def block_fits_def block_message_def)
    qed
  qed
qed

lemma rrfb_header_cases:
  assumes "rrfb_inv block_size file_size (s, buf)" "rrfb_buf_offset s < 8"
    and "rrfb_read_on (s, buf) es = (p, sb', es')"
  obtains
    (waiting) "p = Pending" "rrfb_inv block_size file_size sb'"
      "rrfb_got (s, buf) @ bytes_of es = rrfb_got sb' @ bytes_of es'"
      "end_of es' = end_of es" "waits es = Suc (waits es') \<or> waits es' = 0 \<and> bytes_of es' = [] \<and> end_of es = StillOpen"
  | (broken) e where "p = Ready (Err e)" "length (rrfb_got (s, buf) @ bytes_of es) < 8"
      "stream_error (end_of es) e"
  | (header) hdr es1 off where "length hdr = 8" "off = load_be 0 hdr" "end_of es1 = end_of es"
      "waits es1 = waits es" "rrfb_got (s, buf) @ bytes_of es = hdr @ bytes_of es1"
      "rrfb_payload (s\<lparr>rrfb_offset := off, rrfb_buf_offset := 8\<rparr>,
         replicate (unat (current_block_size block_size file_size off)) 0) es1 = (p, sb', es')"
proof -
  obtain q off buf1 es1 where q:
    "read_loop 0 8 (rrfb_buf_offset s) (resize buf 8) es = (q, off, buf1, es1)"
    by (metis prod_cases4)
  have I: "rrfb_buf_offset s \<le> length buf" "rrfb_offset s = 0" "rrfb_block_size s = block_size"
    "rrfb_file_size s = file_size"
    using assms by (simp_all add: rrfb_inv_def)
  then have g: "take (rrfb_buf_offset s) (resize buf 8) = rrfb_got (s, buf)"
    using assms(2) by (simp add: rrfb_got_def take_resize)
  have L: "length buf1 = 8" "off \<le> 8" "take off buf1 @ bytes_of es1 = rrfb_got (s, buf) @ bytes_of es"
    "end_of es1 = end_of es"
    "q = Pending \<Longrightarrow> off < 8 \<and> (waits es = Suc (waits es1) \<or> waits es1 = 0 \<and> bytes_of es1 = [] \<and> end_of es = StillOpen)"
    "q = Ready (Ok ()) \<Longrightarrow> off = 8 \<and> waits es1 = waits es"
    "\<And>e. q = Ready (Err e) \<Longrightarrow> off < 8 \<and> bytes_of es1 = [] \<and> stream_error (end_of es) e"
    using read_loop_spec [OF q] g assms(2) by simp_all
  show thesis
  proof (cases q)
    case Pending
    with q assms have "p = Pending" "sb' = (s\<lparr>rrfb_buf_offset := off\<rparr>, buf1)" "es' = es1"
      by (simp_all add: rrfb_read_on_def)
    with L(1-4) L(5) [OF Pending] I show thesis
      by (intro waiting) (simp_all add: rrfb_inv_def rrfb_got_def)
  next
    case (Ready r)
    show thesis
    proof (cases r)
      case (Inl e)
      with q Ready assms have "p = Ready (Err e)" by (simp add: rrfb_read_on_def)
      moreover have "length (rrfb_got (s, buf) @ bytes_of es) < 8"
        using L(1) L(7) Ready Inl by (subst L(3) [symmetric]) auto
      ultimately show thesis using broken L(7) Ready Inl by blast
    next
      case (Inr u)
      with L(6) Ready have off: "off = 8" "waits es1 = waits es" by simp_all
      with L(1,3) have "rrfb_got (s, buf) @ bytes_of es = buf1 @ bytes_of es1" by simp
      with q Ready Inr assms off L(1,4) I show thesis
        by (intro header [of buf1 "load_be 0 buf1" es1]) (simp_all add: rrfb_read_on_def Let_def)
    qed
  qed
qed

text \<open>Where a poll of \<open>read_on\<close> goes on with the payload.\<close>

lemma rrfb_read_on_payload:
  assumes inv: "rrfb_inv block_size file_size (s, buf)"
    and eq: "rrfb_read_on (s, buf) es = (p, sb', es')"
  obtains
    (waiting) "p = Pending" "rrfb_inv block_size file_size sb'"
      "rrfb_got (s, buf) @ bytes_of es = rrfb_got sb' @ bytes_of es'"
      "end_of es' = end_of es" "waits es = Suc (waits es') \<or> waits es' = 0 \<and> bytes_of es' = [] \<and> end_of es = StillOpen"
  | (broken) e where "p = Ready (Err e)" "length (rrfb_got (s, buf) @ bytes_of es) < 8"
      "stream_error (end_of es) e"
  | (payload) t b es1 where "rrfb_payload (t, b) es1 = (p, sb', es')"
      "rrfb_block_size t = block_size" "rrfb_file_size t = file_size"
      "8 \<le> rrfb_buf_offset t" "rrfb_buf_offset t \<le> length b + 8"
      "length b = unat (current_block_size block_size file_size (rrfb_offset t))"
      "end_of es1 = end_of es" "waits es1 = waits es"
      "rrfb_got (s, buf) @ bytes_of es = rrfb_got (t, b) @ bytes_of es1"
proof (cases "rrfb_buf_offset s < 8")
  case True
  from inv True eq show thesis
  proof (cases rule: rrfb_header_cases)
    case (header hdr es1 off)
    let ?t = "s\<lparr>rrfb_offset := off, rrfb_buf_offset := 8\<rparr>"
    from header inv show thesis
      by (intro payload [of ?t _ es1]) (auto simp: rrfb_inv_def rrfb_got_def)
  qed (use waiting broken in auto)
next
  case False
  with eq have "rrfb_payload (s, buf) es = (p, sb', es')" by (simp add: rrfb_read_on_def)
  with inv False show thesis by (intro payload [of s buf es]) (simp_all add: rrfb_inv_def)
qed

lemma rrfb_pending:
  assumes inv: "rrfb_inv block_size file_size sb" and eq: "rrfb_read_on sb es = (Pending, sb', es')"
  shows "rrfb_inv block_size file_size sb' \<and> rrfb_got sb @ bytes_of es = rrfb_got sb' @ bytes_of es'
    \<and> end_of es' = end_of es \<and> (waits es = Suc (waits es') \<or> waits es' = 0 \<and> bytes_of es' = [] \<and> end_of es = StillOpen)"
proof -
  obtain s buf s' buf' where sb: "sb = (s, buf)" "sb' = (s', buf')" by fastforce
  from inv eq show ?thesis unfolding sb
  proof (cases rule: rrfb_read_on_payload)
    case (payload t b es1)
    from rrfb_payload_spec [OF payload(1-6)] payload(7-9)
    show "rrfb_inv block_size file_size (s', buf') \<and>
        rrfb_got (s, buf) @ bytes_of es = rrfb_got (s', buf') @ bytes_of es' \<and>
        end_of es' = end_of es \<and> (waits es = Suc (waits es') \<or> waits es' = 0 \<and> bytes_of es' = [] \<and> end_of es = StillOpen)" by simp
  qed simp_all
qed

lemma rrfb_ready:
  assumes inv: "rrfb_inv block_size file_size sb" and eq: "rrfb_read_on sb es = (Ready (Ok x), sb', es')"
  shows "rrfb_inv block_size file_size sb' \<and> rrfb_got sb' = []
    \<and> block_fits block_size file_size (x, snd sb') \<and> end_of es' = end_of es \<and> waits es' \<le> waits es
    \<and> rrfb_got sb @ bytes_of es = block_message (x, snd sb') @ bytes_of es'"
proof -
  obtain s buf s' buf' where sb: "sb = (s, buf)" "sb' = (s', buf')" by fastforce
  from inv eq show ?thesis unfolding sb snd_conv
  proof (cases rule: rrfb_read_on_payload)
    case (payload t b es1)
    from rrfb_payload_spec [OF payload(1-6)] payload(7-9)
    show "rrfb_inv block_size file_size (s', buf') \<and> rrfb_got (s', buf') = []
      \<and> block_fits block_size file_size (x, buf') \<and> end_of es' = end_of es \<and> waits es' \<le> waits es
      \<and> rrfb_got (s, buf) @ bytes_of es = block_message (x, buf') @ bytes_of es'" by simp
  qed simp_all
qed

text \<open>Between two blocks the reader holds nothing, so the caller may give it another buffer.\<close>

lemma rrfb_after_ready:
  assumes "rrfb_inv block_size file_size (s, buf)" and "rrfb_got (s, buf) = []"
  shows "rrfb_inv block_size file_size (s, buf') \<and> rrfb_got (s, buf') = []"
proof -
  from assms have "rrfb_buf_offset s < 8"
    by (auto simp: rrfb_got_def length_0_conv [symmetric] simp del: length_0_conv split: if_splits)
  with assms have "rrfb_buf_offset s = 0" by (auto simp: rrfb_got_def rrfb_inv_def)
  with assms show ?thesis by (simp add: rrfb_got_def rrfb_inv_def)
qed

lemma block_message_prefix:
  assumes "length hdr = 8" and "hdr @ r = block_message b @ r'"
  shows "load_be 0 hdr = fst b" and "r = snd b @ r'"
proof -
  have "hdr = be_bytes (fst b)" "r = snd b @ r'"
    using assms by (simp_all add: block_message_def)
  then show "load_be 0 hdr = fst b" "r = snd b @ r'" by simp_all
qed

lemma rrfb_got_header:
  assumes "8 \<le> rrfb_buf_offset t" and "rrfb_got (t, b) @ r = block_message v @ rest"
  shows "rrfb_offset t = fst v"
  using assms block_message_prefix [of "be_bytes (rrfb_offset t)" _ v rest]
  by (simp add: rrfb_got_def)

lemma rrfb_fails:
  assumes inv: "rrfb_inv block_size file_size sb" and eq: "rrfb_read_on sb es = (Ready (Err e), sb', es')"
    and ok: "block_fits block_size file_size v"
  shows "rrfb_got sb @ bytes_of es \<noteq> block_message v @ rest"
proof
  assume msg: "rrfb_got sb @ bytes_of es = block_message v @ rest"
  obtain s buf s' buf' where sb: "sb = (s, buf)" "sb' = (s', buf')" by fastforce
  from inv eq show False unfolding sb
  proof (cases rule: rrfb_read_on_payload)
    case (broken e)
    then have "length (block_message v @ rest) < 8" using msg by (simp only: sb)
    then show False by (simp add: block_message_def)
  next
    case (payload t b es1)
    from payload(9) msg sb have m: "rrfb_got (t, b) @ bytes_of es1 = block_message v @ rest" by simp
    from rrfb_payload_spec [OF payload(1-6)] m
    have "length (block_message v @ rest) < length b + 8" by simp
    moreover from rrfb_got_header [OF payload(4) m] ok payload(6) have "length b = length (snd v)"
      by (simp add: block_fits_def)
    ultimately show False by (simp add: block_message_def)
  qed simp
qed

lemma rrfb_truncated:
  assumes inv: "rrfb_inv block_size file_size sb" and eq: "rrfb_read_on sb es = (Ready (Err e), sb', es')"
  shows "stream_error (end_of es) e"
proof -
  obtain s buf s' buf' where sb: "sb = (s, buf)" "sb' = (s', buf')" by fastforce
  from inv eq show ?thesis unfolding sb
  proof (cases rule: rrfb_read_on_payload)
    case (payload t b es1)
    from rrfb_payload_spec [OF payload(1-6)] payload(7) show ?thesis by simp
  qed simp_all
qed

lemma rrfb_partial:
  assumes inv: "rrfb_inv block_size file_size sb" and ok: "block_fits block_size file_size v"
  shows "rrfb_got sb \<noteq> block_message v @ rest"
proof
  assume msg: "rrfb_got sb = block_message v @ rest"
  obtain s buf where sb: "sb = (s, buf)" by fastforce
  show False
  proof (cases "rrfb_buf_offset s < 8")
    case True
    then have "length (rrfb_got sb) < 8" using inv sb by (simp add: rrfb_got_def rrfb_inv_def)
    with msg show False by (simp add: block_message_def)
  next
    case False
    then have "length (rrfb_got sb) < length buf + 8"
      using inv sb by (auto simp: rrfb_got_def rrfb_inv_def)
    moreover from False msg sb have "rrfb_offset s = fst v"
      using rrfb_got_header [of s buf "[]" v rest] by simp
    then have "length buf = length (snd v)"
      using ok inv sb False by (simp add: block_fits_def rrfb_inv_def)
    ultimately show False using msg by (simp add: block_message_def)
  qed
qed

lemma rrfb_prefix_free:
  assumes "block_fits block_size file_size v" "block_fits block_size file_size v'"
    and "block_message v @ r = block_message v' @ r'"
  shows "v = v' \<and> r = r'"
proof -
  have eq: "be_bytes (fst v) @ snd v @ r = block_message v' @ r'"
    using assms(3) by (simp add: block_message_def)
  from block_message_prefix [OF _ this] have "fst v = fst v'" "snd v @ r = snd v' @ r'" by simp_all
  moreover from this(1) assms(1,2) have "length (snd v) = length (snd v')"
    by (simp add: block_fits_def)
  ultimately show ?thesis by (simp add: prod_eq_iff)
qed

interpretation rrfb: resumable_reader rrfb_read_on "rrfb_inv block_size file_size" rrfb_got
    "\<lambda>sb off. (off, snd sb)" block_message "block_fits block_size file_size"
  for block_size file_size
  by unfold_locales
    (rule rrfb_pending rrfb_ready rrfb_fails rrfb_truncated rrfb_partial rrfb_prefix_free; assumption)+

end
