(* ===== verification/Resumable_Write.thy ===== *)
theory Resumable_Write
  imports Resumable_Read
begin

text \<open>
  \<open>ResumableWriteString\<close>, \<open>ResumableWriteFileBlock\<close> and \<open>ResumableAsyncWriteAll\<close> of
  \<open>common.rs\<close>: writers that survive being dropped by a \<open>select!\<close>. The locale
  \<open>resumable_writer\<close> is their contract: at any moment the bytes already written followed
  by the bytes that remain are the message, and a sink that keeps accepting bytes receives
  all of it. The three structs are its interpretations.
\<close>

type_synonym sink = "wr_event list \<times> u8 list"

fun wr_waits :: "wr_event list \<Rightarrow> nat" where
  "wr_waits [] = 0"
| "wr_waits (Accept n # es) = wr_waits es"
| "wr_waits (WrWait # es) = Suc (wr_waits es)"
| "wr_waits (WrFail # es) = wr_waits es"

text \<open>The bytes a schedule grants.\<close>

fun granted :: "wr_event list \<Rightarrow> nat" where
  "granted [] = 0"
| "granted (Accept n # es) = n + granted es"
| "granted (WrWait # es) = granted es"
| "granted (WrFail # es) = granted es"

text \<open>Drive several writers in turn; stop when one is not done.\<close>

primrec write_seq :: "nat \<Rightarrow> ('s \<Rightarrow> sink \<Rightarrow> unit result poll \<times> 's \<times> sink) \<Rightarrow> 's list \<Rightarrow> sink \<Rightarrow>
    unit result poll \<times> sink" where
  "write_seq n f [] w = (Ready (Ok ()), w)"
| "write_seq n f (s # ss) w =
     (case drive n f s w of
        (Ready (Inr _), _, w') \<Rightarrow> write_seq n f ss w'
      | (p, _, w') \<Rightarrow> (p, w'))"

section \<open>The contract of a resumable writer\<close>

locale resumable_writer =
  fixes write_to :: "'s \<Rightarrow> sink \<Rightarrow> unit result poll \<times> 's \<times> sink"
    and inv :: "'s \<Rightarrow> bool"
    and remaining :: "'s \<Rightarrow> u8 list"
  assumes progress: "inv s \<Longrightarrow> write_to s (es, out) = (p, s', es', out') \<Longrightarrow>
      inv s' \<and> out' @ remaining s' = out @ remaining s \<and> (p = Ready (Ok ()) \<longrightarrow> remaining s' = [])"
    and alive: "inv s \<Longrightarrow> write_to s (es, out) = (p, s', es', out') \<Longrightarrow> sound_sched es \<Longrightarrow>
      sound_sched es' \<and> wr_waits es' \<le> wr_waits es \<and> (\<forall>e. p \<noteq> Ready (Err e))
      \<and> accepts es + length (remaining s') \<le> accepts es' + length (remaining s)
      \<and> (p = Pending \<longrightarrow> remaining s' \<noteq> [] \<and> (wr_waits es' < wr_waits es \<or> accepts es' = 0))"
    and frugal: "inv s \<Longrightarrow> write_to s (es, out) = (p, s', es', out') \<Longrightarrow>
      length out' + granted es' \<le> length out + granted es"
begin

text \<open>Cancellation never loses, repeats or reorders a byte.\<close>

lemma drive_progress:
  assumes "inv s" and "drive n write_to s (es, out) = (p, s', es', out')"
  shows "inv s' \<and> out' @ remaining s' = out @ remaining s \<and> (p = Ready (Ok ()) \<longrightarrow> remaining s' = [])"
  using assms
proof (induction n arbitrary: s es out)
  case (Suc n)
  obtain q t es1 out1 where q: "write_to s (es, out) = (q, t, es1, out1)" by (metis prod_cases4)
  from progress [OF Suc.prems(1) q] Suc.IH [of t es1 out1] Suc.prems(2) q show ?case
    by (cases q) auto
qed simp

text \<open>When the future is done, exactly the message was written.\<close>

lemma drive_written:
  assumes "inv s" and "drive n write_to s (es, out) = (Ready (Ok ()), s', es', out')"
  shows "out' = out @ remaining s"
  using drive_progress [OF assms] by auto

text \<open>Several messages, written one after the other.\<close>

lemma write_seq_written:
  assumes "\<And>s. s \<in> set ss \<Longrightarrow> inv s"
    and "write_seq n write_to ss (es, out) = (Ready (Ok ()), es', out')"
  shows "out' = out @ concat (map remaining ss)"
  using assms
proof (induction ss arbitrary: es out)
  case (Cons s ss)
  obtain p t es1 out1 where d: "drive n write_to s (es, out) = (p, t, es1, out1)" by (metis prod_cases4)
  with Cons.prems(2) have p: "p = Ready (Ok ())"
    and r: "write_seq n write_to ss (es1, out1) = (Ready (Ok ()), es', out')"
    by (auto split: poll.splits sum.splits)
  from Cons.prems(1) d p have "out1 = out @ remaining s" using drive_written by simp
  with Cons.IH [OF _ r] Cons.prems(1) show ?case by simp
qed simp

text \<open>A sink that accepts enough bytes lets the future finish, whatever the interruptions.\<close>

lemma drive_completes:
  assumes "inv s" and "sound_sched es" and "length (remaining s) \<le> accepts es" and "wr_waits es < n"
  shows "\<exists>s' es'. drive n write_to s (es, out) = (Ready (Ok ()), s', es', out @ remaining s)
    \<and> inv s' \<and> sound_sched es' \<and> accepts es \<le> accepts es' + length (remaining s)"
  using assms
proof (induction n arbitrary: s es out)
  case (Suc n)
  obtain q t es1 out1 where q: "write_to s (es, out) = (q, t, es1, out1)" by (metis prod_cases4)
  note P = progress [OF Suc.prems(1) q] and A = alive [OF Suc.prems(1) q Suc.prems(2)]
  show ?case
  proof (cases q)
    case Pending
    with A have rest: "0 < length (remaining t)" by auto
    with A Pending Suc.prems(3) have "wr_waits es1 < wr_waits es" by linarith
    then have "wr_waits es1 < n" "length (remaining t) \<le> accepts es1"
      using A Suc.prems(3,4) by linarith+
    from Suc.IH [OF _ _ this(2,1), of out1] A P obtain s' es' where
      "drive n write_to t (es1, out1) = (Ready (Ok ()), s', es', out1 @ remaining t)"
      "inv s'" "sound_sched es'" "accepts es1 \<le> accepts es' + length (remaining t)"
      by blast
    then show ?thesis using q Pending P A by auto
  next
    case (Ready r)
    with A have "r = Ok ()" by (cases r) auto
    with Ready q P A show ?thesis by auto
  qed
qed simp

text \<open>
  Writing to a peer that grants some bytes and does not make the writer wait: all grants are used or
  the message is complete, and no more than granted goes out.
\<close>

lemma stream_write:
  assumes "inv s" and "remaining s \<noteq> []" and "sound_sched es" and "wr_waits es = 0"
    and "write_to s (es, out) = (p, s', es', out')"
  shows "inv s' \<and> sound_sched es' \<and> wr_waits es' = 0 \<and> out' @ remaining s' = out @ remaining s
    \<and> length out \<le> length out' \<and> length out' + granted es' \<le> length out + granted es
    \<and> (0 < accepts es \<longrightarrow> length out < length out')
    \<and> (p = Pending \<and> remaining s' \<noteq> [] \<or> p = Ready (Ok ()) \<and> remaining s' = [] \<and> length out < length out')"
proof -
  note P = progress [OF assms(1,5)] and A = alive [OF assms(1,5,3)] and F = frugal [OF assms(1,5)]
  from arg_cong [of _ _ length] P have len: "length out' + length (remaining s') = length out + length (remaining s)"
    by (metis length_append)
  have ne: "0 < length (remaining s)" using assms(2) by simp
  show ?thesis
  proof (cases p)
    case Pending
    then have "accepts es' = 0" using A assms(4) by simp
    then have "accepts es + length (remaining s') \<le> length (remaining s)" using A by simp
    with P A F len assms(4) Pending show ?thesis by auto
  next
    case (Ready r)
    with A have "r = Ok ()" by (cases r) auto
    with P A F len ne Ready assms(4) show ?thesis by auto
  qed
qed

text \<open>A future that was cancelled after a poll goes on where it stopped.\<close>

lemma resume:
  assumes "inv s" and "write_to s (es, out) = (p, s1, es1, out1)" and "sound_sched ws"
    and "length out + length (remaining s) \<le> accepts ws + length out1" and "wr_waits ws < n"
  shows "\<exists>s' es'. drive n write_to s1 (ws, out1) = (Ready (Ok ()), s', es', out @ remaining s)"
proof -
  from progress [OF assms(1,2)] have I: "inv s1" and eq: "out1 @ remaining s1 = out @ remaining s" by simp_all
  from arg_cong [OF eq, of length] assms(4) have "length (remaining s1) \<le> accepts ws" by simp
  from drive_completes [OF I assms(3) this assms(5), of out1] eq show ?thesis by auto
qed

end

section \<open>The write loops\<close>

lemma write_poll_Wrote:
  "write_poll data es out = (Wrote n, es', out') \<Longrightarrow>
     \<exists>k. es = Accept k # es' \<and> n = min k (length data) \<and> out' = out @ take k data"
  by (cases "(data, es, out)" rule: write_poll.cases) auto

text \<open>\<open>while off < data.len() { let n = write.write(&data[off..]).await?; off += n; }\<close>\<close>

function write_loop :: "u8 list \<Rightarrow> nat \<Rightarrow> sink \<Rightarrow> unit result poll \<times> nat \<times> sink" where
  "write_loop data off (es, out) =
     (if off < length data then
        (case write_poll (drop off data) es out of
           (WrPending, w') \<Rightarrow> (Pending, off, w')
         | (WrErr, w') \<Rightarrow> (Ready (Err IoError), off, w')
         | (Wrote n, w') \<Rightarrow> write_loop data (off + n) w')
      else (Ready (Ok ()), off, es, out))"
  by pat_completeness auto

termination
  by (relation "measure (\<lambda>(data, off, es, out). length es)") (auto dest!: write_poll_Wrote [OF sym])

declare write_loop.simps [simp del]

text \<open>The header loop of \<open>ResumableWriteFileBlock::write_to\<close>, which shifts the array it writes.\<close>

function header_loop :: "u8 list \<Rightarrow> nat \<Rightarrow> sink \<Rightarrow> unit result poll \<times> u8 list \<times> nat \<times> sink" where
  "header_loop bytes len (es, out) =
     (if 0 < len then
        (case write_poll (take len bytes) es out of
           (WrPending, w') \<Rightarrow> (Pending, bytes, len, w')
         | (WrErr, w') \<Rightarrow> (Ready (Err IoError), bytes, len, w')
         | (Wrote n, w') \<Rightarrow> header_loop (copy_within bytes n) (len - n) w')
      else (Ready (Ok ()), bytes, len, es, out))"
  by pat_completeness auto
termination
  by (relation "measure (\<lambda>(bytes, len, es, out). length es)") (auto dest!: write_poll_Wrote [OF sym])

declare header_loop.simps [simp del]

text \<open>What both loops do: push the remaining bytes until the sink is not ready.\<close>

fun push :: "u8 list \<Rightarrow> sink \<Rightarrow> unit result poll \<times> u8 list \<times> sink" where
  "push data (es, out) =
     (if data = [] then (Ready (Ok ()), [], es, out) else
      (case es of
         [] \<Rightarrow> (Pending, data, [], out)
       | WrWait # es' \<Rightarrow> (Pending, data, es', out)
       | WrFail # es' \<Rightarrow> (Ready (Err IoError), data, es', out)
       | Accept n # es' \<Rightarrow> push (drop n data) (es', out @ take n data)))"

declare push.simps [simp del]

lemma push_simps [simp]:
  "push [] (es, out) = (Ready (Ok ()), [], es, out)"
  "data \<noteq> [] \<Longrightarrow> push data ([], out) = (Pending, data, [], out)"
  "data \<noteq> [] \<Longrightarrow> push data (WrWait # es, out) = (Pending, data, es, out)"
  "data \<noteq> [] \<Longrightarrow> push data (WrFail # es, out) = (Ready (Err IoError), data, es, out)"
  "data \<noteq> [] \<Longrightarrow> push data (Accept n # es, out) = push (drop n data) (es, out @ take n data)"
  by (simp_all add: push.simps [of data] push.simps [of "[]"])

lemma push_progress:
  assumes "push data (es, out) = (p, rest, es', out')"
  shows "out' @ rest = out @ data \<and> (p = Ready (Ok ()) \<longleftrightarrow> rest = [])"
  using assms
proof (induction es arbitrary: data out)
  case Nil
  then show ?case by (cases "data = []") auto
next
  case (Cons e es)
  then show ?case by (cases "data = []"; cases e) force+
qed

lemma push_alive:
  assumes "push data (es, out) = (p, rest, es', out')" and "sound_sched es"
  shows "sound_sched es' \<and> (\<forall>e. p \<noteq> Ready (Err e)) \<and> accepts es + length rest \<le> accepts es' + length data
    \<and> wr_waits es' \<le> wr_waits es
    \<and> (p = Pending \<longrightarrow> wr_waits es' < wr_waits es \<or> accepts es' = 0)"
  using assms
proof (induction es arbitrary: data out)
  case Nil
  then show ?case by (cases "data = []") auto
next
  case (Cons e es)
  show ?case
  proof (cases "data = []")
    case False
    then have len: "0 < length data" by simp
    show ?thesis
    proof (cases e)
      case (Accept n)
      with Cons.prems False have "push (drop n data) (es, out @ take n data) = (p, rest, es', out')"
        and n: "0 < n" "sound_sched es" by auto
      note IH = Cons.IH [OF this(1,3)]
      then have "Suc (accepts es) + length rest \<le> accepts es' + length data"
        using len n(1) by (simp only: length_drop) linarith
      with IH Accept show ?thesis by auto
    qed (use Cons False in auto)
  qed (use Cons.prems in auto)
qed

lemma push_frugal:
  "push data (es, out) = (p, rest, es', out') \<Longrightarrow> length out' + granted es' \<le> length out + granted es"
proof (induction es arbitrary: data out)
  case Nil
  then show ?case by (cases "data = []") auto
next
  case (Cons e es)
  show ?case
  proof (cases "data = [] \<or> (\<forall>n. e \<noteq> Accept n)")
    case True
    with Cons.prems show ?thesis by (cases "data = []"; cases e) auto
  next
    case False
    then obtain n where "e = Accept n" by blast
    with False Cons.prems Cons.IH [of "drop n data" "out @ take n data"] show ?thesis by simp
  qed
qed

text \<open>The two loops refine \<open>push\<close>.\<close>

lemma write_loop_push:
  assumes "off \<le> length data"
  shows "\<exists>p off' w'. write_loop data off (es, out) = (p, off', w') \<and> off' \<le> length data
    \<and> push (drop off data) (es, out) = (p, drop off' data, w')"
  using assms
proof (induction es arbitrary: off out)
  case Nil
  then show ?case by (simp add: write_loop.simps)
next
  case (Cons e es)
  show ?case
  proof (cases "off < length data")
    case True
    show ?thesis
    proof (cases e)
      case (Accept n)
      let ?n = "min n (length data - off)"
      have "drop n (drop off data) = drop (off + ?n) data"
        by (simp add: min_def add.commute)
      moreover have "off + ?n \<le> length data" using True by linarith
      ultimately show ?thesis
        using Cons.IH [of "off + ?n" "out @ take n (drop off data)"] True Accept
        by (simp add: write_loop.simps [of data off "Accept n # es" out])
    qed (use True in \<open>simp_all add: write_loop.simps [of data off "_ # es" out]\<close>)
  next
    case False
    with Cons.prems show ?thesis by (simp add: write_loop.simps)
  qed
qed

lemma header_loop_push:
  assumes "len \<le> length bytes"
  shows "\<exists>p bytes' len' w'. header_loop bytes len (es, out) = (p, bytes', len', w')
    \<and> length bytes' = length bytes \<and> len' \<le> len
    \<and> push (take len bytes) (es, out) = (p, take len' bytes', w')"
  using assms
proof (induction es arbitrary: len bytes out)
  case Nil
  then have "0 < len \<Longrightarrow> take len bytes \<noteq> []" by auto
  then show ?case by (cases "0 < len") (simp_all add: header_loop.simps)
next
  case (Cons e es)
  show ?case
  proof (cases "0 < len")
    case True
    with Cons.prems have ne: "take len bytes \<noteq> []" by auto
    show ?thesis
    proof (cases e)
      case (Accept n)
      let ?n = "min n (min (length bytes) len)"
      have n: "?n \<le> len" "?n \<le> length bytes" by simp_all
      have "take (len - ?n) (copy_within bytes ?n) = drop ?n (take len bytes)"
        using take_copy_within [of ?n len bytes] Cons.prems by simp
      also have "\<dots> = drop n (take len bytes)" by (simp add: min_def)
      finally have "take (len - ?n) (copy_within bytes ?n) = drop n (take len bytes)" .
      with Cons.IH [of "len - ?n" "copy_within bytes ?n" "out @ take n (take len bytes)"]
        True ne Accept Cons.prems n show ?thesis
        by (simp add: header_loop.simps [of bytes len "Accept n # es" out])
          (use diff_le_self le_trans in blast)
    qed (use True ne in \<open>simp_all add: header_loop.simps [of bytes len "_ # es" out]\<close>)
  next
    case False
    with Cons.prems show ?thesis by (simp add: header_loop.simps)
  qed
qed

section \<open>ResumableWriteString\<close>

record ResumableWriteString =
  rws_offset :: nat
  rws_buf :: "u8 list"

definition rws_new :: "rstring \<Rightarrow> ResumableWriteString" where
  "rws_new src =
     (let len = word_of_nat (length src);
          vec = store_be 8 (resize [] 8) len
      in \<lparr>rws_offset = 0, rws_buf = vec @ src\<rparr>)"

definition rws_write_to :: "ResumableWriteString \<Rightarrow> sink \<Rightarrow> unit result poll \<times> ResumableWriteString \<times> sink" where
  "rws_write_to s w =
     (case write_loop (rws_buf s) (rws_offset s) w of
        (p, off, w') \<Rightarrow> (p, s\<lparr>rws_offset := off\<rparr>, w'))"

definition rws_inv :: "ResumableWriteString \<Rightarrow> bool" where
  "rws_inv s \<longleftrightarrow> rws_offset s \<le> length (rws_buf s)"

definition rws_remaining :: "ResumableWriteString \<Rightarrow> u8 list" where
  "rws_remaining s = drop (rws_offset s) (rws_buf s)"

lemma rws_new_message: "rws_inv (rws_new src)" "rws_remaining (rws_new src) = string_message src"
  by (simp_all add: rws_new_def rws_inv_def rws_remaining_def string_message_def Let_def
      store_be_be_bytes)

lemma rws_write_to_push:
  assumes "rws_inv s" and "rws_write_to s (es, out) = (p, s', w')"
  shows "rws_inv s' \<and> push (rws_remaining s) (es, out) = (p, rws_remaining s', w')"
  using write_loop_push [of "rws_offset s" "rws_buf s" es out] assms
  by (auto simp: rws_write_to_def rws_inv_def rws_remaining_def)

interpretation rws: resumable_writer rws_write_to rws_inv rws_remaining
proof unfold_locales
  fix s es out p s' es' out'
  assume "rws_inv s" "rws_write_to s (es, out) = (p, s', es', out')"
  from rws_write_to_push [OF this] have I: "rws_inv s'"
    and P: "push (rws_remaining s) (es, out) = (p, rws_remaining s', es', out')" by simp_all
  from I push_progress [OF P]
  show "rws_inv s' \<and> out' @ rws_remaining s' = out @ rws_remaining s
      \<and> (p = Ready (Ok ()) \<longrightarrow> rws_remaining s' = [])" by simp
  show "sound_sched es' \<and> wr_waits es' \<le> wr_waits es \<and> (\<forall>e. p \<noteq> Ready (Err e))
      \<and> accepts es + length (rws_remaining s') \<le> accepts es' + length (rws_remaining s)
      \<and> (p = Pending \<longrightarrow> rws_remaining s' \<noteq> [] \<and> (wr_waits es' < wr_waits es \<or> accepts es' = 0))"
    if "sound_sched es"
    using push_alive [OF P that] push_progress [OF P] by auto
  show "length out' + granted es' \<le> length out + granted es" by (rule push_frugal [OF P])
qed

section \<open>ResumableAsyncWriteAll\<close>

text \<open>
  The struct borrows the sink and keeps an offset; the data is an argument of every call
  of \<open>write_all\<close>, the same one between two polls.
\<close>

record ResumableAsyncWriteAll =
  rwa_offset :: nat

definition rwa_new :: ResumableAsyncWriteAll where
  "rwa_new = \<lparr>rwa_offset = 0\<rparr>"

definition rwa_write_all :: "u8 list \<Rightarrow> ResumableAsyncWriteAll \<Rightarrow> sink \<Rightarrow>
    unit result poll \<times> ResumableAsyncWriteAll \<times> sink" where
  "rwa_write_all data s w =
     (case write_loop data (rwa_offset s) w of (p, off, w') \<Rightarrow> (p, s\<lparr>rwa_offset := off\<rparr>, w'))"

definition rwa_inv :: "u8 list \<Rightarrow> ResumableAsyncWriteAll \<Rightarrow> bool" where
  "rwa_inv data s \<longleftrightarrow> rwa_offset s \<le> length data"

definition rwa_remaining :: "u8 list \<Rightarrow> ResumableAsyncWriteAll \<Rightarrow> u8 list" where
  "rwa_remaining data s = drop (rwa_offset s) data"

lemma rwa_new_message: "rwa_inv data rwa_new" "rwa_remaining data rwa_new = data"
  by (simp_all add: rwa_new_def rwa_inv_def rwa_remaining_def)

lemma rwa_write_all_push:
  assumes "rwa_inv data s" and "rwa_write_all data s (es, out) = (p, s', w')"
  shows "rwa_inv data s' \<and> push (rwa_remaining data s) (es, out) = (p, rwa_remaining data s', w')"
  using write_loop_push [of "rwa_offset s" data es out] assms
  by (auto simp: rwa_write_all_def rwa_inv_def rwa_remaining_def)

interpretation rwa: resumable_writer "rwa_write_all data" "rwa_inv data" "rwa_remaining data"
  for data
proof unfold_locales
  fix s es out p s' es' out'
  assume "rwa_inv data s" "rwa_write_all data s (es, out) = (p, s', es', out')"
  from rwa_write_all_push [OF this] have I: "rwa_inv data s'"
    and P: "push (rwa_remaining data s) (es, out) = (p, rwa_remaining data s', es', out')" by simp_all
  from I push_progress [OF P]
  show "rwa_inv data s' \<and> out' @ rwa_remaining data s' = out @ rwa_remaining data s
      \<and> (p = Ready (Ok ()) \<longrightarrow> rwa_remaining data s' = [])" by simp
  show "sound_sched es' \<and> wr_waits es' \<le> wr_waits es \<and> (\<forall>e. p \<noteq> Ready (Err e))
      \<and> accepts es + length (rwa_remaining data s') \<le> accepts es' + length (rwa_remaining data s)
      \<and> (p = Pending \<longrightarrow> rwa_remaining data s' \<noteq> []
          \<and> (wr_waits es' < wr_waits es \<or> accepts es' = 0))"
    if "sound_sched es"
    using push_alive [OF P that] push_progress [OF P] by auto
  show "length out' + granted es' \<le> length out + granted es" by (rule push_frugal [OF P])
qed

section \<open>ResumableWriteFileBlock\<close>

record ResumableWriteFileBlock =
  rwfb_offset :: usize
  rwfb_offsetlen :: nat
  rwfb_offset_bytes :: "u8 list"
  rwfb_bufoffset :: nat
  rwfb_buf :: "u8 list"
  rwfb_step :: u8

definition rwfb_new :: "usize \<Rightarrow> u8 list \<Rightarrow> ResumableWriteFileBlock" where
  "rwfb_new offset block_data =
     \<lparr>rwfb_offset = offset, rwfb_offsetlen = 0, rwfb_offset_bytes = replicate 8 0,
      rwfb_bufoffset = 0, rwfb_buf = block_data, rwfb_step = 0\<rparr>"

text \<open>The three steps of \<open>write_to\<close>: encode the offset, write it, write the payload.\<close>

definition rwfb_init :: "ResumableWriteFileBlock \<Rightarrow> ResumableWriteFileBlock" where
  "rwfb_init s =
     (if rwfb_step s = 0 then
        s\<lparr>rwfb_offset_bytes := store_be 8 (rwfb_offset_bytes s) (rwfb_offset s),
          rwfb_offsetlen := 8, rwfb_step := 1\<rparr>
      else s)"

definition rwfb_header :: "ResumableWriteFileBlock \<Rightarrow> sink \<Rightarrow>
    unit result poll \<times> ResumableWriteFileBlock \<times> sink" where
  "rwfb_header s w =
     (if rwfb_step s = 1 then
        (case header_loop (rwfb_offset_bytes s) (rwfb_offsetlen s) w of
           (p, bytes, len, w') \<Rightarrow>
             (let s' = s\<lparr>rwfb_offset_bytes := bytes, rwfb_offsetlen := len\<rparr> in
              (p, if p = Ready (Ok ()) then s'\<lparr>rwfb_step := 2\<rparr> else s', w')))
      else (Ready (Ok ()), s, w))"

definition rwfb_write_to :: "ResumableWriteFileBlock \<Rightarrow> sink \<Rightarrow>
    unit result poll \<times> ResumableWriteFileBlock \<times> sink" where
  "rwfb_write_to s w =
     (case rwfb_header (rwfb_init s) w of
        (Ready (Inr _), s', w') \<Rightarrow>
          (case write_loop (rwfb_buf s') (rwfb_bufoffset s') w' of
             (p, off, w'') \<Rightarrow> (p, s'\<lparr>rwfb_bufoffset := off\<rparr>, w''))
      | (p, s', w') \<Rightarrow> (p, s', w'))"

definition rwfb_inv :: "ResumableWriteFileBlock \<Rightarrow> bool" where
  "rwfb_inv s \<longleftrightarrow> length (rwfb_offset_bytes s) = 8 \<and> rwfb_bufoffset s \<le> length (rwfb_buf s)
     \<and> (rwfb_step s = 0 \<or> rwfb_step s = 1 \<and> rwfb_offsetlen s \<le> 8 \<or> rwfb_step s = 2)"

definition rwfb_remaining :: "ResumableWriteFileBlock \<Rightarrow> u8 list" where
  "rwfb_remaining s =
     (if rwfb_step s = 0 then be_bytes (rwfb_offset s)
      else if rwfb_step s = 1 then take (rwfb_offsetlen s) (rwfb_offset_bytes s) else [])
     @ drop (rwfb_bufoffset s) (rwfb_buf s)"

lemma rwfb_new_message:
  "rwfb_inv (rwfb_new offset block_data)"
  "rwfb_remaining (rwfb_new offset block_data) = block_message (offset, block_data)"
  by (simp_all add: rwfb_new_def rwfb_inv_def rwfb_remaining_def block_message_def)

lemma rwfb_init_remaining:
  assumes "rwfb_inv s"
  shows "rwfb_inv (rwfb_init s)" "rwfb_remaining (rwfb_init s) = rwfb_remaining s"
    "rwfb_step (rwfb_init s) \<noteq> 0"
  using assms by (auto simp: rwfb_inv_def rwfb_init_def rwfb_remaining_def store_be_be_bytes)

text \<open>One poll writes the rest of the header and, when that is done, goes on with the payload.\<close>

lemma rwfb_header_push:
  assumes "rwfb_inv s" "rwfb_step s \<noteq> 0" "rwfb_header s (es, out) = (p, s', w')"
  obtains h h' where "push h (es, out) = (p, h', w')" "rwfb_inv s'"
    "rwfb_remaining s = h @ drop (rwfb_bufoffset s) (rwfb_buf s)"
    "rwfb_remaining s' = h' @ drop (rwfb_bufoffset s) (rwfb_buf s)"
    "rwfb_bufoffset s' = rwfb_bufoffset s" "rwfb_buf s' = rwfb_buf s"
    "p = Ready (Ok ()) \<Longrightarrow> rwfb_step s' = 2"
proof (cases "rwfb_step s = 1")
  case True
  with assms have len: "rwfb_offsetlen s \<le> length (rwfb_offset_bytes s)" by (auto simp: rwfb_inv_def)
  from header_loop_push [OF len, of es out] obtain q bytes l w1 where q:
    "header_loop (rwfb_offset_bytes s) (rwfb_offsetlen s) (es, out) = (q, bytes, l, w1)"
    "length bytes = length (rwfb_offset_bytes s)" "l \<le> rwfb_offsetlen s"
    "push (take (rwfb_offsetlen s) (rwfb_offset_bytes s)) (es, out) = (q, take l bytes, w1)"
    by blast
  obtain es1 out1 where w1: "w1 = (es1, out1)" by fastforce
  have fin: "q = Ready (Ok ()) \<longleftrightarrow> take l bytes = []" using push_progress q(4) w1 by blast
  have s': "p = q" "w' = w1"
    "s' = (let t = s\<lparr>rwfb_offset_bytes := bytes, rwfb_offsetlen := l\<rparr> in
       if q = Ready (Ok ()) then t\<lparr>rwfb_step := 2\<rparr> else t)"
    using assms(3) True q(1) by (auto simp: rwfb_header_def Let_def)
  show thesis
    by (rule that [of "take (rwfb_offsetlen s) (rwfb_offset_bytes s)" "take l bytes"];
        cases "q = Ready (Ok ())")
      (use assms(1) True q(2-) fin s' in \<open>simp_all add: rwfb_remaining_def rwfb_inv_def Let_def\<close>)
next
  case False
  with assms show thesis
    by (intro that [of "[]" "[]"]) (auto simp: rwfb_header_def rwfb_remaining_def rwfb_inv_def)
qed

text \<open>Writing one message after the other, each until the sink is not ready.\<close>

lemma rwfb_write_to_push:
  assumes inv: "rwfb_inv s" and eq: "rwfb_write_to s (es, out) = (p, s', es', out')"
  obtains (header) h h' tl where "push h (es, out) = (p, h', es', out')" "p \<noteq> Ready (Ok ())"
      "rwfb_remaining s = h @ tl" "rwfb_remaining s' = h' @ tl" "rwfb_inv s'"
    | (payload) h es1 out1 tl where "push h (es, out) = (Ready (Ok ()), [], es1, out1)"
      "rwfb_remaining s = h @ tl" "push tl (es1, out1) = (p, rwfb_remaining s', es', out')" "rwfb_inv s'"
proof -
  note I = rwfb_init_remaining [OF inv]
  obtain q t w1 where q: "rwfb_header (rwfb_init s) (es, out) = (q, t, w1)" by (metis prod_cases3)
  obtain es1 out1 where w1: "w1 = (es1, out1)" by fastforce
  let ?tl = "drop (rwfb_bufoffset (rwfb_init s)) (rwfb_buf (rwfb_init s))"
  from I(1,3) q obtain h h' where h: "push h (es, out) = (q, h', w1)" "rwfb_inv t"
    "rwfb_remaining s = h @ ?tl" "rwfb_remaining t = h' @ ?tl"
    "rwfb_bufoffset t = rwfb_bufoffset (rwfb_init s)" "rwfb_buf t = rwfb_buf (rwfb_init s)"
    "q = Ready (Ok ()) \<Longrightarrow> rwfb_step t = 2"
    by (rule rwfb_header_push) (simp add: I(2))
  show thesis
  proof (cases "q = Ready (Ok ())")
    case True
    with h(1) push_progress w1 have "h' = []" by blast
    from h(2) have le: "rwfb_bufoffset t \<le> length (rwfb_buf t)" by (simp add: rwfb_inv_def)
    from write_loop_push [OF this, of es1 out1] obtain r off w2 where r:
      "write_loop (rwfb_buf t) (rwfb_bufoffset t) (es1, out1) = (r, off, w2)" "off \<le> length (rwfb_buf t)"
      "push (drop (rwfb_bufoffset t) (rwfb_buf t)) (es1, out1) = (r, drop off (rwfb_buf t), w2)"
      by blast
    from r(1) q True w1 eq have "p = r" "s' = t\<lparr>rwfb_bufoffset := off\<rparr>" "w2 = (es', out')"
      by (simp_all add: rwfb_write_to_def)
    with r(2,3) h True \<open>h' = []\<close> w1 show thesis
      by (intro payload [of h es1 out1 ?tl]) (simp_all add: rwfb_remaining_def rwfb_inv_def)
  next
    case False
    with q eq w1 have "p = q" "s' = t" "es' = es1" "out' = out1"
      by (auto simp: rwfb_write_to_def split: poll.splits sum.splits)
    with h False w1 show thesis by (intro header [of h h' ?tl]) simp_all
  qed
qed

interpretation rwfb: resumable_writer rwfb_write_to rwfb_inv rwfb_remaining
proof unfold_locales
  fix s es out p s' es' out'
  assume A: "rwfb_inv s" "rwfb_write_to s (es, out) = (p, s', es', out')"
  from A show "rwfb_inv s' \<and> out' @ rwfb_remaining s' = out @ rwfb_remaining s
      \<and> (p = Ready (Ok ()) \<longrightarrow> rwfb_remaining s' = [])"
  proof (cases rule: rwfb_write_to_push)
    case (header h h' tl)
    with push_progress [OF header(1)] show ?thesis
      by (metis append_assoc)
  next
    case (payload h es1 out1 tl)
    with push_progress [OF payload(1)] push_progress [OF payload(3)] show ?thesis by simp
  qed
  from A show "length out' + granted es' \<le> length out + granted es"
  proof (cases rule: rwfb_write_to_push)
    case (header h h' tl)
    from push_frugal [OF header(1)] show ?thesis .
  next
    case (payload h es1 out1 tl)
    from push_frugal [OF payload(1)] push_frugal [OF payload(3)] show ?thesis by linarith
  qed
  assume S: "sound_sched es"
  from A show "sound_sched es' \<and> wr_waits es' \<le> wr_waits es \<and> (\<forall>e. p \<noteq> Ready (Err e))
      \<and> accepts es + length (rwfb_remaining s') \<le> accepts es' + length (rwfb_remaining s)
      \<and> (p = Pending \<longrightarrow> rwfb_remaining s' \<noteq> [] \<and> (wr_waits es' < wr_waits es \<or> accepts es' = 0))"
  proof (cases rule: rwfb_write_to_push)
    case (header h h' tl)
    with push_progress [OF header(1)] push_alive [OF header(1) S] show ?thesis by auto
  next
    case (payload h es1 out1 tl)
    from push_alive [OF payload(1) S] have S1: "sound_sched es1" "accepts es \<le> accepts es1 + length h"
      "wr_waits es1 \<le> wr_waits es"
      by simp_all
    from push_alive [OF payload(3) S1(1)] push_progress [OF payload(3)] S1 payload(2) show ?thesis
      by auto
  qed
qed

section \<open>Properties\<close>

text \<open>
  C21: Cancel safety of the block transfer. Whatever the schedule of partial writes and
  cancellations on the sending side and whatever the fragmentation and cancellations on
  the receiving side, the blocks written by \<open>ResumableWriteFileBlock\<close> come out of one
  \<open>ResumableReadFileBlock\<close> complete, unaltered and in order.
\<close>

theorem block_stream_round_trip:
  assumes "list_all (block_fits block_size file_size) blocks"
    and "write_seq n rwfb_write_to (map (\<lambda>(off, data). rwfb_new off data) blocks) (ws, [])
      = (Ready (Ok ()), ws', wire)"
    and "bytes_of es = wire" and "waits es < m"
  shows "\<exists>sb es'. drive_seq m (length blocks) rrfb_read_on (\<lambda>sb off. (off, snd sb))
      (rrfb_new block_size file_size, buf) es = (blocks, sb, es') \<and> bytes_of es' = []"
proof -
  let ?writers = "map (\<lambda>(off, data). rwfb_new off data) blocks"
  have "rwfb_inv s" if "s \<in> set ?writers" for s using that by (auto simp: rwfb_new_message)
  from rwfb.write_seq_written [OF this assms(2)]
  have "wire = concat (map block_message blocks)"
    by (simp add: comp_def rwfb_new_message case_prod_beta)
  with assms(3) have "bytes_of es = concat (map block_message blocks) @ []" by simp
  from rrfb.drive_seq_complete [OF rrfb_inv_new rrfb_got_new _ this assms(4)] assms(1)
  show ?thesis by (fastforce simp: list_all_iff)
qed

theorem block_stream_round_trip_witness:
  "\<exists>sb es'. drive_seq 4 (length [(4 :: usize, [1 :: u8, 2, 3, 4]), (8, [5, 6])]) rrfb_read_on (\<lambda>sb off. (off, snd sb)) (rrfb_new 4 10, [9, 9])
      [Chunk [0, 0, 0], Wait, Chunk [0, 0, 0, 0, 4, 1], Wait, Chunk [2, 3, 4, 0, 0, 0, 0, 0, 0, 0, 8],
       Wait, Chunk [5, 6], Eof] = ([(4, [1, 2, 3, 4]), (8, [5, 6])], sb, es') \<and> bytes_of es' = []"
proof -
  have fits: "list_all (block_fits 4 10) [(4, [1, 2, 3, 4]), (8, [5, 6])]"
    by (simp add: block_fits_def current_block_size_def Let_def)
  have wire: "write_seq 2 rwfb_write_to
      (map (\<lambda>(off, data). rwfb_new off data) [(4, [1, 2, 3, 4]), (8, [5, 6])])
      ([Accept 3, WrWait, Accept 5, Accept 9, Accept 20, Accept 1, WrWait, Accept 1], [])
    = (Ready (Ok ()), [], [0, 0, 0, 0, 0, 0, 0, 4, 1, 2, 3, 4, 0, 0, 0, 0, 0, 0, 0, 8, 5, 6])"
    by code_simp
  show ?thesis by (rule block_stream_round_trip [OF fits wire]) simp_all
qed

text \<open>
  C22: Cancel safety of the hash stream. Strings written by \<open>ResumableWriteString\<close>, under any
  schedule of partial writes and cancellations, come out of one \<open>ResumableReadString\<close> in
  order, under any fragmentation and cancellations.
\<close>

theorem string_stream_round_trip:
  assumes "list_all (acceptable max_len) strs" and "unat max_len + 8 < 2 ^ 64"
    and "write_seq n rws_write_to (map rws_new strs) (ws, []) = (Ready (Ok ()), ws', wire)"
    and "bytes_of es = wire" and "waits es < m"
  shows "\<exists>s es'. drive_seq m (length strs) rrs_read_on (\<lambda>_ x. x) (rrs_new max_len) es = (strs, s, es')
    \<and> bytes_of es' = []"
proof -
  have "rws_inv s" if "s \<in> set (map rws_new strs)" for s using that by (auto simp: rws_new_message)
  from rws.write_seq_written [OF this assms(3)] have "wire = concat (map string_message strs)"
    by (simp add: comp_def rws_new_message)
  with assms(4) have "bytes_of es = concat (map string_message strs) @ []" by simp
  from rrs.drive_seq_complete [OF rrs_inv_new [OF assms(2)] rrs_got_new _ this assms(5)] assms(1)
  show ?thesis by (fastforce simp: list_all_iff)
qed

theorem string_stream_round_trip_witness:
  "\<exists>s es'. drive_seq 2 (length [[104 :: u8, 105], []]) rrs_read_on (\<lambda>_ x. x) (rrs_new 256)
      [Chunk [0, 0, 0, 0, 0, 0, 0, 2, 104], Wait, Chunk [105, 0, 0, 0, 0, 0, 0, 0, 0]]
    = ([[104, 105], []], s, es') \<and> bytes_of es' = []"
proof -
  have fits: "list_all (acceptable 256) [[104, 105], []]" by (simp add: acceptable_def)
  have wire: "write_seq 2 rws_write_to (map rws_new [[104, 105], []])
      ([Accept 5, WrWait, Accept 4, Accept 9, Accept 20], [])
    = (Ready (Ok ()), [], [0, 0, 0, 0, 0, 0, 0, 2, 104, 105, 0, 0, 0, 0, 0, 0, 0, 0])"
    by code_simp
  show ?thesis by (rule string_stream_round_trip [OF fits _ wire]) simp_all
qed

text \<open>
  A block whose sink keeps accepting bytes (at least one per write) is written
  completely, however the writes are split and however often the future is dropped: the
  loops of \<open>write_to\<close> end and the wire holds the offset and the data.
\<close>

theorem write_block_completes:
  assumes "sound_sched ws" and "8 + length data \<le> accepts ws" and "wr_waits ws < n"
  shows "\<exists>s ws'. drive n rwfb_write_to (rwfb_new off data) (ws, out)
    = (Ready (Ok ()), s, ws', out @ be_bytes off @ data)"
proof -
  have "length (rwfb_remaining (rwfb_new off data)) \<le> accepts ws"
    using assms(2) by (simp add: rwfb_new_message block_message_def)
  from rwfb.drive_completes [OF rwfb_new_message(1) assms(1) this assms(3), of out] show ?thesis
    by (auto simp: rwfb_new_message block_message_def)
qed

theorem write_block_completes_witness:
  "\<exists>s ws'. drive 3 rwfb_write_to (rwfb_new 40 [7])
      ([WrWait, Accept 2, Accept 1, Accept 1, Accept 1, WrWait, Accept 1, Accept 1, Accept 1, Accept 1,
        Accept 1, Accept 9], [3])
    = (Ready (Ok ()), s, ws', [3] @ be_bytes 40 @ [7])"
  by (rule write_block_completes) simp_all

lemma read_exact_cases:
  "read_exact_from n acc es = (Ready (Ok bs), es') \<Longrightarrow>
     n \<le> length (bytes_of es) \<and> bs = acc @ take n (bytes_of es) \<and> bytes_of es' = drop n (bytes_of es)"
  using read_exact_from_enough [of n es acc] read_exact_from_short [of es n acc]
  by (cases "n \<le> length (bytes_of es)"; cases "end_of es") auto

lemma read_string_sound:
  assumes be: "tokio_big_endian C" and eq: "read_string C max_len c = (Ready (Ok s), c')"
  shows "bytes_of (rx c) = string_message s @ bytes_of (rx c') \<and> acceptable max_len s"
proof -
  obtain r c1 where r: "io_read_exact 8 c = (r, c1)" by fastforce
  with eq obtain hdr where hdr: "r = Ready (Ok hdr)"
    by (auto simp: read_string_def read_u64_def io_bind_def split: poll.splits sum.splits)
  from r hdr have h: "8 \<le> length (bytes_of (rx c))" "hdr = take 8 (bytes_of (rx c))"
    "bytes_of (rx c1) = drop 8 (bytes_of (rx c))"
    using read_exact_cases [of 8 "[]" "rx c" hdr "rx c1"]
    by (auto simp: io_read_exact_def split: prod.splits)
  let ?size = "load_be 0 hdr"
  from eq r hdr be have le: "?size \<le> max_len"
    and rest: "io_bind (io_read_exact (unat ?size)) (\<lambda>s. io_lift (from_utf8 s)) c1 = (Ready (Ok s), c')"
    by (auto simp: read_string_def read_u64_def io_bind_def tokio_big_endian_simps split: if_splits)
  obtain r2 c2 where r2: "io_read_exact (unat ?size) c1 = (r2, c2)" by fastforce
  with rest have "r2 = Ready (Ok s)" "utf8_valid s" "c2 = c'"
    by (auto simp: io_bind_def from_utf8_eq_Ok_iff split: poll.splits sum.splits)
  with r2 have s: "unat ?size \<le> length (bytes_of (rx c1))" "s = take (unat ?size) (bytes_of (rx c1))"
    "bytes_of (rx c') = drop (unat ?size) (bytes_of (rx c1))"
    using read_exact_cases [of "unat ?size" "[]" "rx c1" s "rx c'"]
    by (auto simp: io_read_exact_def split: prod.splits)
  then have "word_of_nat (length s) = ?size" by simp
  then have "string_message s = hdr @ s" using h by (simp add: string_message_def)
  moreover have "bytes_of (rx c) = hdr @ s @ bytes_of (rx c')"
    using h s by (metis append_take_drop_id)
  ultimately show ?thesis
    using \<open>utf8_valid s\<close> le s by (simp add: acceptable_def word_le_nat_alt)
qed

text \<open>
  C23: \<open>ResumableReadString\<close> is equivalent to \<open>read_string\<close>: on the same stream the one,
  dropped and resumed at will, returns a string exactly when the other does, the same one,
  and leaves the same bytes.
\<close>

theorem resumable_read_equals_read_string:
  assumes "tokio_big_endian C" and "unat max_len + 8 < 2 ^ 64" and "waits (rx c) < n"
  shows "(\<exists>s es'. drive n rrs_read_on (rrs_new max_len) (rx c) = (Ready (Ok str), s, es')
        \<and> bytes_of es' = rest)
    \<longleftrightarrow> (\<exists>c'. read_string C max_len c = (Ready (Ok str), c') \<and> bytes_of (rx c') = rest)"
    (is "?res \<longleftrightarrow> ?simple")
proof
  assume ?res
  then obtain s es' where d: "drive n rrs_read_on (rrs_new max_len) (rx c) = (Ready (Ok str), s, es')"
    and rest: "bytes_of es' = rest" by blast
  from rrs.drive_sound [OF rrs_inv_new [OF assms(2)] d] rest
  have "acceptable max_len str" "bytes_of (rx c) = string_message str @ rest" by simp_all
  then show ?simple
    using read_string_ok [OF assms(1), of str max_len c rest] by (auto simp: acceptable_def)
next
  assume ?simple
  then obtain c' where c': "read_string C max_len c = (Ready (Ok str), c')" "bytes_of (rx c') = rest"
    by blast
  from read_string_sound [OF assms(1) c'(1)] c'(2)
  have "acceptable max_len str" "rrs_got (rrs_new max_len) @ bytes_of (rx c) = string_message str @ rest"
    by simp_all
  from rrs.drive_complete [OF rrs_inv_new [OF assms(2)] this assms(3)] show ?res by blast
qed

theorem resumable_read_equals_read_string_witness:
  "(\<exists>s es'. drive 2 rrs_read_on (rrs_new 256) [Chunk (be_bytes 1), Wait, Chunk [65, 66]]
        = (Ready (Ok [65]), s, es') \<and> bytes_of es' = [66])
    \<longleftrightarrow> (\<exists>c'. read_string sample_crates 256
          \<lparr>rx = [Chunk (be_bytes 1), Wait, Chunk [65, 66]], tx_sched = [], tx_out = []\<rparr>
        = (Ready (Ok [65]), c') \<and> bytes_of (rx c') = [66])"
  using resumable_read_equals_read_string [of sample_crates 256
      "\<lparr>rx = [Chunk (be_bytes 1), Wait, Chunk [65, 66]], tx_sched = [], tx_out = []\<rparr>" 2 "[65]" "[66]"]
  by simp

text \<open>
  A connection that ends inside a string is reported as ``Connection closed by peer'', never
  as a shorter string.
\<close>

lemma read_string_truncated:
  assumes "acceptable max_len str" and "unat max_len + 8 < 2 ^ 64"
    and "bytes_of es @ missing = string_message str" and "missing \<noteq> []" and "end_of es = AtEof"
  shows "\<exists>s es'. drive (Suc (waits es)) rrs_read_on (rrs_new max_len) es
    = (Ready (Err ConnectionClosed), s, es')"
  using rrs.drive_truncated [OF rrs_inv_new [OF assms(2)] assms(1) _ assms(4), of es "Suc (waits es)"]
    assms(3,5) by auto

text \<open>
  The size of a block: inside the file it is the smaller of the block size and what is
  left of the file, so the last block may be short.
\<close>

lemma current_block_size_in_file:
  assumes "offset \<le> file_size"
  shows "unat (current_block_size block_size file_size offset)
    = min (unat block_size) (unat file_size - unat offset)"
  using assms by (auto simp: current_block_size_def Let_def unat_sub word_less_nat_alt min_def)

text \<open>
  An offset past the end of the file is not rejected: the subtraction wraps, and what it gives is cut off at the size of a
  block.
\<close>

lemma current_block_size_past_end:
  assumes "file_size < offset"
  shows "unat (current_block_size block_size file_size offset) = min (unat block_size) (2 ^ 64 - (unat offset - unat file_size))"
proof -
  have "unat (file_size - offset) = 2 ^ 64 - (unat offset - unat file_size)"
    using assms unsigned_less [of offset, where ?'a = nat]
    by (simp add: unat_sub_if_size word_size word_less_nat_alt)
  then show ?thesis by (simp add: current_block_size_def Let_def word_less_nat_alt min_def)
qed

end
