(* ===== verification/Blocks.thy ===== *)
theory Blocks
  imports Prelude
begin

text \<open>
  Files as byte lists cut into blocks of a fixed size: the vocabulary in which the hashing
  of a file (\<open>hash_file.rs\<close>), the comparison on the client and the updates on the server
  are specified. \<open>file_write\<close> is what a write at the cursor does to a file, \<open>apply_blocks\<close>
  the effect of a list of received blocks.
\<close>

section \<open>Blocks of a file\<close>

definition block_at :: "nat \<Rightarrow> 'a list \<Rightarrow> nat \<Rightarrow> 'a list" where
  "block_at bs f i = take bs (drop (i * bs) f)"

definition div_ceil :: "nat \<Rightarrow> nat \<Rightarrow> nat" where
  "div_ceil n d = (if n mod d = 0 then n div d else n div d + 1)"

lemma div_ceil_iff: "0 < d \<Longrightarrow> i < div_ceil n d \<longleftrightarrow> i * d < n"
proof -
  assume d: "0 < d"
  have n: "n = n div d * d + n mod d" by simp
  show ?thesis
  proof (cases "n mod d = 0")
    case True
    then have "n = n div d * d" using n by simp
    then have "i * d < n \<longleftrightarrow> i < n div d" using d by (metis mult_less_cancel2)
    then show ?thesis using True by (simp add: div_ceil_def)
  next
    case False
    have "i * d < n \<longleftrightarrow> i \<le> n div d"
    proof
      assume "i * d < n"
      then show "i \<le> n div d" using d by (metis div_le_mono less_imp_le nonzero_mult_div_cancel_right not_gr0)
    next
      assume "i \<le> n div d"
      then have "i * d \<le> n div d * d" by (rule mult_le_mono1)
      with False n show "i * d < n" by linarith
    qed
    then show ?thesis using False by (simp add: div_ceil_def less_Suc_eq_le)
  qed
qed

lemma length_block_at: "length (block_at bs f i) = min bs (length f - i * bs)"
  by (simp add: block_at_def)

lemma block_at_nth: "j < length (block_at bs f i) \<Longrightarrow> block_at bs f i ! j = f ! (i * bs + j)"
proof -
  assume "j < length (block_at bs f i)"
  then have "j < bs" "i * bs \<le> length f" by (auto simp: length_block_at)
  then show ?thesis by (simp add: block_at_def)
qed

lemma block_index:
  assumes "0 < bs" and "k < length f"
  shows "k mod bs < length (block_at bs f (k div bs))"
    and "block_at bs f (k div bs) ! (k mod bs) = f ! k"
proof -
  have k: "k div bs * bs + k mod bs = k" by simp
  then show *: "k mod bs < length (block_at bs f (k div bs))"
    using assms mod_less_divisor [OF assms(1), of k] unfolding length_block_at by linarith
  show "block_at bs f (k div bs) ! (k mod bs) = f ! k"
    using block_at_nth [OF *] k by simp
qed

text \<open>Files of the same length are equal when all their blocks are.\<close>

lemma blocks_eq_imp_eq:
  assumes "0 < bs" and "length f = length g"
    and "\<And>i. i < div_ceil (length f) bs \<Longrightarrow> block_at bs f i = block_at bs g i"
  shows "f = g"
proof (rule nth_equalityI [OF assms(2)])
  fix k assume k: "k < length f"
  have "k div bs * bs \<le> k" by simp
  then have "k div bs * bs < length f" using k by linarith
  then have "block_at bs f (k div bs) = block_at bs g (k div bs)"
    using assms(1,3) by (simp add: div_ceil_iff)
  then show "f ! k = g ! k"
    using block_index [OF assms(1) k] block_index [OF assms(1), of k g] assms(2) k by simp
qed

section \<open>Writing into a file\<close>

text \<open>A write at a position past the end fills the gap with zero bytes; writing nothing changes nothing.\<close>

definition file_write :: "u8 list \<Rightarrow> nat \<Rightarrow> u8 list \<Rightarrow> u8 list" where
  "file_write f pos bs =
     (if bs = [] then f else write_at (if length f < pos then resize f pos else f) pos bs)"

lemma file_write_Nil [simp]: "file_write f pos [] = f"
  by (simp add: file_write_def)

lemma length_file_write:
  "length (file_write f pos bs) = (if bs = [] then length f else max (length f) (pos + length bs))"
  by (auto simp: file_write_def write_at_def)

text \<open>Writing in two steps, the cursor moving along, is writing at once.\<close>

lemma file_write_append:
  "file_write (file_write f pos bs) (pos + length bs) cs = file_write f pos (bs @ cs)"
proof (cases "bs = [] \<or> cs = []")
  case False
  have "\<not> length (file_write f pos bs) < pos + length bs" using False by (simp add: length_file_write)
  then show ?thesis using False
    by (auto simp: file_write_def write_at_def ac_simps)
qed auto

lemma nth_file_write:
  assumes "pos + length bs \<le> length f" and "k < length f"
  shows "file_write f pos bs ! k = (if pos \<le> k \<and> k < pos + length bs then bs ! (k - pos) else f ! k)"
  using assms by (auto simp: file_write_def write_at_def nth_append)

text \<open>Writing inside a block leaves the other blocks and the length alone.\<close>

lemma block_at_write_inside:
  assumes "j * B \<le> pos" and "pos + length d \<le> j * B + B" and fit: "pos + length d \<le> length f" and "i \<noteq> j"
  shows "block_at B (file_write f pos d) i = block_at B f i"
proof (rule nth_equalityI)
  have len: "length (file_write f pos d) = length f" using fit by (auto simp: length_file_write)
  then show "length (block_at B (file_write f pos d) i) = length (block_at B f i)" by (simp add: length_block_at)
  fix k assume k: "k < length (block_at B (file_write f pos d) i)"
  then have kb: "k < B" "i * B + k < length f" unfolding length_block_at len by linarith+
  have "\<not> (pos \<le> i * B + k \<and> i * B + k < pos + length d)"
  proof (cases "i < j")
    case True
    then have "(i + 1) * B \<le> j * B" by (intro mult_le_mono1) simp
    with kb(1) assms(1) show ?thesis by simp
  next
    case False
    with assms(4) have "(j + 1) * B \<le> i * B" by (intro mult_le_mono1) simp
    with assms(2) show ?thesis by simp
  qed
  with nth_file_write [OF fit kb(2)] have "file_write f pos d ! (i * B + k) = f ! (i * B + k)" by simp
  moreover have "k < length (block_at B f i)" using k len by (simp add: length_block_at)
  ultimately show "block_at B (file_write f pos d) i ! k = block_at B f i ! k"
    using k by (simp add: block_at_nth)
qed

lemma block_at_file_write:
  assumes "0 < bs" and "length d = length (block_at bs f j)"
  shows "length (file_write f (j * bs) d) = length f"
    and "block_at bs (file_write f (j * bs) d) i = (if i = j then d else block_at bs f i)"
proof -
  have le: "length d \<le> bs" using assms(2) by (simp add: length_block_at)
  have fit: "j * bs + length d \<le> length f \<or> d = []"
    using assms(2) unfolding length_block_at by (cases "j * bs \<le> length f") auto
  then show "length (file_write f (j * bs) d) = length f" by (auto simp: length_file_write)
  show "block_at bs (file_write f (j * bs) d) i = (if i = j then d else block_at bs f i)"
  proof (cases "d = []")
    case True
    then show ?thesis using assms(2) by simp
  next
    case False
    then have fit: "j * bs + length d \<le> length f" using fit by blast
    have "block_at bs (file_write f (j * bs) d) j = d"
      using fit False assms(2) by (auto simp: file_write_def write_at_def block_at_def length_block_at)
    moreover have "block_at bs (file_write f (j * bs) d) i = block_at bs f i" if "i \<noteq> j"
      by (rule block_at_write_inside [of j]) (use fit le that in auto)
    ultimately show ?thesis by simp
  qed
qed

section \<open>Updating a file block by block\<close>

definition apply_blocks :: "u8 list \<Rightarrow> (nat \<times> u8 list) list \<Rightarrow> u8 list" where
  "apply_blocks f blocks = foldl (\<lambda>g (pos, d). file_write g pos d) f blocks"

lemma apply_blocks_simps [simp]:
  "apply_blocks f [] = f"
  "apply_blocks f ((pos, d) # blocks) = apply_blocks (file_write f pos d) blocks"
  "apply_blocks f (blocks @ [(pos, d)]) = file_write (apply_blocks f blocks) pos d"
  by (simp_all add: apply_blocks_def)

text \<open>Overwriting some blocks of a file, each by data of its own length.\<close>

lemma apply_indexed_blocks:
  assumes "0 < bs" and "distinct is" and "\<And>i. i \<in> set is \<Longrightarrow> length (new i) = length (block_at bs f i)"
  shows "length (apply_blocks f (map (\<lambda>i. (i * bs, new i)) is)) = length f \<and>
    (\<forall>i. block_at bs (apply_blocks f (map (\<lambda>i. (i * bs, new i)) is)) i
      = (if i \<in> set is then new i else block_at bs f i))"
  using assms(2,3)
proof (induction "is" rule: rev_induct)
  case (snoc j js)
  let ?g = "apply_blocks f (map (\<lambda>i. (i * bs, new i)) js)"
  from snoc have IH: "length ?g = length f"
    "\<And>i. block_at bs ?g i = (if i \<in> set js then new i else block_at bs f i)" and j: "j \<notin> set js"
    by simp_all
  have len: "length (new j) = length (block_at bs ?g j)" using IH(2) j snoc.prems by simp
  from block_at_file_write [OF assms(1) len] IH j show ?case by simp
qed simp

end
