(* ===== verification/Ordered_Channel.thy ===== *)
theory Ordered_Channel
  imports Prelude "HOL-Library.Sublist"
begin

text \<open>
  The concurrent part of \<open>sync.rs\<close>: the loan of a buffer to another thread, and the ordered
  channel on which worker threads send indexed values out of order and the receiver gets them
  in order. The threads interleave freely, so the channel is a step relation on the shared
  state, the receiver and the senders; the steps are the critical sections of the source.

  The loop of \<open>OrderedSender::send\<close> is split at \<open>cond_var.wait\<close>: a sender is about to take the
  lock and look at the state, or it waits on the condition variable, from which any
  \<open>notify_all\<close>, and at any time a spurious wake-up, brings it back. A sender holds the lock
  while it is in \<open>blocking_send\<close>; were the queue full, it would block there with the lock held.
\<close>

section \<open>Loans\<close>

text \<open>
  A loan and its reclaimer are the two ends of a oneshot channel; \<open>cell\<close> is that channel.
  Dropping the loan takes the value, leaving the default, and sends it; dropping it twice
  would panic on the missing sender.
\<close>

record 'a loan =
  loan_value :: 'a
  loan_tx :: bool

type_synonym 'a cell = "'a option"

definition loan_new :: "'a \<Rightarrow> 'a loan \<times> 'a cell" where
  "loan_new v = (\<lparr>loan_value = v, loan_tx = True\<rparr>, None)"

definition loan_deref :: "'a loan \<Rightarrow> 'a" where
  "loan_deref l = loan_value l"

definition loan_deref_mut :: "('a \<Rightarrow> 'a) \<Rightarrow> 'a loan \<Rightarrow> 'a loan" where
  "loan_deref_mut f l = l\<lparr>loan_value := f (loan_value l)\<rparr>"

definition loan_drop :: "'a \<Rightarrow> 'a loan \<Rightarrow> 'a cell \<Rightarrow> ('a loan \<times> 'a cell) option" where
  "loan_drop dflt l cell =
     (if loan_tx l then Some (l\<lparr>loan_tx := False, loan_value := dflt\<rparr>, Some (loan_value l)) else None)"

text \<open>\<open>blocking_reclaim\<close> waits for the loan to be dropped.\<close>

definition blocking_reclaim :: "'a cell \<Rightarrow> 'a poll" where
  "blocking_reclaim cell = (case cell of None \<Rightarrow> Pending | Some v \<Rightarrow> Ready v)"

text \<open>
  The owner cannot get the value back while it is lent out, and gets exactly what the
  borrower left in it once the loan is dropped; the loan is dropped only once.
\<close>

lemma loan_reclaim:
  "(case loan_new v of (l, cell) \<Rightarrow>
     blocking_reclaim cell = Pending \<and> loan_deref l = v \<and>
     (case loan_drop dflt (loan_deref_mut f l) cell of
        None \<Rightarrow> False
      | Some (l', cell') \<Rightarrow> blocking_reclaim cell' = Ready (f v) \<and> loan_drop dflt l' cell' = None))"
  by (simp add: loan_new_def blocking_reclaim_def loan_deref_def loan_deref_mut_def loan_drop_def)

section \<open>The state of an ordered channel\<close>

text \<open>\<open>SharedState\<close>, with the condition variable in the states of the senders.\<close>

record shared_state =
  wanted_idx :: "nat option"
  recv_closed :: bool
  receiving :: bool

datatype spc =
    Running                  \<comment> \<open>outside of \<open>send\<close>\<close>
  | Checking                 \<comment> \<open>in \<open>send\<close>, about to look at the state under the lock\<close>
  | Sleeping                 \<comment> \<open>in \<open>cond_var.wait\<close>\<close>
  | Blocked_Full             \<comment> \<open>in \<open>blocking_send\<close> on a full queue, holding the lock\<close>
  | Reclaiming nat           \<comment> \<open>sent that index, in \<open>blocking_reclaim\<close>\<close>
  | Exited                   \<comment> \<open>the thread has ended and dropped its sender\<close>

record 'v sender =
  s_pc :: spc
  s_todo :: "(nat \<times> 'v) list"

datatype rpc =
    Idle                     \<comment> \<open>no \<open>recv\<close> in progress\<close>
  | Receiving                \<comment> \<open>in \<open>recv\<close>, waiting for \<open>inner\<close>\<close>
  | Closed                   \<comment> \<open>\<open>close\<close> called; the queue lives until the struct is dropped\<close>

record 'v channel =
  shared :: shared_state
  queue :: "(nat \<times> 'v) list"          \<comment> \<open>\<open>mpsc::channel(1)\<close>\<close>
  inner_closed :: bool
  senders :: "'v sender list"
  receiver :: rpc
  received :: "(nat \<times> 'v) list"       \<comment> \<open>what \<open>recv\<close> has returned so far\<close>
  lent :: "nat set"                    \<comment> \<open>indices whose loan has not been dropped\<close>

definition ordered_channel :: "(nat \<times> 'v) list list \<Rightarrow> 'v channel" where
  "ordered_channel work =
     \<lparr>shared = \<lparr>wanted_idx = None, recv_closed = False, receiving = False\<rparr>, queue = [],
      inner_closed = False, senders = map (\<lambda>todo. \<lparr>s_pc = Running, s_todo = todo\<rparr>) work,
      receiver = Idle, received = [], lent = {}\<rparr>"

definition notify_all :: "'v sender list \<Rightarrow> 'v sender list" where
  "notify_all ss = map (\<lambda>s. if s_pc s = Sleeping then s\<lparr>s_pc := Checking\<rparr> else s) ss"

text \<open>No sender is stuck in \<open>blocking_send\<close>: the lock can be taken.\<close>

definition unlocked :: "'v channel \<Rightarrow> bool" where
  "unlocked c \<longleftrightarrow> (\<forall>s \<in> set (senders c). s_pc s \<noteq> Blocked_Full)"

definition set_pc :: "nat \<Rightarrow> spc \<Rightarrow> 'v channel \<Rightarrow> 'v channel" where
  "set_pc j pc c = c\<lparr>senders := (senders c)[j := (senders c ! j)\<lparr>s_pc := pc\<rparr>]\<rparr>"

section \<open>The operations\<close>

text \<open>One pass through the loop of \<open>send\<close> by sender \<open>j\<close>, whose next value is \<open>(idx, v)\<close>.\<close>

definition send_check :: "nat \<Rightarrow> nat \<Rightarrow> 'v \<Rightarrow> (nat \<times> 'v) list \<Rightarrow> 'v channel \<Rightarrow> 'v channel" where
  "send_check j idx v todo c =
     (if recv_closed (shared c) then set_pc j Exited c
      else if wanted_idx (shared c) = Some idx then
        (if inner_closed c then set_pc j Exited c
         else if queue c = [] then
           c\<lparr>queue := [(idx, v)], lent := insert idx (lent c),
             senders := (senders c)[j := \<lparr>s_pc = Reclaiming idx, s_todo = todo\<rparr>]\<rparr>
         else set_pc j Blocked_Full c)
      else set_pc j Sleeping c)"

text \<open>\<open>OrderedSender::close\<close> by a worker that failed; the worker then ends.\<close>

definition sender_close :: "nat \<Rightarrow> 'v channel \<Rightarrow> 'v channel" where
  "sender_close j c =
     set_pc j Exited (c\<lparr>shared := (shared c)\<lparr>recv_closed := True\<rparr>, senders := notify_all (senders c)\<rparr>)"

text \<open>The first half of \<open>OrderedReceiver::recv\<close>: ask for the next index, unless a cancelled call already did.\<close>

definition recv_request :: "'v channel \<Rightarrow> 'v channel" where
  "recv_request c =
     (if receiving (shared c) then c\<lparr>receiver := Receiving\<rparr>
      else c\<lparr>shared := (shared c)
               \<lparr>wanted_idx := Some (case wanted_idx (shared c) of None \<Rightarrow> 0 | Some i \<Rightarrow> i + 1),
                receiving := True\<rparr>,
             senders := notify_all (senders c), receiver := Receiving\<rparr>)"

text \<open>Its second half, when \<open>inner\<close> has a value.\<close>

definition recv_value :: "(nat \<times> 'v) \<Rightarrow> (nat \<times> 'v) list \<Rightarrow> 'v channel \<Rightarrow> 'v channel" where
  "recv_value x q c =
     c\<lparr>queue := q, shared := (shared c)\<lparr>receiving := False\<rparr>, receiver := Idle,
       received := received c @ [x]\<rparr>"

text \<open>\<open>OrderedReceiver::close\<close>, also run when the receiver is dropped.\<close>

definition recv_close :: "'v channel \<Rightarrow> 'v channel" where
  "recv_close c =
     (if recv_closed (shared c) then c\<lparr>receiver := Closed\<rparr>
      else c\<lparr>inner_closed := True, shared := (shared c)\<lparr>recv_closed := True\<rparr>,
             senders := notify_all (senders c), receiver := Closed\<rparr>)"

section \<open>The step relation\<close>

inductive chan_step :: "'v channel \<Rightarrow> 'v channel \<Rightarrow> bool" where
  call_send: "j < length (senders c) \<Longrightarrow> s_pc (senders c ! j) = Running \<Longrightarrow> s_todo (senders c ! j) \<noteq> [] \<Longrightarrow>
    chan_step c (set_pc j Checking c)"
| pass: "j < length (senders c) \<Longrightarrow> s_pc (senders c ! j) = Checking \<Longrightarrow> s_todo (senders c ! j) = (idx, v) # todo \<Longrightarrow>
    unlocked c \<Longrightarrow> chan_step c (send_check j idx v todo c)"
| spurious: "j < length (senders c) \<Longrightarrow> s_pc (senders c ! j) = Sleeping \<Longrightarrow> chan_step c (set_pc j Checking c)"
| reclaim: "j < length (senders c) \<Longrightarrow> s_pc (senders c ! j) = Reclaiming idx \<Longrightarrow> idx \<notin> lent c \<Longrightarrow>
    chan_step c (set_pc j Running c)"
| finish: "j < length (senders c) \<Longrightarrow> s_pc (senders c ! j) = Running \<Longrightarrow> s_todo (senders c ! j) = [] \<Longrightarrow>
    chan_step c (set_pc j Exited c)"
| fail: "j < length (senders c) \<Longrightarrow> s_pc (senders c ! j) = Running \<Longrightarrow> unlocked c \<Longrightarrow>
    chan_step c (sender_close j c)"
| request: "receiver c = Idle \<Longrightarrow> unlocked c \<Longrightarrow> chan_step c (recv_request c)"
| deliver: "receiver c = Receiving \<Longrightarrow> queue c = x # q \<Longrightarrow> unlocked c \<Longrightarrow> chan_step c (recv_value x q c)"
| none_left: "receiver c = Receiving \<Longrightarrow> queue c = [] \<Longrightarrow> \<forall>s \<in> set (senders c). s_pc s = Exited \<Longrightarrow>
    chan_step c (c\<lparr>receiver := Idle\<rparr>)"
| cancel: "receiver c = Receiving \<Longrightarrow> chan_step c (c\<lparr>receiver := Idle\<rparr>)"
| drop_loan: "x \<in> set (received c) \<Longrightarrow> chan_step c (c\<lparr>lent := lent c - {fst x}\<rparr>)"
| close: "receiver c \<noteq> Closed \<Longrightarrow> unlocked c \<Longrightarrow> chan_step c (recv_close c)"

inductive chan_reachable :: "(nat \<times> 'v) list list \<Rightarrow> 'v channel \<Rightarrow> bool" for work where
  start: "chan_reachable work (ordered_channel work)"
| step: "chan_reachable work c \<Longrightarrow> chan_step c c' \<Longrightarrow> chan_reachable work c'"

section \<open>The invariant\<close>

text \<open>
  \<open>sender_ok sh sent w s\<close>: sender \<open>s\<close> with work \<open>w\<close> fits the shared state \<open>sh\<close> and the indices sent so
  far. In particular a sleeping sender is not the one that is wanted: no wake-up is lost.
\<close>

definition sender_ok :: "shared_state \<Rightarrow> nat set \<Rightarrow> (nat \<times> 'v) list \<Rightarrow> 'v sender \<Rightarrow> bool" where
  "sender_ok sh sent w s \<longleftrightarrow> suffix (s_todo s) w \<and> (\<forall>x \<in> set (s_todo s). fst x \<notin> sent)
     \<and> s_pc s \<noteq> Blocked_Full \<and> (s_pc s = Checking \<or> s_pc s = Sleeping \<longrightarrow> s_todo s \<noteq> [])
     \<and> (s_pc s = Sleeping \<longrightarrow> \<not> recv_closed sh \<and> wanted_idx sh \<noteq> Some (fst (hd (s_todo s))))
     \<and> (\<forall>i. s_pc s = Reclaiming i \<longrightarrow> i \<in> sent)
     \<and> (\<forall>x \<in> set w. x \<in> set (s_todo s) \<or> fst x \<in> sent)
     \<and> (s_pc s = Exited \<longrightarrow> recv_closed sh \<or> s_todo s = [])"

definition sent_idx :: "'v channel \<Rightarrow> nat set" where
  "sent_idx c = fst ` set (received c @ queue c)"

definition chan_inv :: "(nat \<times> 'v) list list \<Rightarrow> 'v channel \<Rightarrow> bool" where
  "chan_inv work c \<longleftrightarrow> list_all2 (sender_ok (shared c) (sent_idx c)) work (senders c)
     \<and> map fst (received c) = [0..<length (received c)]
     \<and> set (received c @ queue c) \<subseteq> set (concat work)
     \<and> wanted_idx (shared c) =
         (if receiving (shared c) then Some (length (received c))
          else if received c = [] then None else Some (length (received c) - 1))
     \<and> (queue c = [] \<or> receiving (shared c) \<and> (\<exists>v. queue c = [(length (received c), v)]))
     \<and> (inner_closed c \<longrightarrow> recv_closed (shared c))"

lemma chan_inv_start: "chan_inv work (ordered_channel work)"
  by (auto simp: chan_inv_def ordered_channel_def sent_idx_def sender_ok_def list_all2_conv_all_nth)

lemma sender_ok_nth:
  "chan_inv work c \<Longrightarrow> j < length (senders c) \<Longrightarrow>
     j < length work \<and> sender_ok (shared c) (sent_idx c) (work ! j) (senders c ! j)"
  by (auto simp: chan_inv_def dest: list_all2_lengthD list_all2_nthD2)

lemma received_idx:
  assumes "chan_inv work c"
  shows "fst ` set (received c) = {..<length (received c)}"
proof -
  from assms have "map fst (received c) = [0..<length (received c)]" by (simp add: chan_inv_def)
  then have "set (map fst (received c)) = set [0..<length (received c)]" by (rule arg_cong)
  then show ?thesis by (simp add: lessThan_atLeast0)
qed

text \<open>Changing one sender, and waking all of them.\<close>

lemma list_all2_set_nth:
  assumes "list_all2 P xs ys" and "j < length xs" and "P (xs ! j) y"
  shows "list_all2 P xs (ys[j := y])"
  using list_all2_update_cong [OF assms(1,3), of j] assms(2) by simp

lemma chan_inv_set_pc:
  assumes "chan_inv work c" and "j < length (senders c)"
    and "sender_ok (shared c) (sent_idx c) (work ! j) ((senders c ! j)\<lparr>s_pc := pc\<rparr>)"
  shows "chan_inv work (set_pc j pc c)"
proof -
  from sender_ok_nth [OF assms(1,2)] have "j < length work" by simp
  with assms show ?thesis
    by (simp add: chan_inv_def set_pc_def sent_idx_def list_all2_set_nth)
qed

lemma sender_ok_notify:
  assumes "list_all2 (sender_ok sh sent) work ss" and "recv_closed sh \<longrightarrow> recv_closed sh'"
  shows "list_all2 (sender_ok sh' sent) work (notify_all ss)"
  using assms by (auto simp: list_all2_conv_all_nth notify_all_def sender_ok_def)

section \<open>Every step keeps the invariant\<close>

lemma distinct_concat_nth_disjoint:
  assumes "distinct (map fst (concat xss))" and "k < length xss" and "j < length xss" and "k \<noteq> j"
  shows "fst ` set (xss ! k) \<inter> fst ` set (xss ! j) = {}"
proof -
  have d: "distinct (concat (map (map fst) xss))" using assms(1) by (simp add: map_concat)
  have "\<And>k j. k < j \<Longrightarrow> j < length yss \<Longrightarrow> set (yss ! k) \<inter> set (yss ! j) = {}"
    if "distinct (concat yss)" for yss :: "'a list list"
    using that
  proof (induction yss)
    case (Cons y yss)
    then show ?case by (cases k; cases j) (auto dest!: nth_mem)
  qed simp
  from this [OF d, of "min k j" "max k j"] assms(2-4) show ?thesis
    by (cases "k < j") (auto simp: min_def max_def)
qed

text \<open>The value a sender is about to send is in nobody's list of what is left to send.\<close>

lemma unsent_index:
  assumes inv: "chan_inv work c" and distinct: "distinct (map fst (concat work))"
    and j: "j < length (senders c)" "s_todo (senders c ! j) = (idx, v) # todo"
  shows "idx \<notin> fst ` set todo" and "(idx, v) \<in> set (concat work)"
    and "k < length (senders c) \<Longrightarrow> k \<noteq> j \<Longrightarrow> idx \<notin> fst ` set (s_todo (senders c ! k))"
proof -
  have jw: "j < length work" and suf: "suffix ((idx, v) # todo) (work ! j)"
    using sender_ok_nth [OF inv j(1)] j(2) by (auto simp: sender_ok_def)
  then obtain zs where zs: "work ! j = zs @ (idx, v) # todo" by (auto simp: suffix_def)
  have "distinct (map fst (work ! j))" using distinct jw by (simp add: map_concat distinct_concat_iff)
  with zs show "idx \<notin> fst ` set todo" by simp
  show "(idx, v) \<in> set (concat work)" using zs nth_mem [OF jw] by (auto intro!: bexI [of _ "work ! j"])
  assume k: "k < length (senders c)" "k \<noteq> j"
  have "suffix (s_todo (senders c ! k)) (work ! k)" "k < length work"
    using sender_ok_nth [OF inv k(1)] by (simp_all add: sender_ok_def)
  then have "fst ` set (s_todo (senders c ! k)) \<subseteq> fst ` set (work ! k)" by (auto simp: suffix_def)
  moreover have "fst ` set (work ! k) \<inter> fst ` set (work ! j) = {}"
    using distinct_concat_nth_disjoint [OF distinct \<open>k < length work\<close> jw k(2)] .
  moreover have "idx \<in> fst ` set (work ! j)" by (simp add: zs)
  ultimately show "idx \<notin> fst ` set (s_todo (senders c ! k))" by blast
qed

lemma push_inv:
  assumes inv: "chan_inv work c" and distinct: "distinct (map fst (concat work))"
    and j: "j < length (senders c)" "s_todo (senders c ! j) = (idx, v) # todo"
    and fresh: "idx \<notin> sent_idx c" and w: "wanted_idx (shared c) = Some idx" and q: "queue c = []"
  shows "chan_inv work (c\<lparr>queue := [(idx, v)], lent := insert idx (lent c),
      senders := (senders c)[j := \<lparr>s_pc = Reclaiming idx, s_todo = todo\<rparr>]\<rparr>)" (is "chan_inv work ?c")
proof -
  note U = unsent_index [OF inv distinct j]
  have req: "receiving (shared c) \<and> idx = length (received c)"
  proof (rule ccontr)
    assume "\<not> ?thesis"
    then have "idx < length (received c)" using inv w by (auto simp: chan_inv_def split: if_splits)
    with received_idx [OF inv] fresh show False by (auto simp: sent_idx_def)
  qed
  have sent: "sent_idx ?c = insert idx (sent_idx c)" using q by (simp add: sent_idx_def)
  have "list_all2 (sender_ok (shared c) (insert idx (sent_idx c))) work
      ((senders c)[j := \<lparr>s_pc = Reclaiming idx, s_todo = todo\<rparr>])"
  proof (rule list_all2_all_nthI)
    show "length work = length ((senders c)[j := \<lparr>s_pc = Reclaiming idx, s_todo = todo\<rparr>])"
      using inv by (auto simp: chan_inv_def dest: list_all2_lengthD)
    fix k assume "k < length work"
    then have k: "k < length (senders c)" using inv by (auto simp: chan_inv_def dest: list_all2_lengthD)
    with sender_ok_nth [OF inv k] U(1) U(3) [OF k] j(2)
    show "sender_ok (shared c) (insert idx (sent_idx c)) (work ! k)
        ((senders c)[j := \<lparr>s_pc = Reclaiming idx, s_todo = todo\<rparr>] ! k)"
      by (cases "k = j") (auto simp: sender_ok_def dest: suffix_ConsD)
  qed
  then show ?thesis using inv q w sent req U(2) by (auto simp: chan_inv_def split: if_splits)
qed

lemma send_check_inv:
  assumes inv: "chan_inv work c" and distinct: "distinct (map fst (concat work))"
    and j: "j < length (senders c)" "s_pc (senders c ! j) = Checking" "s_todo (senders c ! j) = (idx, v) # todo"
  shows "chan_inv work (send_check j idx v todo c)"
proof -
  note J = sender_ok_nth [OF inv j(1)]
  then have fresh: "idx \<notin> sent_idx c" using j(3) by (auto simp: sender_ok_def)
  have exit: "chan_inv work (set_pc j Exited c)" if "recv_closed (shared c)"
    using J that by (intro chan_inv_set_pc [OF inv j(1)]) (auto simp: sender_ok_def)
  have sleep: "chan_inv work (set_pc j Sleeping c)"
    if "\<not> recv_closed (shared c)" "wanted_idx (shared c) \<noteq> Some idx"
    using J j(3) that by (intro chan_inv_set_pc [OF inv j(1)]) (auto simp: sender_ok_def)
  have not_full: "queue c = []" if "wanted_idx (shared c) = Some idx"
    using inv that fresh by (auto simp: chan_inv_def sent_idx_def split: if_splits)
  show ?thesis
    unfolding send_check_def using inv exit sleep not_full push_inv [OF inv distinct j(1,3) fresh]
    by (auto simp: chan_inv_def)
qed

lemma sender_close_inv:
  assumes "chan_inv work c" and "j < length (senders c)"
  shows "chan_inv work (sender_close j c)"
proof -
  let ?c = "c\<lparr>shared := (shared c)\<lparr>recv_closed := True\<rparr>, senders := notify_all (senders c)\<rparr>"
  have inv: "chan_inv work ?c"
    using assms(1) sender_ok_notify [of "shared c" _ work "senders c" "(shared c)\<lparr>recv_closed := True\<rparr>"]
    by (auto simp: chan_inv_def sent_idx_def)
  moreover have "j < length (senders ?c)" using assms(2) by (simp add: notify_all_def)
  ultimately show ?thesis unfolding sender_close_def
    using sender_ok_nth [OF inv] by (intro chan_inv_set_pc) (auto simp: sender_ok_def)
qed

lemma recv_value_inv:
  assumes inv: "chan_inv work c" and queue: "queue c = x # q"
  shows "chan_inv work (recv_value x q c)"
proof -
  from assms have q: "q = []" "fst x = length (received c)" "receiving (shared c)" "wanted_idx (shared c) = Some (length (received c))"
    by (auto simp: chan_inv_def)
  have "sent_idx (recv_value x q c) = sent_idx c"
    using queue q(1) by (auto simp: sent_idx_def recv_value_def)
  moreover have "list_all2 (sender_ok ((shared c)\<lparr>receiving := False\<rparr>) (sent_idx c)) work (senders c)"
  proof (rule list_all2_mono)
    show "list_all2 (sender_ok (shared c) (sent_idx c)) work (senders c)"
      using inv by (simp add: chan_inv_def)
  qed (simp add: sender_ok_def)
  ultimately show ?thesis using inv queue q by (auto simp: chan_inv_def recv_value_def)
qed

lemma recv_close_inv: "chan_inv work c \<Longrightarrow> chan_inv work (recv_close c)"
  using sender_ok_notify [of "shared c" "sent_idx c" work "senders c"]
  by (auto simp: chan_inv_def recv_close_def sent_idx_def)

lemma recv_request_inv: "chan_inv work c \<Longrightarrow> chan_inv work (recv_request c)"
  using sender_ok_notify [of "shared c" "sent_idx c" work "senders c"]
  by (auto simp: chan_inv_def recv_request_def sent_idx_def split: option.splits if_splits)

text \<open>A change of program counter that asks nothing of the channel.\<close>

lemma free_pc_inv:
  assumes "chan_inv work c" and "j < length (senders c)"
    and "pc = Checking \<and> s_todo (senders c ! j) \<noteq> [] \<or> pc = Running \<or> pc = Exited \<and> s_todo (senders c ! j) = []"
  shows "chan_inv work (set_pc j pc c)"
  using sender_ok_nth [OF assms(1,2)] assms(3)
  by (intro chan_inv_set_pc [OF assms(1,2)]) (auto simp: sender_ok_def)

lemma chan_step_inv:
  assumes "chan_step c c'" and "chan_inv work c" and "distinct (map fst (concat work))"
  shows "chan_inv work c'"
  using assms
proof (induction rule: chan_step.induct)
  case (spurious j c)
  with sender_ok_nth [OF spurious.prems(1), of j] show ?case by (intro free_pc_inv) (auto simp: sender_ok_def)
qed (simp_all add: free_pc_inv send_check_inv sender_close_inv recv_request_inv recv_value_inv recv_close_inv,
    simp_all add: chan_inv_def sent_idx_def)

lemma chan_reachable_inv:
  assumes "chan_reachable work c" and "distinct (map fst (concat work))"
  shows "chan_inv work c"
  using assms(1) by (induction rule: chan_reachable.induct) (use assms(2) chan_inv_start chan_step_inv in blast)+

text \<open>A value in the queue is still lent out: only what was received can be given back.\<close>

lemma queued_is_lent:
  assumes "chan_reachable work c" and "distinct (map fst (concat work))"
  shows "fst ` set (queue c) \<subseteq> lent c"
  using assms(1)
proof (induction rule: chan_reachable.induct)
  case (step c c')
  note inv = chan_reachable_inv [OF step.hyps(1) assms(2)]
  have "fst ` set (queue c) \<inter> fst ` set (received c) = {}"
    using inv received_idx [OF inv] by (auto simp: chan_inv_def)
  with step.hyps(2) step.IH show ?case
    by (induction rule: chan_step.induct)
      (auto simp: set_pc_def send_check_def sender_close_def recv_request_def recv_value_def recv_close_def)
qed (simp add: ordered_channel_def)

text \<open>A buffer that is lent out belongs to a sender that waits for it.\<close>

lemma reclaiming_kept:
  assumes "chan_step c c'" and "s_pc (senders c ! j) = Reclaiming i" and "i \<in> lent c" and "j < length (senders c)"
  shows "s_pc (senders c' ! j) = Reclaiming i \<and> j < length (senders c')"
  using assms
proof (induction rule: chan_step.induct)
  case (fail k c)
  then show ?case by (cases "k = j") (simp_all add: sender_close_def set_pc_def notify_all_def)
qed (auto simp: set_pc_def send_check_def recv_request_def recv_value_def recv_close_def notify_all_def nth_list_update split: if_splits)

lemma lent_new:
  assumes "chan_step c c'" and "i \<in> lent c'" and "i \<notin> lent c"
  shows "\<exists>j < length (senders c'). s_pc (senders c' ! j) = Reclaiming i"
  using assms
  by (induction rule: chan_step.induct)
    (auto simp: set_pc_def send_check_def sender_close_def recv_request_def recv_value_def recv_close_def split: if_splits)

lemma lent_reclaiming:
  assumes "chan_reachable work c"
  shows "\<forall>i \<in> lent c. \<exists>j < length (senders c). s_pc (senders c ! j) = Reclaiming i"
  using assms
proof (induction rule: chan_reachable.induct)
  case (step c c')
  then show ?case using reclaiming_kept [OF step.hyps(2)] lent_new [OF step.hyps(2)] by blast
qed (simp add: ordered_channel_def)

lemma lent_card:
  assumes "chan_reachable work c"
  shows "finite (lent c) \<and> card (lent c) \<le> length (senders c)"
proof -
  let ?waits = "{j. j < length (senders c) \<and> (\<exists>i. s_pc (senders c ! j) = Reclaiming i)}"
  let ?idx = "\<lambda>j. case s_pc (senders c ! j) of Reclaiming i \<Rightarrow> i | _ \<Rightarrow> 0"
  have sub: "lent c \<subseteq> ?idx ` ?waits" using lent_reclaiming [OF assms] by force
  have fin: "finite ?waits" by simp
  have "card ?waits \<le> card {..<length (senders c)}" by (rule card_mono) auto
  with surj_card_le [OF fin sub] finite_subset [OF sub] fin show ?thesis by auto
qed

section \<open>Properties\<close>

text \<open>
  C15: Ordered delivery. Whatever the interleaving of the senders, of spurious wake-ups, of
  cancelled calls of \<open>recv\<close> and of \<open>close\<close>, the values received are those of the indices
  0, 1, 2, \<dots> in this order, each exactly once and as its sender sent it.
\<close>

theorem ordered_delivery:
  assumes "distinct (map fst (concat work))" and "chan_reachable work c"
  shows "map fst (received c) = [0..<length (received c)] \<and> set (received c) \<subseteq> set (concat work)"
  using chan_reachable_inv [OF assms(2,1)] by (auto simp: chan_inv_def)

text \<open>
  C18: The buffer of the channel is empty except between a request and its delivery, it never
  holds more than one value, and no sender ever blocks in \<open>blocking_send\<close> with the lock held.
\<close>

theorem channel_never_full:
  assumes "distinct (map fst (concat work))" and "chan_reachable work c"
  shows "unlocked c \<and> length (queue c) \<le> 1 \<and> (queue c \<noteq> [] \<longrightarrow> receiving (shared c))"
proof -
  note inv = chan_reachable_inv [OF assms(2,1)]
  have "s_pc s \<noteq> Blocked_Full" if "s \<in> set (senders c)" for s
    using that sender_ok_nth [OF inv] by (metis in_set_conv_nth sender_ok_def)
  with inv show ?thesis by (auto simp: chan_inv_def unlocked_def)
qed

text \<open>
  C20: The memory of the channel is bounded by its senders, as the comment on \<open>ordered_channel\<close> says: at any moment at most
  as many buffers are lent out as there are senders, whatever the receiver does with what it has got; each of them is owned by a
  sender that waits to get it back.
\<close>

theorem loans_bounded:
  assumes "chan_reachable work c"
  shows "card (lent c) \<le> length (senders c) \<and> (\<forall>i \<in> lent c. \<exists>s \<in> set (senders c). s_pc s = Reclaiming i)"
  using lent_card [OF assms] lent_reclaiming [OF assms] nth_mem by metis

text \<open>
  C17: No lost wake-up. A sender that sleeps on the condition variable is never the one whose
  value the receiver asks for, and nobody sleeps once the channel is closed; so the wanted
  sender is always able to go on.
\<close>

theorem no_lost_wakeup:
  assumes "distinct (map fst (concat work))" and "chan_reachable work c"
    and "s \<in> set (senders c)" and "s_pc s = Sleeping"
  shows "\<not> recv_closed (shared c) \<and> (\<exists>idx v todo. s_todo s = (idx, v) # todo \<and> wanted_idx (shared c) \<noteq> Some idx)"
proof -
  note inv = chan_reachable_inv [OF assms(2,1)]
  from assms(3) obtain j where "j < length (senders c)" "senders c ! j = s" by (auto simp: in_set_conv_nth)
  with sender_ok_nth [OF inv, of j] assms(4) show ?thesis
    by (cases "s_todo s") (auto simp: sender_ok_def)
qed

lemma channel_exhausted:
  assumes "distinct (map fst (concat work))" and inv: "chan_inv work c"
    and "\<And>s. s \<in> set (senders c) \<Longrightarrow> s_pc s = Exited" and "queue c = []" and "\<not> recv_closed (shared c)"
  shows "set (received c) = set (concat work) \<and> map fst (received c) = [0..<length (concat work)]"
proof -
  have sub: "set (received c) \<subseteq> set (concat work)" and idx: "map fst (received c) = [0..<length (received c)]"
    using inv by (simp_all add: chan_inv_def)
  have "x \<in> set (received c)" if x: "x \<in> set (concat work)" for x
  proof -
    from x obtain w where "w \<in> set work" "x \<in> set w" by auto
    then obtain j where j: "j < length work" "x \<in> set (work ! j)" by (metis in_set_conv_nth)
    then have js: "j < length (senders c)" using inv by (auto simp: chan_inv_def dest: list_all2_lengthD)
    have "s_pc (senders c ! j) = Exited" using assms(3) js by simp
    with sender_ok_nth [OF inv js] assms(5) j(2) have "fst x \<in> sent_idx c"
      by (auto simp: sender_ok_def)
    then obtain y where y: "y \<in> set (received c)" "fst y = fst x"
      using assms(4) by (auto simp: sent_idx_def)
    have "inj_on fst (set (concat work))" using assms(1) by (simp add: distinct_map)
    with y sub x have "y = x" by (metis inj_on_eq_iff subsetD)
    with y show ?thesis by simp
  qed
  with sub have set: "set (received c) = set (concat work)" by blast
  have "distinct (received c)" using idx by (metis distinct_map distinct_upt)
  moreover have "distinct (concat work)" using assms(1) by (simp add: distinct_map)
  ultimately have "length (received c) = length (concat work)" using set by (metis distinct_card)
  with set idx show ?thesis by simp
qed

text \<open>
  C16: Completeness. When the receiver finds the channel exhausted, all senders gone and nothing
  queued, without anyone having closed it, it has received every value of every sender, in
  the order of the indices.
\<close>

theorem channel_complete:
  assumes "distinct (map fst (concat work))" and "chan_reachable work c"
    and "\<And>s. s \<in> set (senders c) \<Longrightarrow> s_pc s = Exited" and "queue c = []" and "\<not> recv_closed (shared c)"
  shows "set (received c) = set (concat work) \<and> map fst (received c) = [0..<length (concat work)]"
  using channel_exhausted [OF assms(1) chan_reachable_inv [OF assms(2,1)] _ assms(4,5)] assms(3) by simp

section \<open>Concrete runs\<close>

text \<open>A schedule names the steps to take; running it is executable and gives reachable states.\<close>

datatype action = Call nat | Pass nat | Reclaim nat | Finish nat | Request | Deliver | Cancel | DropLoan nat | Close

fun chan_act :: "action \<Rightarrow> 'v channel \<Rightarrow> 'v channel option" where
  "chan_act (Call j) c =
     (if j < length (senders c) \<and> s_pc (senders c ! j) = Running \<and> s_todo (senders c ! j) \<noteq> []
      then Some (set_pc j Checking c) else None)"
| "chan_act (Pass j) c =
     (if j < length (senders c) \<and> s_pc (senders c ! j) = Checking \<and> unlocked c
      then (case s_todo (senders c ! j) of [] \<Rightarrow> None | (idx, v) # todo \<Rightarrow> Some (send_check j idx v todo c))
      else None)"
| "chan_act (Reclaim j) c =
     (if j < length (senders c)
      then (case s_pc (senders c ! j) of
              Reclaiming idx \<Rightarrow> if idx \<in> lent c then None else Some (set_pc j Running c) | _ \<Rightarrow> None)
      else None)"
| "chan_act (Finish j) c =
     (if j < length (senders c) \<and> s_pc (senders c ! j) = Running \<and> s_todo (senders c ! j) = []
      then Some (set_pc j Exited c) else None)"
| "chan_act Request c = (if receiver c = Idle \<and> unlocked c then Some (recv_request c) else None)"
| "chan_act Deliver c =
     (if receiver c = Receiving \<and> unlocked c
      then (case queue c of [] \<Rightarrow> None | x # q \<Rightarrow> Some (recv_value x q c)) else None)"
| "chan_act Cancel c = (if receiver c = Receiving then Some (c\<lparr>receiver := Idle\<rparr>) else None)"
| "chan_act (DropLoan i) c =
     (if i < length (received c) then Some (c\<lparr>lent := lent c - {fst (received c ! i)}\<rparr>) else None)"
| "chan_act Close c = (if receiver c \<noteq> Closed \<and> unlocked c then Some (recv_close c) else None)"

primrec chan_exec :: "action list \<Rightarrow> 'v channel \<Rightarrow> 'v channel option" where
  "chan_exec [] c = Some c"
| "chan_exec (a # acts) c = (case chan_act a c of None \<Rightarrow> None | Some c' \<Rightarrow> chan_exec acts c')"

lemma chan_act_step: "chan_act a c = Some c' \<Longrightarrow> chan_step c c'"
  by (cases a) (auto split: if_splits list.splits spc.splits intro: chan_step.intros)

text \<open>The next step of the thread of sender \<open>j\<close> by itself, if it has one.\<close>

definition thread_act :: "nat \<Rightarrow> 'v channel \<Rightarrow> 'v channel option" where
  "thread_act j c =
     (case s_pc (senders c ! j) of
        Running \<Rightarrow> if s_todo (senders c ! j) = [] then chan_act (Finish j) c else chan_act (Call j) c
      | Checking \<Rightarrow> chan_act (Pass j) c
      | Reclaiming idx \<Rightarrow> chan_act (Reclaim j) c
      | _ \<Rightarrow> None)"

lemma thread_act_step: "thread_act j c = Some c' \<Longrightarrow> chan_step c c'"
  by (auto simp: thread_act_def simp del: chan_act.simps split: spc.splits if_splits intro: chan_act_step)

lemma chan_exec_reachable: "chan_reachable work c \<Longrightarrow> chan_exec acts c = Some c' \<Longrightarrow> chan_reachable work c'"
proof (induction acts arbitrary: c)
  case (Cons a acts)
  then obtain c1 where "chan_act a c = Some c1" "chan_exec acts c1 = Some c'" by (auto split: option.splits)
  with Cons chan_act_step chan_reachable.step show ?case by blast
qed simp

lemmas chan_run = chan_exec_reachable [OF chan_reachable.start]

lemmas chan_eval = ordered_channel_def unlocked_def set_pc_def send_check_def recv_request_def recv_value_def
  recv_close_def notify_all_def

text \<open>Two workers, the second ahead of the first, and a \<open>recv\<close> that is cancelled and called again.\<close>

abbreviation sample_work :: "(nat \<times> nat) list list" where
  "sample_work \<equiv> [[(0, 10)], [(1, 11)]]"

abbreviation sample_asleep :: "nat channel" where
  "sample_asleep \<equiv> \<lparr>shared = \<lparr>wanted_idx = Some 0, recv_closed = False, receiving = True\<rparr>,
     queue = [(0, 10)], inner_closed = False,
     senders = [\<lparr>s_pc = Reclaiming 0, s_todo = []\<rparr>, \<lparr>s_pc = Sleeping, s_todo = [(1, 11)]\<rparr>],
     receiver = Idle, received = [], lent = {0}\<rparr>"

lemma sample_asleep_reachable: "chan_reachable sample_work sample_asleep"
  by (rule chan_run [where acts = "[Request, Call 1, Pass 1, Cancel, Call 0, Pass 0]"]) (simp add: chan_eval)

abbreviation sample_done :: "nat channel" where
  "sample_done \<equiv> \<lparr>shared = \<lparr>wanted_idx = Some 1, recv_closed = False, receiving = False\<rparr>,
     queue = [], inner_closed = False,
     senders = [\<lparr>s_pc = Exited, s_todo = []\<rparr>, \<lparr>s_pc = Exited, s_todo = []\<rparr>],
     receiver = Idle, received = [(0, 10), (1, 11)], lent = {}\<rparr>"

lemma sample_done_reachable: "chan_reachable sample_work sample_done"
  by (rule chan_run [where acts = "[Request, Call 1, Pass 1, Cancel, Call 0, Pass 0, Request, Deliver,
        DropLoan 0, Reclaim 0, Finish 0, Request, Pass 1, Deliver, DropLoan 1, Reclaim 1, Finish 1]"])
    (simp add: chan_eval)

theorem ordered_delivery_witness:
  "map fst (received sample_done) = [0..<length (received sample_done)]
    \<and> set (received sample_done) \<subseteq> set (concat sample_work)"
  by (rule ordered_delivery [OF _ sample_done_reachable]) simp

theorem channel_never_full_witness:
  "unlocked sample_asleep \<and> length (queue sample_asleep) = 1 \<and> receiving (shared sample_asleep)"
  using channel_never_full [OF _ sample_asleep_reachable] by simp

theorem loans_bounded_witness:
  "card (lent sample_asleep) \<le> 2 \<and> (\<exists>s \<in> set (senders sample_asleep). s_pc s = Reclaiming 0)"
  using loans_bounded [OF sample_asleep_reachable] by simp

theorem no_lost_wakeup_witness:
  "\<exists>idx v todo. s_todo \<lparr>s_pc = Sleeping, s_todo = [(1, 11 :: nat)]\<rparr> = (idx, v) # todo
    \<and> wanted_idx (shared sample_asleep) \<noteq> Some idx"
  using no_lost_wakeup [OF _ sample_asleep_reachable, of "\<lparr>s_pc = Sleeping, s_todo = [(1, 11)]\<rparr>"] by simp

theorem channel_complete_witness:
  "set (received sample_done) = set (concat sample_work)
    \<and> map fst (received sample_done) = [0..<length (concat sample_work)]"
  by (rule channel_complete [OF _ sample_done_reachable]) auto

section \<open>Dropping the stream\<close>

text \<open>
  \<open>HashStream::drop\<close> closes the receiver and then joins the workers, while the queue of the channel
  still exists. A worker whose value sits in the queue waits for a loan that nobody can drop.
\<close>

definition drop_stuck :: "nat \<Rightarrow> nat \<Rightarrow> 'v channel \<Rightarrow> bool" where
  "drop_stuck j idx c \<longleftrightarrow> receiver c = Closed \<and> j < length (senders c)
     \<and> s_pc (senders c ! j) = Reclaiming idx \<and> idx \<in> lent c \<and> idx \<notin> fst ` set (received c)"

lemma notify_all_nth: "j < length ss \<Longrightarrow> s_pc (ss ! j) \<noteq> Sleeping \<Longrightarrow> notify_all ss ! j = ss ! j"
  by (simp add: notify_all_def)

lemma drop_stuck_step:
  assumes "chan_step c c'" and "drop_stuck j idx c"
  shows "drop_stuck j idx c'"
  using assms
proof (induction rule: chan_step.induct)
  case (fail k c)
  then show ?case
    by (cases "k = j") (auto simp: drop_stuck_def sender_close_def set_pc_def notify_all_nth, simp_all add: notify_all_def)
qed (auto simp: drop_stuck_def set_pc_def send_check_def nth_list_update split: if_splits)

lemma drop_stuck_run: "chan_step\<^sup>*\<^sup>* c c' \<Longrightarrow> drop_stuck j idx c \<Longrightarrow> drop_stuck j idx c'"
  by (induction rule: rtranclp_induct) (auto intro: drop_stuck_step)

lemma drop_stuck_start:
  assumes "chan_reachable work c" and "distinct (map fst (concat work))"
    and "j < length (senders c)" and "s_pc (senders c ! j) = Reclaiming idx" and "queue c = [(idx, v)]"
  shows "drop_stuck j idx (recv_close c)"
proof -
  note inv = chan_reachable_inv [OF assms(1,2)]
  have "idx = length (received c)" "idx \<in> lent c"
    using inv queued_is_lent [OF assms(1,2)] assms(5) by (auto simp: chan_inv_def)
  then show ?thesis
    using assms(3,4) received_idx [OF inv]
    by (auto simp: drop_stuck_def recv_close_def notify_all_nth, simp_all add: notify_all_def)
qed

text \<open>
  C38: Closing the receiver while a value is queued (a \<open>recv\<close> was cancelled after its request) leaves
  the worker that sent it blocked for ever: it never exits, so a join on it never returns.
\<close>

theorem drop_with_queued_value_deadlocks:
  assumes "chan_reachable work c" and "distinct (map fst (concat work))"
    and "j < length (senders c)" and "s_pc (senders c ! j) = Reclaiming idx"
    and "queue c = [(idx, v)]" and "chan_step\<^sup>*\<^sup>* (recv_close c) c'"
  shows "s_pc (senders c' ! j) = Reclaiming idx \<and> s_pc (senders c' ! j) \<noteq> Exited"
  using drop_stuck_run [OF assms(6) drop_stuck_start [OF assms(1-5)]] by (simp add: drop_stuck_def)

theorem drop_with_queued_value_deadlocks_witness:
  "s_pc (senders (recv_close sample_asleep) ! 0) = Reclaiming 0
    \<and> s_pc (senders (recv_close sample_asleep) ! 0) \<noteq> Exited"
  by (rule drop_with_queued_value_deadlocks [OF sample_asleep_reachable]) simp_all

text \<open>
  When every loan has been returned the drop does end: once the receiver is closed, no step takes a
  worker further from its end, and a worker that has not ended can always take one that brings it nearer.
\<close>

fun exit_distance :: "spc \<Rightarrow> nat" where
  "exit_distance Exited = 0"
| "exit_distance Checking = 1"
| "exit_distance Sleeping = 2"
| "exit_distance Blocked_Full = 2"
| "exit_distance Running = 2"
| "exit_distance (Reclaiming i) = 3"

definition join_todo :: "'v channel \<Rightarrow> nat" where
  "join_todo c = sum_list (map (\<lambda>s. exit_distance (s_pc s)) (senders c))"

definition dropping :: "(nat \<times> 'v) list list \<Rightarrow> 'v channel \<Rightarrow> bool" where
  "dropping work c \<longleftrightarrow> chan_inv work c \<and> receiver c = Closed \<and> recv_closed (shared c) \<and> lent c = {}"

lemma join_todo_set_pc:
  assumes "j < length (senders c)"
  shows "join_todo (set_pc j pc c) + exit_distance (s_pc (senders c ! j)) = join_todo c + exit_distance pc"
proof -
  let ?d = "\<lambda>s. exit_distance (s_pc s)"
  have "sum_list (map ?d ((senders c)[j := s])) + ?d (senders c ! j) = sum_list (map ?d (senders c)) + ?d s" for s
  proof -
    have "?d (senders c ! j) \<le> sum_list (map ?d (senders c))"
      using elem_le_sum_list [of j "map ?d (senders c)"] assms by simp
    then show ?thesis using assms by (simp add: map_update sum_list_update)
  qed
  from this [of "(senders c ! j)\<lparr>s_pc := pc\<rparr>"] show ?thesis by (simp add: join_todo_def set_pc_def)
qed

lemma notify_all_awake: "(\<And>s. s \<in> set ss \<Longrightarrow> s_pc s \<noteq> Sleeping) \<Longrightarrow> notify_all ss = ss"
  unfolding notify_all_def by (rule map_idI) auto

lemma dropping_awake: "dropping work c \<Longrightarrow> s \<in> set (senders c) \<Longrightarrow> s_pc s \<noteq> Sleeping \<and> s_pc s \<noteq> Blocked_Full"
  using sender_ok_nth [of work c] by (auto simp: dropping_def sender_ok_def in_set_conv_nth)

lemma join_todo_close:
  assumes "dropping work c" and "j < length (senders c)" and "s_pc (senders c ! j) = Running"
  shows "join_todo (sender_close j c) < join_todo c"
proof -
  let ?c = "c\<lparr>shared := (shared c)\<lparr>recv_closed := True\<rparr>, senders := notify_all (senders c)\<rparr>"
  have awake: "notify_all (senders c) = senders c"
    by (rule notify_all_awake) (use dropping_awake [OF assms(1)] in blast)
  with join_todo_set_pc [of j ?c Exited] assms(2,3) show ?thesis
    by (simp add: sender_close_def join_todo_def)
qed

lemma dropping_step:
  assumes "chan_step c c'" and "dropping work c" and "distinct (map fst (concat work))"
  shows "dropping work c' \<and> join_todo c' \<le> join_todo c"
proof -
  have inv: "chan_inv work c'" using chan_step_inv [OF assms(1) _ assms(3)] assms(2) by (simp add: dropping_def)
  from assms(1,2) have "receiver c' = Closed \<and> recv_closed (shared c') \<and> lent c' = {} \<and> join_todo c' \<le> join_todo c"
  proof (induction rule: chan_step.induct)
    case (call_send j c)
    with join_todo_set_pc [of j c Checking] show ?case by (simp add: dropping_def set_pc_def)
  next
    case (pass j c idx v todo)
    with join_todo_set_pc [of j c Exited] show ?case by (simp add: dropping_def send_check_def set_pc_def)
  next
    case (spurious j c)
    with dropping_awake [of work c "senders c ! j"] show ?case by simp
  next
    case (reclaim j c idx)
    with join_todo_set_pc [of j c Running] show ?case by (simp add: dropping_def set_pc_def)
  next
    case (finish j c)
    with join_todo_set_pc [of j c Exited] show ?case by (simp add: dropping_def set_pc_def)
  next
    case (fail j c)
    with join_todo_close [of work c j] show ?case
      by (simp add: dropping_def sender_close_def set_pc_def)
  next
    case (drop_loan x c)
    then show ?case by (simp add: dropping_def join_todo_def)
  qed (simp_all add: dropping_def)
  with inv show ?thesis by (simp add: dropping_def)
qed

lemma dropping_start:
  "chan_reachable work c \<Longrightarrow> distinct (map fst (concat work)) \<Longrightarrow> lent c = {} \<Longrightarrow> dropping work (recv_close c)"
  unfolding dropping_def by (intro conjI recv_close_inv [OF chan_reachable_inv]) (simp_all add: recv_close_def)

lemma dropping_run:
  assumes "chan_step\<^sup>*\<^sup>* c c'" and "dropping work c" and "distinct (map fst (concat work))"
  shows "dropping work c'"
  using assms(1,2) by (induction rule: rtranclp_induct) (use dropping_step [OF _ _ assms(3)] in blast)+

lemma thread_act_exits:
  assumes "dropping work c" and "j < length (senders c)" and "s_pc (senders c ! j) \<noteq> Exited"
  obtains c' where "thread_act j c = Some c'" "exit_distance (s_pc (senders c' ! j)) < exit_distance (s_pc (senders c ! j))"
    "length (senders c') = length (senders c)" "chan_step c c'" "join_todo c' < join_todo c"
    "\<forall>k. s_pc (senders c ! k) = Exited \<longrightarrow> s_pc (senders c' ! k) = Exited"
proof -
  let ?s = "senders c ! j"
  have awake: "s_pc s \<noteq> Sleeping \<and> s_pc s \<noteq> Blocked_Full" if "s \<in> set (senders c)" for s
    using dropping_awake [OF assms(1) that] .
  then have free: "unlocked c" by (auto simp: unlocked_def)
  have ok: "sender_ok (shared c) (sent_idx c) (work ! j) ?s" "recv_closed (shared c)" "lent c = {}"
    using sender_ok_nth [of work c j] assms(1,2) by (simp_all add: dropping_def)
  have "\<exists>pc. thread_act j c = Some (set_pc j pc c) \<and> exit_distance pc < exit_distance (s_pc ?s)"
    using ok awake [OF nth_mem [OF assms(2)]] assms(2,3) free
    by (cases "s_pc ?s"; cases "s_todo ?s") (auto simp: thread_act_def send_check_def sender_ok_def)
  then obtain pc where pc: "thread_act j c = Some (set_pc j pc c)" "exit_distance pc < exit_distance (s_pc ?s)" by blast
  moreover have "s_pc (senders (set_pc j pc c) ! k) = Exited" if "s_pc (senders c ! k) = Exited" for k
    using that assms(3) by (cases "k = j") (simp_all add: set_pc_def)
  ultimately show thesis
    using assms(2) join_todo_set_pc [OF assms(2), of pc] thread_act_step [of j c]
    by (intro that [of "set_pc j pc c"]) (simp_all add: set_pc_def)
qed

lemma dropping_progress:
  assumes "dropping work c" and "s \<in> set (senders c)" and "s_pc s \<noteq> Exited"
  shows "\<exists>c'. chan_step c c' \<and> join_todo c' < join_todo c"
proof -
  from assms(2) obtain j where "j < length (senders c)" "s = senders c ! j" by (auto simp: in_set_conv_nth)
  with thread_act_exits [OF assms(1)] assms(3) show ?thesis by metis
qed

text \<open>
  The drop of the stream as a program: close the receiver, then join one thread after the other. A join runs
  the thread on by its own steps; a thread that sleeps, blocks or is not done after \<open>n\<close> of them gives \<open>None\<close>.
\<close>

primrec join_thread :: "nat \<Rightarrow> nat \<Rightarrow> 'v channel \<Rightarrow> 'v channel option" where
  "join_thread 0 j c = (if s_pc (senders c ! j) = Exited then Some c else None)"
| "join_thread (Suc n) j c =
     (if s_pc (senders c ! j) = Exited then Some c
      else case thread_act j c of None \<Rightarrow> None | Some c' \<Rightarrow> join_thread n j c')"

primrec join_all :: "nat \<Rightarrow> nat list \<Rightarrow> 'v channel \<Rightarrow> 'v channel option" where
  "join_all n [] c = Some c"
| "join_all n (j # js) c = (case join_thread n j c of None \<Rightarrow> None | Some c' \<Rightarrow> join_all n js c')"

definition hash_stream_drop :: "nat \<Rightarrow> 'v channel \<Rightarrow> 'v channel option" where
  "hash_stream_drop n c = join_all n [0..<length (senders c)] (recv_close c)"

text \<open>Three steps of its own are enough for a thread to end, and a thread that has ended stays so.\<close>

lemma join_thread_returns:
  assumes distinct: "distinct (map fst (concat work))"
  shows "dropping work c \<Longrightarrow> j < length (senders c) \<Longrightarrow> exit_distance (s_pc (senders c ! j)) \<le> n \<Longrightarrow>
    \<exists>c'. join_thread n j c = Some c' \<and> dropping work c' \<and> length (senders c') = length (senders c)
      \<and> s_pc (senders c' ! j) = Exited \<and> (\<forall>k. s_pc (senders c ! k) = Exited \<longrightarrow> s_pc (senders c' ! k) = Exited)"
proof (induction n arbitrary: c)
  case 0
  then show ?case by (cases "s_pc (senders c ! j)") auto
next
  case (Suc n)
  show ?case
  proof (cases "s_pc (senders c ! j) = Exited")
    case False
    obtain c' where c': "thread_act j c = Some c'"
      "exit_distance (s_pc (senders c' ! j)) < exit_distance (s_pc (senders c ! j))"
      "length (senders c') = length (senders c)" "chan_step c c'"
      "\<forall>k. s_pc (senders c ! k) = Exited \<longrightarrow> s_pc (senders c' ! k) = Exited"
      by (rule thread_act_exits [OF Suc.prems(1,2) False])
    have "dropping work c'" using dropping_step [OF c'(4) Suc.prems(1) distinct] by simp
    with Suc.IH [of c'] c' Suc.prems False show ?thesis by auto
  qed (use Suc.prems in simp)
qed

lemma join_all_returns:
  assumes distinct: "distinct (map fst (concat work))"
  shows "dropping work c \<Longrightarrow> \<forall>j \<in> set js. j < length (senders c) \<Longrightarrow>
    \<exists>c'. join_all 3 js c = Some c' \<and> length (senders c') = length (senders c)
      \<and> (\<forall>k. k \<in> set js \<or> s_pc (senders c ! k) = Exited \<longrightarrow> s_pc (senders c' ! k) = Exited)"
proof (induction js arbitrary: c)
  case (Cons j js)
  have "exit_distance (s_pc (senders c ! j)) \<le> 3" by (cases "s_pc (senders c ! j)") auto
  with Cons.prems obtain c1 where c1: "join_thread 3 j c = Some c1" "dropping work c1" "length (senders c1) = length (senders c)"
    "s_pc (senders c1 ! j) = Exited" "\<And>k. s_pc (senders c ! k) = Exited \<Longrightarrow> s_pc (senders c1 ! k) = Exited"
    using join_thread_returns [OF distinct, of c j 3] by auto
  with Cons.IH [of c1] Cons.prems show ?case by auto
qed simp

lemma hash_stream_drop_returns:
  assumes "distinct (map fst (concat work))" and "chan_reachable work c" and "lent c = {}"
  shows "\<exists>c'. hash_stream_drop 3 c = Some c' \<and> list_all (\<lambda>s. s_pc s = Exited) (senders c')"
proof -
  have "length (senders (recv_close c)) = length (senders c)" by (simp add: recv_close_def notify_all_def)
  with join_all_returns [OF assms(1) dropping_start [OF assms(2,1,3)], of "[0..<length (senders c)]"]
  show ?thesis by (auto simp: hash_stream_drop_def list_all_length)
qed

text \<open>With a value in the queue the join of the worker that sent it does not return, whatever the fuel.\<close>

lemma join_thread_run:
  "join_thread n j c = Some c' \<Longrightarrow> chan_step\<^sup>*\<^sup>* c c' \<and> s_pc (senders c' ! j) = Exited"
proof (induction n arbitrary: c)
  case (Suc n)
  show ?case
  proof (cases "s_pc (senders c ! j) = Exited")
    case False
    with Suc.prems obtain d where d: "thread_act j c = Some d" "join_thread n j d = Some c'" by (auto split: option.splits)
    from Suc.IH [OF d(2)] thread_act_step [OF d(1)] show ?thesis by (meson converse_rtranclp_into_rtranclp)
  qed (use Suc.prems in simp)
qed (simp split: if_splits)

lemma join_all_stuck: "drop_stuck j idx c \<Longrightarrow> j \<in> set js \<Longrightarrow> join_all n js c = None"
proof (induction js arbitrary: c)
  case (Cons k js)
  show ?case
  proof (cases "join_thread n k c")
    case (Some d)
    with join_thread_run [OF Some] drop_stuck_run Cons.prems(1) have d: "drop_stuck j idx d" "s_pc (senders d ! k) = Exited" by blast+
    then have "k \<noteq> j" by (auto simp: drop_stuck_def)
    then show ?thesis using Cons.IH [OF d(1)] Cons.prems(2) Some by simp
  qed simp
qed simp

lemma hash_stream_drop_stuck:
  assumes c: "chan_reachable work c" "distinct (map fst (concat work))" and q: "queue c \<noteq> []"
  shows "hash_stream_drop n c = None"
proof -
  have "length (queue c) \<le> 1" using chan_reachable_inv [OF c] by (auto simp: chan_inv_def)
  with q obtain idx v where q': "queue c = [(idx, v)]" by (cases "queue c") auto
  then have "idx \<in> lent c" using queued_is_lent [OF c] by simp
  with lent_reclaiming [OF c(1)] obtain j where j: "j < length (senders c)" "s_pc (senders c ! j) = Reclaiming idx" by blast
  from join_all_stuck [OF drop_stuck_start [OF c j q'], of "[0..<length (senders c)]" n] j(1) show ?thesis
    by (simp add: hash_stream_drop_def)
qed

text \<open>
  A state of the channel in which every value that was received has been given back. It decides whether the drop of the
  stream returns: it does if and only if nothing is queued, and three steps of each thread are enough.
\<close>

definition given_back :: "(nat \<times> 'v) list list \<Rightarrow> 'v channel \<Rightarrow> bool" where
  "given_back work c \<longleftrightarrow> chan_reachable work c \<and> distinct (map fst (concat work)) \<and> lent c \<subseteq> fst ` set (queue c)"

lemma hash_stream_drop_given_back:
  assumes "given_back work c"
  shows "hash_stream_drop 3 c = None \<longleftrightarrow> queue c \<noteq> []"
proof (cases "queue c = []")
  case True
  then have "lent c = {}" using assms by (simp add: given_back_def)
  with hash_stream_drop_returns [of work c] assms True show ?thesis by (auto simp: given_back_def)
next
  case False
  with hash_stream_drop_stuck [of work c 3] assms show ?thesis by (simp add: given_back_def)
qed

lemma all_received_queue:
  assumes "chan_reachable work c" and "distinct (map fst (concat work))" and len: "length (received c) = length (concat work)"
  shows "queue c = []"
proof (rule ccontr)
  note inv = chan_reachable_inv [OF assms(1,2)]
  assume "queue c \<noteq> []"
  with inv obtain v where q: "queue c = [(length (received c), v)]" by (auto simp: chan_inv_def)
  have "fst ` set (received c @ queue c) \<subseteq> fst ` set (concat work)" using inv by (auto simp: chan_inv_def)
  then have "{..<Suc (length (received c))} \<subseteq> fst ` set (concat work)" using received_idx [OF inv] q by (simp add: lessThan_Suc)
  then have "Suc (length (received c)) \<le> card (fst ` set (concat work))"
    by (metis card_lessThan card_mono finite_imageI finite_set)
  also have "\<dots> \<le> length (concat work)" by (meson card_image_le card_length finite_set le_trans)
  finally show False using len by simp
qed

text \<open>
  C37: Dropping the stream ends when no loan is outstanding. From the moment the receiver is closed, no step takes a worker further from its end, and as long as one has not ended
  there is a step that brings it nearer: the joins of \<open>HashStream::drop\<close> return.
\<close>

theorem drop_joins_workers:
  assumes "distinct (map fst (concat work))" and "chan_reachable work c"
    and "lent c = {}" and "chan_step\<^sup>*\<^sup>* (recv_close c) c'"
  shows "((\<forall>s \<in> set (senders c'). s_pc s = Exited) \<or> (\<exists>c''. chan_step c' c'' \<and> join_todo c'' < join_todo c'))
    \<and> (\<forall>c''. chan_step c' c'' \<longrightarrow> join_todo c'' \<le> join_todo c')"
proof -
  have D: "dropping work c'" by (rule dropping_run [OF assms(4) dropping_start [OF assms(2,1,3)] assms(1)])
  show ?thesis using dropping_progress [OF D] dropping_step [OF _ D assms(1)] by blast
qed

theorem drop_joins_workers_witness:
  "(\<exists>c''. chan_step (recv_close (ordered_channel sample_work)) c''
      \<and> join_todo c'' < join_todo (recv_close (ordered_channel sample_work)))"
proof -
  have "distinct (map fst (concat sample_work))" by simp
  from drop_joins_workers [OF this chan_reachable.start _ rtranclp.rtrancl_refl]
  show ?thesis by (auto simp: ordered_channel_def recv_close_def notify_all_def)
qed

end
