(* ===== verification/Event_Loop.thy ===== *)
theory Event_Loop
  imports Resumable_Write Blocks Ordered_Channel
begin

text \<open>
  What the two event loops share: the hash algorithm and \<open>hash_data\<close>, the stream of
  hashed blocks as the loops see it, and \<open>tokio::select!\<close> with \<open>biased\<close> polling.

  An arm of a \<open>select!\<close> is a function of the loop's state. It is off when its guard is
  false or when its future resolved to a value the pattern does not match, it is waiting
  when its future is pending (the progress the future made is kept in the state), or it
  fires and runs its body. The arms are polled in the order of the source; the first that
  fires wins and the others are dropped; when all are off the \<open>else\<close> branch breaks.
\<close>

section \<open>Hash algorithms\<close>

datatype HashAlgorithm = CRC32 | MD5

fun hash_algorithm_to_u8 :: "HashAlgorithm \<Rightarrow> u8" where
  "hash_algorithm_to_u8 CRC32 = 1"
| "hash_algorithm_to_u8 MD5 = 2"

definition hash_algorithm_of_u8 :: "u8 \<Rightarrow> HashAlgorithm option" where
  "hash_algorithm_of_u8 b = (if b = 1 then Some CRC32 else if b = 2 then Some MD5 else None)"

lemma hash_algorithm_of_to_u8 [simp]: "hash_algorithm_of_u8 (hash_algorithm_to_u8 a) = Some a"
  by (cases a) (simp_all add: hash_algorithm_of_u8_def)

text \<open>\<open>u32::to_le_bytes\<close>\<close>

definition to_le_bytes :: "32 word \<Rightarrow> u8 list" where
  "to_le_bytes w = [ucast w, ucast (drop_bit 8 w), ucast (drop_bit 16 w), ucast (drop_bit 24 w)]"

fun hash_data :: "crates \<Rightarrow> u8 list \<Rightarrow> HashAlgorithm \<Rightarrow> rstring" where
  "hash_data C data CRC32 = hex_encode C (to_le_bytes (crc32c C data))"
| "hash_data C data MD5 = hex_encode C (md5_digest C data)"

text \<open>A hash is a string the client's reader (limit 256) accepts.\<close>

lemma hash_data_acceptable: "hex_documented C \<Longrightarrow> acceptable 256 (hash_data C data a)"
  by (cases a) (simp_all add: hex_documented_def acceptable_def to_le_bytes_def)

section \<open>The stream of hashed blocks\<close>

text \<open>
  The outcomes of \<open>HashStream::recv\<close>, as a script: the next block with its index, hash and
  data, the end of the stream, a worker's error, or nothing yet.
\<close>

datatype hs_event = HsItem usize rstring "u8 list" | HsEnd | HsErr rstring | HsWait

type_synonym hs_item = "usize \<times> rstring \<times> u8 list"

fun hs_recv :: "hs_event list \<Rightarrow> hs_item option result poll \<times> hs_event list" where
  "hs_recv [] = (Pending, [])"
| "hs_recv (HsWait # es) = (Pending, es)"
| "hs_recv (HsItem i h d # es) = (Ready (Ok (Some (i, h, d))), es)"
| "hs_recv (HsEnd # es) = (Ready (Ok None), HsEnd # es)"
| "hs_recv (HsErr m # es) = (Ready (Err (HashWorkerFailed m)), HsErr m # es)"

fun hs_items :: "hs_event list \<Rightarrow> hs_item list" where
  "hs_items [] = []"
| "hs_items (HsWait # es) = hs_items es"
| "hs_items (HsItem i h d # es) = (i, h, d) # hs_items es"
| "hs_items (HsEnd # es) = []"
| "hs_items (HsErr m # es) = []"

fun hs_waits :: "hs_event list \<Rightarrow> nat" where
  "hs_waits [] = 0"
| "hs_waits (HsWait # es) = Suc (hs_waits es)"
| "hs_waits (HsItem i h d # es) = hs_waits es"
| "hs_waits (HsEnd # es) = 0"
| "hs_waits (HsErr m # es) = 0"

fun hs_no_error :: "hs_event list \<Rightarrow> bool" where
  "hs_no_error [] = True"
| "hs_no_error (HsWait # es) = hs_no_error es"
| "hs_no_error (HsItem i h d # es) = hs_no_error es"
| "hs_no_error (HsEnd # es) = True"
| "hs_no_error (HsErr m # es) = False"

lemma hs_recv_pending:
  "hs_recv es = (Pending, es') \<Longrightarrow> hs_items es' = hs_items es \<and> hs_no_error es' = hs_no_error es
     \<and> (hs_waits es = Suc (hs_waits es') \<or> es = [] \<and> es' = [])"
  by (cases es rule: hs_recv.cases) auto

lemma hs_recv_item:
  "hs_recv es = (Ready (Ok (Some (i, h, d))), es') \<Longrightarrow>
     hs_items es = (i, h, d) # hs_items es' \<and> hs_no_error es' = hs_no_error es \<and> hs_waits es' = hs_waits es"
  by (cases es rule: hs_recv.cases) auto

lemma hs_recv_end:
  "hs_recv es = (Ready (Ok None), es') \<Longrightarrow> hs_items es = [] \<and> es' = es"
  by (cases es rule: hs_recv.cases) auto

lemma hs_recv_error:
  "hs_recv es = (Ready (Err e), es') \<Longrightarrow> hs_items es = [] \<and> \<not> hs_no_error es"
  by (cases es rule: hs_recv.cases) auto

text \<open>
  \<open>HashStream\<close> as its owner sees it: what its \<open>recv\<close> gives, and the ordered channel and the worker threads behind it as they
  are at the moment it is dropped. The drop ends the function that owns it, on every way out: it
  closes the receiver and joins the workers, and only then the function returns. Three steps of each thread
  are enough for a join that returns at all (\<open>hash_stream_drop_given_back\<close>).
\<close>

record HashStream =
  hs_events :: "hs_event list"
  hs_left :: "hs_item channel"

definition after_drop :: "HashStream \<Rightarrow> 'a poll \<Rightarrow> 'a poll" where
  "after_drop hasher r = (case hash_stream_drop 3 (hs_left hasher) of None \<Rightarrow> Pending | Some _ \<Rightarrow> r)"

lemma after_drop_given_back:
  "given_back work (hs_left hasher) \<Longrightarrow> after_drop hasher r = (if queue (hs_left hasher) = [] then r else Pending)"
  using hash_stream_drop_given_back [of work "hs_left hasher"] by (auto simp: after_drop_def split: option.split)

lemma after_drop_pending [simp]: "after_drop hasher Pending = Pending"
  by (simp add: after_drop_def split: option.split)

lemma after_drop_cases: "after_drop hasher r = Pending \<or> after_drop hasher r = r"
  by (simp add: after_drop_def split: option.split)

section \<open>Biased select\<close>

datatype ctl = Continue | Break | Return error | Blocked

datatype 's arm = Off | Waiting 's | Fired ctl 's

fun select_arms :: "('s \<Rightarrow> 's arm) list \<Rightarrow> bool \<Rightarrow> 's \<Rightarrow> ctl \<times> 's" where
  "select_arms [] waiting s = (if waiting then Blocked else Break, s)"
| "select_arms (a # arms) waiting s =
     (case a s of
        Off \<Rightarrow> select_arms arms waiting s
      | Waiting s' \<Rightarrow> select_arms arms True s'
      | Fired c s' \<Rightarrow> (c, s'))"

text \<open>
  The loop around the \<open>select!\<close>. A task whose arms are all waiting is polled again when
  one of them is woken. \<open>None\<close> stands for a loop that has not ended within the fuel.
\<close>

primrec run_loop :: "nat \<Rightarrow> ('s \<Rightarrow> ctl \<times> 's) \<Rightarrow> 's \<Rightarrow> unit result option \<times> 's" where
  "run_loop 0 f s = (None, s)"
| "run_loop (Suc n) f s =
     (case f s of
        (Break, s') \<Rightarrow> (Some (Ok ()), s')
      | (Return e, s') \<Rightarrow> (Some (Err e), s')
      | (_, s') \<Rightarrow> run_loop n f s')"

text \<open>What every arm keeps, every iteration and every run of the loop keeps.\<close>

definition arm_keeps :: "('s \<Rightarrow> bool) \<Rightarrow> ('s \<Rightarrow> 's arm) \<Rightarrow> bool" where
  "arm_keeps P a \<longleftrightarrow>
     (\<forall>s. P s \<longrightarrow> (case a s of Off \<Rightarrow> True | Waiting s' \<Rightarrow> P s' | Fired c s' \<Rightarrow> P s'))"

lemma select_arms_keeps:
  "list_all (arm_keeps P) arms \<Longrightarrow> P s \<Longrightarrow> P (snd (select_arms arms waiting s))"
proof (induction arms arbitrary: waiting s)
  case (Cons a arms)
  then have "case a s of Off \<Rightarrow> True | Waiting s' \<Rightarrow> P s' | Fired c s' \<Rightarrow> P s'"
    by (simp add: arm_keeps_def)
  with Cons show ?case by (cases "a s") simp_all
qed simp

lemma run_loop_keeps:
  "(\<And>s. P s \<Longrightarrow> P (snd (f s))) \<Longrightarrow> P s \<Longrightarrow> P (snd (run_loop n f s))"
proof (induction n arbitrary: s)
  case (Suc n)
  obtain c s' where f: "f s = (c, s')" by fastforce
  then have "P s'" using Suc.prems by (metis snd_conv)
  with Suc f show ?case by (cases c) simp_all
qed simp

text \<open>Arms that, as long as \<open>P\<close> holds, keep it and never return an error.\<close>

definition arm_quiet :: "('s \<Rightarrow> bool) \<Rightarrow> ('s \<Rightarrow> 's arm) \<Rightarrow> bool" where
  "arm_quiet P a \<longleftrightarrow>
     (\<forall>s. P s \<longrightarrow> (case a s of Off \<Rightarrow> True | Waiting s' \<Rightarrow> P s' | Fired c s' \<Rightarrow> P s' \<and> (\<forall>e. c \<noteq> Return e)))"

lemma select_arms_quiet:
  "list_all (arm_quiet P) arms \<Longrightarrow> P s \<Longrightarrow> select_arms arms waiting s = (c, s') \<Longrightarrow> P s' \<and> (\<forall>e. c \<noteq> Return e)"
proof (induction arms arbitrary: waiting s)
  case (Cons a arms)
  then have "case a s of Off \<Rightarrow> True | Waiting s' \<Rightarrow> P s' | Fired c s' \<Rightarrow> P s' \<and> (\<forall>e. c \<noteq> Return e)"
    by (simp add: arm_quiet_def)
  with Cons show ?case by (cases "a s") auto
qed (auto split: if_splits)

lemma run_loop_quiet:
  assumes "\<And>s c s'. P s \<Longrightarrow> f s = (c, s') \<Longrightarrow> P s' \<and> (\<forall>e. c \<noteq> Return e)"
  shows "P s \<Longrightarrow> run_loop n f s = (r, s') \<Longrightarrow> P s' \<and> (r = None \<or> r = Some (Ok ()))"
proof (induction n arbitrary: s)
  case (Suc n)
  obtain c t where f: "f s = (c, t)" by fastforce
  from assms [OF Suc.prems(1) f] Suc f show ?case by (cases c) auto
qed auto

text \<open>More fuel does not change a result.\<close>

lemma run_loop_more:
  "run_loop n f s = (Some r, s') \<Longrightarrow> run_loop (n + k) f s = (Some r, s')"
  by (induction n arbitrary: s) (auto split: prod.splits ctl.splits)

text \<open>
  The rule for such loops: an invariant that every iteration keeps, a measure that every
  iteration that does not leave the loop decreases, and a condition on leaving.
\<close>

locale event_loop =
  fixes iter :: "'s \<Rightarrow> ctl \<times> 's"
    and inv :: "'s \<Rightarrow> bool"
    and todo :: "'s \<Rightarrow> nat"
    and post :: "'s \<Rightarrow> bool"
  assumes goes_on: "inv s \<Longrightarrow> iter s = (c, s') \<Longrightarrow> c = Continue \<or> c = Blocked \<Longrightarrow>
      inv s' \<and> todo s' < todo s"
    and breaks: "inv s \<Longrightarrow> iter s = (Break, s') \<Longrightarrow> post s'"
    and returns: "inv s \<Longrightarrow> iter s \<noteq> (Return e, s')"
begin

lemma run_loop_terminates:
  "inv s \<Longrightarrow> todo s < n \<Longrightarrow> \<exists>s'. run_loop n iter s = (Some (Ok ()), s') \<and> post s'"
proof (induction n arbitrary: s)
  case (Suc n)
  obtain c s' where i: "iter s = (c, s')" by fastforce
  show ?case
  proof (cases c)
    case Break
    with i breaks [OF Suc.prems(1)] show ?thesis by simp
  next
    case (Return e)
    with i returns [OF Suc.prems(1)] show ?thesis by blast
  next
    case Continue
    with goes_on [OF Suc.prems(1) i] Suc i show ?thesis by simp
  next
    case Blocked
    with goes_on [OF Suc.prems(1) i] Suc i show ?thesis by simp
  qed
qed simp

end

text \<open>
  The rule for a loop whose peers go on at the same time: every arm keeps the invariant and never
  adds to the work that is left, an arm that fires without leaving the loop reduces it, and a loop
  is left with \<open>post\<close> only. The work need not shrink in an iteration in which nothing was ready.
\<close>

locale live_loop =
  fixes arms :: "('s \<Rightarrow> 's arm) list"
    and inv :: "'s \<Rightarrow> bool"
    and work :: "'s \<Rightarrow> nat"
    and post :: "'s \<Rightarrow> bool"
  assumes safe: "a \<in> set arms \<Longrightarrow> inv s \<Longrightarrow>
      (case a s of
         Off \<Rightarrow> True
       | Waiting s' \<Rightarrow> inv s' \<and> work s' \<le> work s
       | Fired c s' \<Rightarrow> c = Break \<and> post s' \<or> c = Continue \<and> inv s' \<and> work s' < work s)"
    and awake: "inv s \<Longrightarrow> \<exists>a \<in> set arms. a s \<noteq> Off"
begin

lemma select_from:
  "set bs \<subseteq> set arms \<Longrightarrow> inv s \<Longrightarrow> w \<or> (\<exists>a \<in> set bs. a s \<noteq> Off) \<Longrightarrow> select_arms bs w s = (c, s') \<Longrightarrow>
     c = Break \<and> post s' \<or> (c = Continue \<or> c = Blocked) \<and> inv s' \<and> work s' \<le> work s"
proof (induction bs arbitrary: w s)
  case (Cons b bs)
  have b: "case b s of Off \<Rightarrow> True | Waiting s' \<Rightarrow> inv s' \<and> work s' \<le> work s
    | Fired c s' \<Rightarrow> c = Break \<and> post s' \<or> c = Continue \<and> inv s' \<and> work s' < work s"
    using safe [of b s] Cons.prems by simp
  show ?case
  proof (cases "b s")
    case Off
    with Cons show ?thesis by simp
  next
    case (Waiting t)
    with b Cons.IH [of t True] Cons.prems show ?thesis by auto
  next
    case (Fired d t)
    with b Cons.prems show ?thesis by auto
  qed
qed auto

lemma iteration_safe:
  "inv s \<Longrightarrow> select_arms arms False s = (c, s') \<Longrightarrow>
     c = Break \<and> post s' \<or> (c = Continue \<or> c = Blocked) \<and> inv s' \<and> work s' \<le> work s"
  using select_from [OF subset_refl, of s False c s'] awake [of s] by blast

text \<open>An iteration makes progress when one of its arms is ready, whatever the arms before it do.\<close>

lemma iteration_progress:
  assumes "set (bs @ a # bs') \<subseteq> set arms" and "inv s" and "ready s"
    and "\<And>b t t'. b \<in> set bs \<Longrightarrow> inv t \<Longrightarrow> ready t \<Longrightarrow> b t = Waiting t' \<Longrightarrow> ready t'"
    and "\<And>t. inv t \<Longrightarrow> ready t \<Longrightarrow> a t \<noteq> Off \<and> (\<forall>t'. a t = Waiting t' \<longrightarrow> work t' < work t)"
    and "select_arms (bs @ a # bs') w s = (c, s')"
  shows "work s' < work s \<or> c = Break"
  using assms(1,2,3,4,6)
proof (induction bs arbitrary: w s)
  case Nil
  have a: "a s \<noteq> Off" "\<And>t. a s = Waiting t \<Longrightarrow> work t < work s" using assms(5) [OF Nil.prems(2,3)] by auto
  show ?case
  proof (cases "a s")
    case (Waiting t)
    with safe [of a s] Nil.prems(1,2) have t: "inv t" by simp
    have "select_arms bs' True t = (c, s')" using Nil.prems(5) Waiting by simp
    with select_from [of bs' t True] t Nil.prems(1) have "c = Break \<or> work s' \<le> work t" by auto
    with a(2) [OF Waiting] show ?thesis by auto
  next
    case (Fired d t)
    with safe [of a s] Nil.prems(1,2,5) show ?thesis by auto
  qed (use a in simp)
next
  case (Cons b bs)
  have rec: "work s' < work t \<or> c = Break" if "inv t" "ready t" "select_arms (bs @ a # bs') v t = (c, s')" for t v
  proof (rule Cons.IH [OF _ that(1,2) _ that(3)])
    show "set (bs @ a # bs') \<subseteq> set arms" using Cons.prems(1) by simp
    show "ready u'" if "b' \<in> set bs" "inv u" "ready u" "b' u = Waiting u'" for b' u u'
      using Cons.prems(4) [of b' u u'] that by simp
  qed
  show ?case
  proof (cases "b s")
    case Off
    with rec [OF Cons.prems(2,3)] Cons.prems(5) show ?thesis by simp
  next
    case (Waiting t)
    with safe [of b s] Cons.prems(1,2) have t: "inv t" "work t \<le> work s" by simp_all
    have "ready t" using Cons.prems(4) [of b s t] Cons.prems(2,3) Waiting by simp
    from rec [OF t(1) this, of True] t(2) Cons.prems(5) Waiting show ?thesis by auto
  next
    case (Fired d t)
    with safe [of b s] Cons.prems(1,2,5) show ?thesis by auto
  qed
qed

end

end
