(* ===== verification/Client.thy ===== *)
theory Client
  imports Event_Loop
begin

text \<open>
  The client of \<open>client.rs\<close>: the handshake of \<open>new_process\<close>, its event loop as one \<open>select!\<close>
  iteration (\<open>client_select\<close>), and \<open>prepare_next_write_block\<close>. The loop is an instance of
  \<open>event_loop\<close>: with as many remote hashes as the source has blocks it ends, and what it has
  written is exactly the blocks whose hashes differ, in the order of the file.
\<close>

section \<open>The handshake\<close>

record ClientProcessOptions =
  opt_address :: rstring
  opt_secret :: rstring
  opt_src_path :: rstring
  opt_dest :: rstring
  opt_force_truncate :: bool
  opt_workers :: u8
  opt_block_size :: usize
  opt_hash_algorithm :: HashAlgorithm

text \<open>\<open>options.secret.len().try_into()?\<close> and \<open>options.dest.to_str().ok_or(..)?\<close>\<close>

definition secret_len :: "rstring \<Rightarrow> u8 result" where
  "secret_len secret = (if length secret \<le> 255 then Ok (word_of_nat (length secret)) else Err TryFromIntError)"

definition dest_str :: "rstring \<Rightarrow> rstring result" where
  "dest_str dest = (if utf8_valid dest then Ok dest else Err InvalidDestPath)"

text \<open>
  Lines 31--66, up to the last acknowledgement; the result is the size of the source.
  \<open>open_src\<close> is what opening a local path gives: the contents of the file, or an error.
\<close>

definition client_handshake :: "crates \<Rightarrow> (rstring \<Rightarrow> u8 list result) \<Rightarrow> ClientProcessOptions \<Rightarrow> ('z, u64) io" where
  "client_handshake C open_src options =
     io_bind (io_lift (secret_len (opt_secret options))) (\<lambda>n.
     io_bind (write_u8 n) (\<lambda>_.
     io_bind (io_write_all (opt_secret options)) (\<lambda>_.
     io_bind check_status (\<lambda>_.
     io_bind (write_u8 PROTOCOL_VERSION) (\<lambda>_.
     io_bind check_status (\<lambda>_.
     io_bind (io_lift (dest_str (opt_dest options))) (\<lambda>dest.
     io_bind (write_string C dest) (\<lambda>_.
     io_bind (io_lift (open_src (opt_src_path options))) (\<lambda>src.
     let src_size = word_of_nat (length src) in
     if src_size = 0 then io_fail EmptySource
     else
     io_bind (write_u64 C (opt_block_size options)) (\<lambda>_.
     io_bind (write_u64 C src_size) (\<lambda>_.
     io_bind (write_u8 (if opt_force_truncate options then 1 else 0)) (\<lambda>_.
     io_bind (write_u8 (hash_algorithm_to_u8 (opt_hash_algorithm options))) (\<lambda>_.
     io_bind check_status (\<lambda>_.
     io_return src_size))))))))))))))"

section \<open>The event loop\<close>

record client_loop =
  cl_timer :: "bool list"                                 \<comment> \<open>\<open>progress_timer\<close>: at each poll, has it ticked?\<close>
  cl_rx :: rstream                                        \<comment> \<open>\<open>stream_rx\<close>\<close>
  cl_tx :: sink                                           \<comment> \<open>\<open>stream_tx\<close>\<close>
  cl_hasher :: "hs_event list"                            \<comment> \<open>\<open>hasher\<close>\<close>
  cl_block_size :: usize
  cl_remote_hashes :: "rstring list"
  cl_remote_hashes_done :: bool
  cl_hash_comparison_over :: bool
  cl_read_string :: ResumableReadString                   \<comment> \<open>\<open>resumable_read_string\<close>\<close>
  cl_block_idx :: usize
  cl_end_block_idx :: usize
  cl_blocks_idx_to_send :: "(usize \<times> u8 list) list"
  cl_write_block :: "ResumableWriteFileBlock option"      \<comment> \<open>\<open>resumable_write_block\<close>\<close>
  cl_progress :: "(usize \<times> usize \<times> usize) list"        \<comment> \<open>the lines printed, last one first\<close>

text \<open>\<open>(src_size as usize).div_ceil(block_size)\<close>\<close>

definition usize_div_ceil :: "usize \<Rightarrow> usize \<Rightarrow> usize" where
  "usize_div_ceil n d = (if n mod d > 0 then n div d + 1 else n div d)"

definition client_loop_start :: "usize \<Rightarrow> usize \<Rightarrow> bool list \<Rightarrow> rstream \<Rightarrow> sink \<Rightarrow> hs_event list \<Rightarrow> client_loop" where
  "client_loop_start block_size src_size ticks es w hs =
     \<lparr>cl_timer = ticks, cl_rx = es, cl_tx = w, cl_hasher = hs, cl_block_size = block_size,
      cl_remote_hashes = [], cl_remote_hashes_done = False, cl_hash_comparison_over = False,
      cl_read_string = rrs_new 256, cl_block_idx = 0, cl_end_block_idx = usize_div_ceil src_size block_size,
      cl_blocks_idx_to_send = [], cl_write_block = None, cl_progress = []\<rparr>"

definition prepare_next_write_block :: "client_loop \<Rightarrow> client_loop" where
  "prepare_next_write_block s =
     (if cl_write_block s \<noteq> None then s
      else
        (case cl_blocks_idx_to_send s of
           [] \<Rightarrow> s
         | (idx, data) # rest \<Rightarrow>
             s\<lparr>cl_blocks_idx_to_send := rest,
               cl_write_block := Some (rwfb_new (idx * cl_block_size s) data)\<rparr>))"

text \<open>``Display progression''. The interval never ends: the arm is never disabled.\<close>

fun tick :: "bool list \<Rightarrow> bool \<times> bool list" where
  "tick [] = (False, [])"
| "tick (b # bs) = (b, bs)"

definition client_arm_timer :: "client_loop \<Rightarrow> client_loop arm" where
  "client_arm_timer s =
     (case tick (cl_timer s) of
        (False, ts) \<Rightarrow> Waiting (s\<lparr>cl_timer := ts\<rparr>)
      | (True, ts) \<Rightarrow>
          Fired Continue (s\<lparr>cl_timer := ts,
            cl_progress := (cl_block_idx s, cl_end_block_idx s,
              if cl_end_block_idx s = 0 then 0 else cl_block_idx s * 100 div cl_end_block_idx s)
              # cl_progress s\<rparr>))"

text \<open>``Next block has been fully written''; the result of the write is not looked at.\<close>

definition client_arm_write :: "client_loop \<Rightarrow> client_loop arm" where
  "client_arm_write s =
     (case cl_write_block s of
        None \<Rightarrow> Off
      | Some rwb \<Rightarrow>
          (case rwfb_write_to rwb (cl_tx s) of
             (Pending, rwb', w) \<Rightarrow> Waiting (s\<lparr>cl_tx := w, cl_write_block := Some rwb'\<rparr>)
           | (Ready _, rwb', w) \<Rightarrow>
               (let s' = s\<lparr>cl_tx := w, cl_write_block := None\<rparr> in
                if cl_hash_comparison_over s' \<and> cl_blocks_idx_to_send s' = [] then Fired Break s'
                else Fired Continue (prepare_next_write_block s'))))"

text \<open>``Always keep reading hashes from server''\<close>

definition client_arm_read :: "client_loop \<Rightarrow> client_loop arm" where
  "client_arm_read s =
     (if cl_remote_hashes_done s then Off
      else
        (case rrs_read_on (cl_read_string s) (cl_rx s) of
           (p, rs, es) \<Rightarrow>
             (let s' = s\<lparr>cl_rx := es, cl_read_string := rs\<rparr> in
              case p of
                Pending \<Rightarrow> Waiting s'
              | Ready (Inr hash) \<Rightarrow> Fired Continue (s'\<lparr>cl_remote_hashes := cl_remote_hashes s' @ [hash]\<rparr>)
              | Ready (Inl e) \<Rightarrow> Fired Continue (s'\<lparr>cl_remote_hashes_done := True\<rparr>))))"

text \<open>``Next ordered block hash, compare hash with local file''\<close>

definition client_compare :: "client_loop \<Rightarrow> rstring \<Rightarrow> u8 list \<Rightarrow> client_loop" where
  "client_compare s hash data =
     (case cl_remote_hashes s of
        [] \<Rightarrow> s
      | remote_hash # rest \<Rightarrow>
          (let s1 = s\<lparr>cl_remote_hashes := rest\<rparr>;
               s2 = (if hash \<noteq> remote_hash
                     then prepare_next_write_block
                       (s1\<lparr>cl_blocks_idx_to_send := cl_blocks_idx_to_send s1 @ [(cl_block_idx s1, data)]\<rparr>)
                     else s1) in
           s2\<lparr>cl_block_idx := cl_block_idx s2 + 1\<rparr>))"

definition client_arm_hasher :: "client_loop \<Rightarrow> client_loop arm" where
  "client_arm_hasher s =
     (if cl_remote_hashes s = [] \<or> cl_hash_comparison_over s then Off
      else
        (case hs_recv (cl_hasher s) of
           (Pending, hs) \<Rightarrow> Waiting (s\<lparr>cl_hasher := hs\<rparr>)
         | (Ready (Inl e), hs) \<Rightarrow> Fired (Return e) (s\<lparr>cl_hasher := hs\<rparr>)
         | (Ready (Inr None), hs) \<Rightarrow> Fired Break (s\<lparr>cl_hasher := hs\<rparr>)
         | (Ready (Inr (Some (i, hash, data))), hs) \<Rightarrow>
             (let s' = client_compare (s\<lparr>cl_hasher := hs\<rparr>) hash data in
              if cl_block_idx s' = cl_end_block_idx s' then
                Fired (if cl_write_block s' = None then Break else Continue)
                  (s'\<lparr>cl_hash_comparison_over := True\<rparr>)
              else Fired Continue s')))"

definition client_select :: "client_loop \<Rightarrow> ctl \<times> client_loop" where
  "client_select s =
     select_arms [client_arm_timer, client_arm_write, client_arm_read, client_arm_hasher] False s"

definition client_run :: "nat \<Rightarrow> client_loop \<Rightarrow> unit result option \<times> client_loop" where
  "client_run n s = run_loop n client_select s"

text \<open>
  The whole of \<open>new_process\<close> after the connection is made: the handshake, the start of the hashing
  (\<open>hash_file\<close>, of the component in \<open>hash_file.rs\<close>), the loop, and the drop of the stream. The number of blocks is computed
  by a division that panics on a block size of zero. The stream is declared before the buffers that the loop keeps, so that
  it is dropped after them.
\<close>

definition new_process :: "crates \<Rightarrow> (rstring \<Rightarrow> u8 list result) \<Rightarrow>
    (rstring \<Rightarrow> usize \<Rightarrow> u8 \<Rightarrow> HashAlgorithm \<Rightarrow> HashStream result) \<Rightarrow> nat \<Rightarrow> bool list \<Rightarrow>
    ClientProcessOptions \<Rightarrow> ('z, unit) io" where
  "new_process C open_src hash_file n ts options =
     io_bind (client_handshake C open_src options) (\<lambda>src_size.
     io_bind (io_lift (hash_file (opt_src_path options) (opt_block_size options) (opt_workers options)
       (opt_hash_algorithm options))) (\<lambda>hasher c.
     if opt_block_size options = 0 then (after_drop hasher (Ready (Err Panic)), c)
     else
       (case client_run n (client_loop_start (opt_block_size options) src_size ts (rx c)
               (tx_sched c, tx_out c) (hs_events hasher)) of
          (res, s) \<Rightarrow>
            (case res of None \<Rightarrow> Pending | Some x \<Rightarrow> after_drop hasher (Ready x),
             c\<lparr>rx := cl_rx s, tx_sched := fst (cl_tx s), tx_out := snd (cl_tx s)\<rparr>))))"

section \<open>The loop sends exactly the diverging blocks\<close>

text \<open>The specification: walk along local blocks and remote hashes and keep the blocks that differ.\<close>

fun diverging :: "usize \<Rightarrow> hs_item list \<Rightarrow> rstring list \<Rightarrow> (usize \<times> u8 list) list" where
  "diverging k ((i, hash, data) # items) (remote # hashes) =
     (if hash \<noteq> remote then [(k, data)] else []) @ diverging (k + 1) items hashes"
| "diverging k _ _ = []"

definition send_messages :: "usize \<Rightarrow> (usize \<times> u8 list) list \<Rightarrow> u8 list" where
  "send_messages block_size blocks = concat (map (\<lambda>(idx, data). block_message (idx * block_size, data)) blocks)"

lemma send_messages_simps [simp]:
  "send_messages bs [] = []"
  "send_messages bs ((idx, data) # blocks) = block_message (idx * bs, data) @ send_messages bs blocks"
  "send_messages bs (blocks @ blocks') = send_messages bs blocks @ send_messages bs blocks'"
  by (simp_all add: send_messages_def)

definition client_pending :: "client_loop \<Rightarrow> u8 list" where
  "client_pending s =
     (case cl_write_block s of None \<Rightarrow> [] | Some rwb \<Rightarrow> rwfb_remaining rwb)
     @ send_messages (cl_block_size s) (cl_blocks_idx_to_send s)"

text \<open>
  The invariant: \<open>rest\<close> are the hashes still to come from the server. The part about the queue of
  blocks to send (\<open>client_sends\<close>), the part about the incoming hashes (\<open>client_reads\<close>) and the
  part that ties the two together.
\<close>

definition client_sends :: "client_loop \<Rightarrow> bool" where
  "client_sends s \<longleftrightarrow>
     (case cl_write_block s of None \<Rightarrow> cl_blocks_idx_to_send s = [] | Some rwb \<Rightarrow> rwfb_inv rwb)
     \<and> sound_sched (fst (cl_tx s))"

definition client_reads :: "rstring list \<Rightarrow> client_loop \<Rightarrow> bool" where
  "client_reads rest s \<longleftrightarrow> list_all (acceptable 256) rest
     \<and> (if cl_remote_hashes_done s then rest = []
        else rrs_inv 256 (cl_read_string s) \<and> rrs_got (cl_read_string s) @ bytes_of (cl_rx s) = concat (map string_message rest))"

definition client_inv :: "u8 list \<Rightarrow> rstring list \<Rightarrow> client_loop \<Rightarrow> bool" where
  "client_inv out rest s \<longleftrightarrow> client_sends s \<and> client_reads rest s \<and> hs_no_error (cl_hasher s)
     \<and> length out \<le> length (snd (cl_tx s)) + accepts (fst (cl_tx s))
     \<and> length (cl_remote_hashes s) + length rest = length (hs_items (cl_hasher s))
     \<and> unat (cl_block_idx s) + length (hs_items (cl_hasher s)) = unat (cl_end_block_idx s)
     \<and> (cl_hash_comparison_over s \<longleftrightarrow> hs_items (cl_hasher s) = [])
     \<and> (cl_hash_comparison_over s \<longrightarrow> cl_write_block s \<noteq> None)
     \<and> snd (cl_tx s) @ client_pending s @ send_messages (cl_block_size s)
         (diverging (cl_block_idx s) (hs_items (cl_hasher s)) (cl_remote_hashes s @ rest)) = out"

definition client_queued :: "client_loop \<Rightarrow> nat" where
  "client_queued s = length (cl_blocks_idx_to_send s) + (if cl_write_block s = None then 0 else 1)"

definition ticks :: "bool list \<Rightarrow> nat" where
  "ticks ts = length (filter id ts)"

definition client_todo :: "client_loop \<Rightarrow> nat" where
  "client_todo s = ticks (cl_timer s) + wr_waits (fst (cl_tx s))
     + (if cl_remote_hashes_done s then 0
        else Suc (waits (cl_rx s) + length (rrs_got (cl_read_string s)) + length (bytes_of (cl_rx s))))
     + hs_waits (cl_hasher s) + 2 * length (hs_items (cl_hasher s))
     + client_queued s"

lemmas client_todo_simps = client_todo_def client_queued_def
lemmas client_inv_simps = client_inv_def client_sends_def client_reads_def client_pending_def client_todo_simps

text \<open>Taking the next block from the queue changes neither what is pending nor what is left to do.\<close>

lemma prepare_next_write_block_fields [simp]:
  "cl_timer (prepare_next_write_block s) = cl_timer s" "cl_rx (prepare_next_write_block s) = cl_rx s"
  "cl_tx (prepare_next_write_block s) = cl_tx s" "cl_hasher (prepare_next_write_block s) = cl_hasher s"
  "cl_block_size (prepare_next_write_block s) = cl_block_size s"
  "cl_remote_hashes (prepare_next_write_block s) = cl_remote_hashes s"
  "cl_remote_hashes_done (prepare_next_write_block s) = cl_remote_hashes_done s"
  "cl_hash_comparison_over (prepare_next_write_block s) = cl_hash_comparison_over s"
  "cl_read_string (prepare_next_write_block s) = cl_read_string s"
  "cl_block_idx (prepare_next_write_block s) = cl_block_idx s"
  "cl_end_block_idx (prepare_next_write_block s) = cl_end_block_idx s"
  by (simp_all add: prepare_next_write_block_def split: list.splits prod.splits)

lemma prepare_next_write_block_sends:
  "client_pending (prepare_next_write_block s) = client_pending s"
  "client_queued (prepare_next_write_block s) = client_queued s"
  "cl_write_block (prepare_next_write_block s) = None \<longleftrightarrow>
     cl_write_block s = None \<and> cl_blocks_idx_to_send s = []"
  "cl_write_block s = None \<or> client_sends s \<Longrightarrow> sound_sched (fst (cl_tx s)) \<Longrightarrow>
     client_sends (prepare_next_write_block s)"
  using rwfb_new_message
  by (auto simp: prepare_next_write_block_def client_pending_def client_sends_def client_queued_def
      split: list.splits prod.splits option.splits)

lemma prepare_next_write_block_todo:
  "client_todo (prepare_next_write_block s) = client_todo s"
  using prepare_next_write_block_sends(2) [of s] by (simp add: client_todo_def)

subsection \<open>The arms\<close>

lemma client_arm_timer_inv:
  assumes "client_inv out rest s"
  shows "case client_arm_timer s of
      Off \<Rightarrow> False
    | Waiting s' \<Rightarrow> client_inv out rest s' \<and> client_todo s' = client_todo s
    | Fired c s' \<Rightarrow> c = Continue \<and> client_inv out rest s' \<and> client_todo s' < client_todo s"
  using assms
  by (cases "cl_timer s" rule: tick.cases)
    (auto simp: client_arm_timer_def client_inv_simps ticks_def split: bool.splits cong: option.case_cong if_cong)

lemma client_write_facts:
  assumes inv: "client_inv out rest s" and "cl_write_block s = Some rwb" and "cl_tx s = (es, o1)"
    and r: "rwfb_write_to rwb (es, o1) = (p, rwb', es', o2)"
  shows "rwfb_inv rwb" "sound_sched es" "length out \<le> length o2 + accepts es'"
proof -
  from assms show I: "rwfb_inv rwb" "sound_sched es" by (simp_all add: client_inv_def client_sends_def)
  from arg_cong [of _ _ length] rwfb.progress [OF I(1) r]
  have "length o2 + length (rwfb_remaining rwb') = length o1 + length (rwfb_remaining rwb)" by (metis length_append)
  with assms rwfb.alive [OF I(1) r I(2)] show "length out \<le> length o2 + accepts es'" by (simp add: client_inv_def)
qed

lemma client_write_pending:
  assumes inv: "client_inv out rest s" and Some: "cl_write_block s = Some rwb" and w: "cl_tx s = (es, o1)"
    and r: "rwfb_write_to rwb (es, o1) = (Pending, rwb', es', o2)"
  shows "client_inv out rest (s\<lparr>cl_tx := (es', o2), cl_write_block := Some rwb'\<rparr>)"
    and "client_todo (s\<lparr>cl_tx := (es', o2), cl_write_block := Some rwb'\<rparr>) < client_todo s"
proof -
  let ?s = "s\<lparr>cl_tx := (es', o2), cl_write_block := Some rwb'\<rparr>"
  note I = client_write_facts [OF inv Some w r]
  note P = rwfb.progress [OF I(1) r] and A = rwfb.alive [OF I(1) r I(2)]
  have eq: "o2 @ rwfb_remaining rwb' @ x = o1 @ rwfb_remaining rwb @ x" for x using P by (metis append_assoc)
  show inv': "client_inv out rest ?s" using inv Some w P A I(3) by (simp add: client_inv_simps eq)
  then have "length o2 + length (rwfb_remaining rwb') \<le> length out" by (auto simp: client_inv_simps)
  with A I(3) have "wr_waits es' < wr_waits es"
    by (metis add_cancel_right_right le_add_same_cancel1 le_antisym length_0_conv add_leD1 add_le_cancel_left le_trans le_zero_eq)
  with w show "client_todo ?s < client_todo s" by (simp add: client_todo_simps Some)
qed

lemma client_write_ready:
  assumes inv: "client_inv out rest s" and Some: "cl_write_block s = Some rwb" and w: "cl_tx s = (es, o1)"
    and r: "rwfb_write_to rwb (es, o1) = (Ready x, rwb', es', o2)" and s': "s' = s\<lparr>cl_tx := (es', o2), cl_write_block := None\<rparr>"
  shows "cl_hash_comparison_over s \<and> cl_blocks_idx_to_send s = [] \<Longrightarrow> o2 = out"
    and "\<not> (cl_hash_comparison_over s \<and> cl_blocks_idx_to_send s = []) \<Longrightarrow>
      client_inv out rest (prepare_next_write_block s') \<and> client_todo (prepare_next_write_block s') < client_todo s"
proof -
  note I = client_write_facts [OF inv Some w r]
  note A = rwfb.alive [OF I(1) r I(2)]
  then have x: "x = Ok ()" by (cases x) auto
  have "o2 = o1 @ rwfb_remaining rwb" using rwfb.progress [OF I(1) r] x by auto
  then have pend: "o2 @ client_pending s' = snd (cl_tx s) @ client_pending s" using Some w by (simp add: s' client_pending_def)
  show "o2 = out" if "cl_hash_comparison_over s \<and> cl_blocks_idx_to_send s = []"
  proof -
    have "client_pending s' = []" "hs_items (cl_hasher s) = []"
      using that inv by (simp_all add: s' client_pending_def client_inv_def)
    with inv pend show ?thesis by (simp add: client_inv_def)
  qed
  show "client_inv out rest (prepare_next_write_block s') \<and> client_todo (prepare_next_write_block s') < client_todo s"
    if "\<not> (cl_hash_comparison_over s \<and> cl_blocks_idx_to_send s = [])"
  proof -
    have "client_sends (prepare_next_write_block s')" using prepare_next_write_block_sends(4) [of s'] A by (simp add: s')
    then have "client_inv out rest (prepare_next_write_block s')"
      using inv that I(3) pend prepare_next_write_block_sends(1,3) [of s']
      by (auto simp: s' client_inv_def client_reads_def simp flip: append_assoc)
    moreover have "client_todo s' < client_todo s" using A w Some by (simp add: s' client_todo_simps)
    ultimately show ?thesis using prepare_next_write_block_todo by simp
  qed
qed

lemma client_arm_write_inv:
  assumes inv: "client_inv out rest s"
  shows "case client_arm_write s of
      Off \<Rightarrow> cl_write_block s = None
    | Waiting s' \<Rightarrow> client_inv out rest s' \<and> client_todo s' < client_todo s
    | Fired c s' \<Rightarrow> (c = Break \<and> snd (cl_tx s') = out)
        \<or> (c = Continue \<and> client_inv out rest s' \<and> client_todo s' < client_todo s)"
proof (cases "cl_write_block s")
  case None
  then show ?thesis by (simp add: client_arm_write_def)
next
  case (Some rwb)
  obtain es o1 where w: "cl_tx s = (es, o1)" by fastforce
  obtain p rwb' es' o2 where r: "rwfb_write_to rwb (es, o1) = (p, rwb', es', o2)" by (metis prod_cases4)
  show ?thesis
  proof (cases p)
    case Pending
    with client_write_pending [OF inv Some w] r show ?thesis using Some w by (simp add: client_arm_write_def)
  next
    case (Ready x)
    with client_write_ready [OF inv Some w _ refl] r show ?thesis
      using Some w by (auto simp: client_arm_write_def Let_def)
  qed
qed

text \<open>The three outcomes of reading a hash. The reader waits without progress only when all hashes have arrived.\<close>

lemma client_read_facts:
  assumes "client_inv out rest s" and "\<not> cl_remote_hashes_done s"
  shows "rrs_inv 256 (cl_read_string s)" "list_all (acceptable 256) rest"
    "rrs_got (cl_read_string s) @ bytes_of (cl_rx s) = concat (map string_message rest)"
  using assms by (simp_all add: client_inv_def client_reads_def)

lemma client_read_waits:
  assumes inv: "client_inv out rest s" and more: "\<not> cl_remote_hashes_done s"
    and r: "rrs_read_on (cl_read_string s) (cl_rx s) = (Pending, rs, es)"
    and t: "t = s\<lparr>cl_rx := es, cl_read_string := rs\<rparr>"
  shows "client_inv out rest t \<and> (client_todo t < client_todo s \<or> client_todo t = client_todo s \<and> rest = [])"
proof -
  note I = client_read_facts [OF inv more]
  from rrs.pending [OF I(1) r]
  have P: "rrs_inv 256 rs" "rrs_got (cl_read_string s) @ bytes_of (cl_rx s) = rrs_got rs @ bytes_of es"
    "waits (cl_rx s) = Suc (waits es) \<or> waits es = 0 \<and> bytes_of es = []" by auto
  then have inv': "client_inv out rest t"
    using inv more by (simp add: t client_inv_simps cong: option.case_cong)
  have len: "length (rrs_got (cl_read_string s)) + length (bytes_of (cl_rx s))
    = length (rrs_got rs) + length (bytes_of es)" using arg_cong [OF P(2), of length] by simp
  from P(3) show ?thesis
  proof
    assume "waits (cl_rx s) = Suc (waits es)"
    with inv' len more show ?thesis by (simp add: t client_todo_simps)
  next
    assume stuck: "waits es = 0 \<and> bytes_of es = []"
    have "rest = []"
    proof (rule ccontr)
      assume "rest \<noteq> []"
      then obtain h rest' where "rest = h # rest'" by (cases rest) auto
      with rrs.partial [OF P(1), of h "concat (map string_message rest')"] I P(2) stuck
      show False by simp
    qed
    with inv' len more stuck show ?thesis by (auto simp: t client_todo_simps)
  qed
qed

lemma client_read_fails:
  assumes inv: "client_inv out rest s" and more: "\<not> cl_remote_hashes_done s"
    and r: "rrs_read_on (cl_read_string s) (cl_rx s) = (Ready (Err e), rs, es)"
    and t: "t = s\<lparr>cl_rx := es, cl_read_string := rs, cl_remote_hashes_done := True\<rparr>"
  shows "client_inv out [] t \<and> client_todo t < client_todo s"
proof -
  note I = client_read_facts [OF inv more]
  have "rest = []"
  proof (rule ccontr)
    assume "rest \<noteq> []"
    then obtain h rest' where "rest = h # rest'" by (cases rest) auto
    with rrs.fails [OF I(1) r, of h "concat (map string_message rest')"] I show False by simp
  qed
  then show ?thesis using inv more by (simp add: t client_inv_simps cong: option.case_cong)
qed

lemma client_read_hash:
  assumes inv: "client_inv out rest s" and more: "\<not> cl_remote_hashes_done s"
    and r: "rrs_read_on (cl_read_string s) (cl_rx s) = (Ready (Ok hash), rs, es)"
    and t: "t = s\<lparr>cl_rx := es, cl_read_string := rs, cl_remote_hashes := cl_remote_hashes s @ [hash]\<rparr>"
  shows "(\<exists>rest'. client_inv out rest' t) \<and> client_todo t < client_todo s"
proof -
  note I = client_read_facts [OF inv more]
  from rrs.ready [OF I(1) r]
  have R: "rrs_inv 256 rs" "rrs_got rs = []" "acceptable 256 hash" "waits es \<le> waits (cl_rx s)"
    "rrs_got (cl_read_string s) @ bytes_of (cl_rx s) = string_message hash @ bytes_of es" by simp_all
  have "rest \<noteq> []" using R(5) I(3) by (auto simp: string_message_def)
  then obtain h rest' where rest: "rest = h # rest'" by (cases rest) auto
  with rrs_prefix_free [OF R(3), of h "bytes_of es" "concat (map string_message rest')"] I R(5)
  have eq: "h = hash" "bytes_of es = concat (map string_message rest')" by auto
  with rest have "client_inv out rest' t"
    using inv more R by (simp add: t client_inv_simps cong: option.case_cong)
  moreover have "client_todo t < client_todo s"
    using more R(2,4) arg_cong [OF R(5), of length] by (simp add: t client_todo_simps string_message_def)
  ultimately show ?thesis by blast
qed

lemma client_arm_read_inv:
  assumes inv: "client_inv out rest s"
  shows "case client_arm_read s of
      Off \<Rightarrow> rest = []
    | Waiting s' \<Rightarrow> client_inv out rest s' \<and> cl_write_block s' = cl_write_block s
        \<and> (client_todo s' < client_todo s \<or> client_todo s' = client_todo s \<and> rest = [])
    | Fired c s' \<Rightarrow> c = Continue \<and> (\<exists>rest'. client_inv out rest' s') \<and> client_todo s' < client_todo s"
proof (cases "cl_remote_hashes_done s")
  case True
  with inv show ?thesis by (simp add: client_arm_read_def client_inv_def client_reads_def)
next
  case False
  obtain p rs es where r: "rrs_read_on (cl_read_string s) (cl_rx s) = (p, rs, es)" by (metis prod_cases3)
  consider (wait) "p = Pending" | (fail) e where "p = Ready (Err e)" | (hash) h where "p = Ready (Ok h)"
    by (metis poll.exhaust sum.exhaust)
  then show ?thesis
  proof cases
    case wait
    with client_read_waits [OF inv False r [unfolded wait] refl] r False show ?thesis by (simp add: client_arm_read_def)
  next
    case fail
    with client_read_fails [OF inv False r [unfolded fail] refl] r False show ?thesis by (auto simp: client_arm_read_def)
  next
    case hash
    with client_read_hash [OF inv False r [unfolded hash] refl] r False show ?thesis by (auto simp: client_arm_read_def)
  qed
qed

text \<open>Comparing one block: it leaves the list of hashes to compare and joins, if it differs, what is pending.\<close>

lemma client_compare_fields:
  assumes "cl_remote_hashes s = remote # hashes"
  shows "cl_remote_hashes (client_compare s hash data) = hashes"
    "cl_block_idx (client_compare s hash data) = cl_block_idx s + 1"
    "cl_timer (client_compare s hash data) = cl_timer s" "cl_rx (client_compare s hash data) = cl_rx s"
    "cl_tx (client_compare s hash data) = cl_tx s" "cl_hasher (client_compare s hash data) = cl_hasher s"
    "cl_block_size (client_compare s hash data) = cl_block_size s"
    "cl_remote_hashes_done (client_compare s hash data) = cl_remote_hashes_done s"
    "cl_hash_comparison_over (client_compare s hash data) = cl_hash_comparison_over s"
    "cl_read_string (client_compare s hash data) = cl_read_string s"
    "cl_end_block_idx (client_compare s hash data) = cl_end_block_idx s"
  using assms by (simp_all add: client_compare_def Let_def)

lemma client_pending_idx: "client_pending (s\<lparr>cl_block_idx := i\<rparr>) = client_pending s"
  by (simp add: client_pending_def)

lemma client_compare_sends:
  assumes "cl_remote_hashes s = remote # hashes" and "client_sends s"
  shows "client_sends (client_compare s hash data)"
    "client_pending (client_compare s hash data)
      = client_pending s @ send_messages (cl_block_size s) (if hash \<noteq> remote then [(cl_block_idx s, data)] else [])"
    "client_queued (client_compare s hash data) \<le> Suc (client_queued s)"
proof -
  let ?t = "s\<lparr>cl_remote_hashes := hashes, cl_blocks_idx_to_send := cl_blocks_idx_to_send s @ [(cl_block_idx s, data)]\<rparr>"
  have t: "cl_write_block ?t = None \<or> client_sends ?t" "sound_sched (fst (cl_tx ?t))"
    using assms(2) by (auto simp: client_sends_def split: option.splits)
  have c: "client_compare s hash data =
      (if hash \<noteq> remote then prepare_next_write_block ?t else s\<lparr>cl_remote_hashes := hashes\<rparr>)
        \<lparr>cl_block_idx := cl_block_idx s + 1\<rparr>"
    using assms(1) by (simp add: client_compare_def Let_def)
  have i: "client_sends (u\<lparr>cl_block_idx := i\<rparr>) = client_sends u" for u i
    by (simp add: client_sends_def cong: option.case_cong)
  show "client_sends (client_compare s hash data)"
    unfolding c i using assms(2) prepare_next_write_block_sends(4) [OF t]
    by (auto simp: client_sends_def split: option.splits)
  show "client_pending (client_compare s hash data)
      = client_pending s @ send_messages (cl_block_size s) (if hash \<noteq> remote then [(cl_block_idx s, data)] else [])"
    unfolding c client_pending_idx using prepare_next_write_block_sends(1) [of ?t]
    by (simp add: client_pending_def)
  have q: "client_queued (u\<lparr>cl_block_idx := i\<rparr>) = client_queued u" for u i by (simp add: client_queued_def)
  have "client_queued ?t = Suc (client_queued s)"
    "client_queued (s\<lparr>cl_remote_hashes := hashes\<rparr>) = client_queued s" by (simp_all add: client_queued_def)
  then show "client_queued (client_compare s hash data) \<le> Suc (client_queued s)"
    unfolding c q using prepare_next_write_block_sends(2) [of ?t] by simp
qed

text \<open>After the comparison of the next block: everything of the invariant but whether the comparison is over.\<close>

lemma client_compare_inv:
  assumes inv: "client_inv out rest s" and rh: "cl_remote_hashes s = remote # hashes"
    and item: "cl_hasher s = HsItem i hash data # hs" and t: "t = client_compare (s\<lparr>cl_hasher := hs\<rparr>) hash data"
  shows "client_sends t" "client_reads rest t" "client_todo t < client_todo s"
    "unat (cl_block_idx s + 1) + length (hs_items hs) = unat (cl_end_block_idx s)"
    "snd (cl_tx s) @ client_pending t @ send_messages (cl_block_size s)
      (diverging (cl_block_idx s + 1) (hs_items hs) (hashes @ rest)) = out"
proof -
  have rh': "cl_remote_hashes (s\<lparr>cl_hasher := hs\<rparr>) = remote # hashes" using rh by simp
  note F = client_compare_fields [OF rh', of hash data, simplified, folded t]
  have "client_sends (s\<lparr>cl_hasher := hs\<rparr>)"
    using inv by (simp add: client_inv_def client_sends_def cong: option.case_cong)
  note S = client_compare_sends [OF rh' this, of hash data, folded t]
  have p: "client_pending (s\<lparr>cl_hasher := hs\<rparr>) = client_pending s" by (simp add: client_pending_def)
  have q: "client_queued (s\<lparr>cl_hasher := hs\<rparr>) = client_queued s" by (simp add: client_queued_def)
  show "client_sends t" by (rule S(1))
  show "client_reads rest t" using inv F by (simp add: client_inv_def client_reads_def cong: if_cong)
  show "unat (cl_block_idx s + 1) + length (hs_items hs) = unat (cl_end_block_idx s)"
    using inv item unsigned_less [of "cl_end_block_idx s", where ?'a = nat]
    by (simp add: client_inv_def unat_word_ariths)
  show "snd (cl_tx s) @ client_pending t @ send_messages (cl_block_size s)
      (diverging (cl_block_idx s + 1) (hs_items hs) (hashes @ rest)) = out"
    using inv item rh S(2) p by (cases "hash = remote") (simp_all add: client_inv_def)
  show "client_todo t < client_todo s"
    using S(3) F item q by (simp add: client_todo_def)
qed

lemma client_over_fields:
  "client_sends (s\<lparr>cl_hash_comparison_over := b\<rparr>) = client_sends s"
  "client_pending (s\<lparr>cl_hash_comparison_over := b\<rparr>) = client_pending s"
  "client_reads rest (s\<lparr>cl_hash_comparison_over := b\<rparr>) = client_reads rest s"
  "client_todo (s\<lparr>cl_hash_comparison_over := b\<rparr>) = client_todo s"
  by (simp_all add: client_sends_def client_pending_def client_reads_def client_todo_simps cong: option.case_cong if_cong)

lemma client_hasher_item:
  assumes inv: "client_inv out rest s" and rh: "cl_remote_hashes s = remote # hashes"
    and going: "\<not> cl_hash_comparison_over s" and item: "cl_hasher s = HsItem i hash data # hs"
    and arm: "client_arm_hasher s = Fired c s'"
  shows "c = Break \<and> snd (cl_tx s') = out \<or> c = Continue \<and> client_inv out rest s' \<and> client_todo s' < client_todo s"
proof -
  let ?t = "client_compare (s\<lparr>cl_hasher := hs\<rparr>) hash data"
  have rh': "cl_remote_hashes (s\<lparr>cl_hasher := hs\<rparr>) = remote # hashes" using rh by simp
  note F = client_compare_fields [OF rh', of hash data, simplified]
  note S = client_compare_inv [OF inv rh item refl]
  have over: "cl_block_idx s + 1 = cl_end_block_idx s \<longleftrightarrow> hs_items hs = []"
    using S(4) by (metis add_cancel_right_right length_0_conv unsigned_word_eqI)
  show ?thesis
  proof (cases "hs_items hs = []")
    case False
    then have "c = Continue" "s' = ?t" using arm rh going item F over by (simp_all add: client_arm_hasher_def Let_def)
    moreover have "client_inv out rest ?t"
      unfolding client_inv_def using inv item rh F S False going by (simp add: client_inv_def)
    ultimately show ?thesis using S(3) by simp
  next
    case True
    then have a: "c = (if cl_write_block ?t = None then Break else Continue)" "s' = ?t\<lparr>cl_hash_comparison_over := True\<rparr>"
      using arm rh going item F over by (simp_all add: client_arm_hasher_def Let_def)
    show ?thesis
    proof (cases "cl_write_block ?t = None")
      case none: True
      with S(1) have "client_pending ?t = []" by (simp add: client_sends_def client_pending_def)
      with S(5) True F none a show ?thesis by simp
    next
      case some: False
      have "client_inv out rest s'"
        unfolding client_inv_def a client_over_fields
        using inv item rh F S True some by (simp add: client_inv_def)
      with a some S(3) show ?thesis by (simp add: client_over_fields)
    qed
  qed
qed

lemma client_arm_hasher_inv:
  assumes inv: "client_inv out rest s"
  shows "case client_arm_hasher s of
      Off \<Rightarrow> cl_remote_hashes s = [] \<or> cl_hash_comparison_over s
    | Waiting s' \<Rightarrow> client_inv out rest s' \<and> client_todo s' < client_todo s
    | Fired c s' \<Rightarrow> (c = Break \<and> snd (cl_tx s') = out)
        \<or> (c = Continue \<and> client_inv out rest s' \<and> client_todo s' < client_todo s)"
proof (cases "cl_remote_hashes s = [] \<or> cl_hash_comparison_over s")
  case True
  then show ?thesis by (simp add: client_arm_hasher_def)
next
  case False
  then obtain remote hashes where rh: "cl_remote_hashes s = remote # hashes" by (cases "cl_remote_hashes s") auto
  have "hs_items (cl_hasher s) \<noteq> []" "hs_no_error (cl_hasher s)"
    using inv False by (auto simp: client_inv_def)
  then consider (wait) hs where "cl_hasher s = HsWait # hs" | (item) i hash data hs where "cl_hasher s = HsItem i hash data # hs"
    by (cases "cl_hasher s" rule: hs_recv.cases) auto
  then show ?thesis
  proof cases
    case wait
    with inv False show ?thesis
      by (simp add: client_arm_hasher_def client_inv_simps cong: option.case_cong)
  next
    case item
    have "\<exists>c s'. client_arm_hasher s = Fired c s'"
      using False item by (simp add: client_arm_hasher_def Let_def)
    then obtain c s' where "client_arm_hasher s = Fired c s'" by blast
    with client_hasher_item [OF inv rh _ item this] False show ?thesis by simp
  qed
qed

subsection \<open>One iteration\<close>

lemma client_tail_inv:
  assumes inv: "client_inv out rest s" and idle: "cl_write_block s = None"
    and sel: "select_arms [client_arm_read, client_arm_hasher] True s = (c, s')"
  shows "c = Break \<and> snd (cl_tx s') = out
    \<or> (c = Continue \<or> c = Blocked) \<and> (\<exists>rest'. client_inv out rest' s') \<and> client_todo s' < client_todo s"
proof -
  have hash: "c = Break \<and> snd (cl_tx s') = out
      \<or> (c = Continue \<or> c = Blocked) \<and> (\<exists>rest'. client_inv out rest' s') \<and> client_todo s' < client_todo s"
    if t: "client_inv out rest t" "cl_write_block t = None"
      "client_todo t < client_todo s \<or> client_todo t = client_todo s \<and> rest = []"
      "select_arms [client_arm_hasher] True t = (c, s')" for t
  proof (cases "client_arm_hasher t")
    case Off
    with client_arm_hasher_inv [OF t(1)] have "cl_remote_hashes t = [] \<or> cl_hash_comparison_over t" by simp
    then have "rest \<noteq> []" using t(1,2) by (auto simp: client_inv_def)
    with t Off show ?thesis by auto
  qed (use client_arm_hasher_inv [OF t(1)] t in auto)
  show ?thesis
  proof (cases "client_arm_read s")
    case Off
    with client_arm_read_inv [OF inv] hash [OF inv idle] sel show ?thesis by simp
  next
    case (Waiting t)
    with client_arm_read_inv [OF inv] hash [of t] idle sel show ?thesis by simp
  next
    case (Fired d t)
    with client_arm_read_inv [OF inv] sel show ?thesis by simp
  qed
qed

text \<open>While a block is being written the other arms may only help.\<close>

lemma client_busy_inv:
  assumes inv: "client_inv out rest s"
    and sel: "select_arms [client_arm_read, client_arm_hasher] True s = (c, s')"
  shows "c = Break \<and> snd (cl_tx s') = out
    \<or> (c = Continue \<or> c = Blocked) \<and> (\<exists>rest'. client_inv out rest' s') \<and> client_todo s' \<le> client_todo s"
proof -
  have hash: "c = Break \<and> snd (cl_tx s') = out
      \<or> (c = Continue \<or> c = Blocked) \<and> (\<exists>rest'. client_inv out rest' s') \<and> client_todo s' \<le> client_todo s"
    if t: "client_inv out rest t" "client_todo t \<le> client_todo s"
      "select_arms [client_arm_hasher] True t = (c, s')" for t
    by (cases "client_arm_hasher t") (use client_arm_hasher_inv [OF t(1)] t in auto)
  show ?thesis
  proof (cases "client_arm_read s")
    case (Waiting t)
    with client_arm_read_inv [OF inv] have "client_inv out rest t" "client_todo t \<le> client_todo s" by auto
    from hash [OF this] Waiting sel show ?thesis by simp
  next
    case (Fired d t)
    with client_arm_read_inv [OF inv] sel show ?thesis by auto
  qed (use hash [OF inv] sel in simp)
qed

lemma client_select_inv:
  assumes inv: "client_inv out rest s" and sel: "client_select s = (c, s')"
  shows "c = Break \<and> snd (cl_tx s') = out
    \<or> (c = Continue \<or> c = Blocked) \<and> (\<exists>rest'. client_inv out rest' s') \<and> client_todo s' < client_todo s"
proof (cases "client_arm_timer s")
  case Off
  with client_arm_timer_inv [OF inv] show ?thesis by simp
next
  case (Fired d t)
  with client_arm_timer_inv [OF inv] sel show ?thesis by (auto simp: client_select_def)
next
  case (Waiting t)
  with client_arm_timer_inv [OF inv] have t: "client_inv out rest t" "client_todo t = client_todo s" by simp_all
  note W = client_arm_write_inv [OF t(1)]
  show ?thesis
  proof (cases "client_arm_write t")
    case Off
    with Waiting sel have "select_arms [client_arm_read, client_arm_hasher] True t = (c, s')"
      by (simp add: client_select_def)
    with client_tail_inv [OF t(1) _ this] W Off t(2) show ?thesis by simp
  next
    case (Fired d u)
    with Waiting sel W t(2) show ?thesis by (auto simp: client_select_def)
  next
    case wait: (Waiting u)
    with W have u: "client_inv out rest u" "client_todo u < client_todo t" by simp_all
    from Waiting wait sel have "select_arms [client_arm_read, client_arm_hasher] True u = (c, s')"
      by (simp add: client_select_def)
    from client_busy_inv [OF u(1) this] u(2) t(2) show ?thesis by auto
  qed
qed

interpretation client: event_loop client_select "\<lambda>s. \<exists>rest. client_inv out rest s" client_todo
    "\<lambda>s. snd (cl_tx s) = out"
  for out
  by unfold_locales (use client_select_inv in fastforce)+

section \<open>Properties\<close>

lemma client_loop_total:
  assumes "length remote = length (hs_items hs)" and "hs_items hs \<noteq> []"
    and "unat (usize_div_ceil src_size block_size) = length (hs_items hs)"
    and "list_all (acceptable 256) remote" and "bytes_of es = concat (map string_message remote)"
    and "hs_no_error hs" and "sound_sched ws"
    and "length (send_messages block_size (diverging 0 (hs_items hs) remote)) \<le> accepts ws"
    and "ticks ts + wr_waits ws + Suc (waits es + length (bytes_of es)) + hs_waits hs
      + 2 * length (hs_items hs) < n"
  shows "\<exists>s'. client_run n (client_loop_start block_size src_size ts es (ws, out) hs) = (Some (Ok ()), s')
    \<and> snd (cl_tx s') = out @ send_messages block_size (diverging 0 (hs_items hs) remote)"
proof -
  let ?s = "client_loop_start block_size src_size ts es (ws, out) hs"
  have "rrs_inv 256 (rrs_new 256)" by (rule rrs_inv_new) simp
  then have "client_inv (out @ send_messages block_size (diverging 0 (hs_items hs) remote)) remote ?s"
    using assms by (simp add: client_inv_simps client_loop_start_def)
  moreover have "client_todo ?s < n" using assms(9) by (simp add: client_todo_simps client_loop_start_def)
  ultimately show ?thesis unfolding client_run_def by (intro client.run_loop_terminates) blast+
qed

text \<open>
  C12: When the server sends one hash per block of the source, the client's loop ends, and it has
  sent exactly the blocks whose hashes differ, each once, complete and in the order of the file,
  whatever the interleaving of the timer, the network and the hashing.
\<close>

theorem client_sends_diverging_blocks:
  assumes "length remote = length (hs_items hs)" and "hs_items hs \<noteq> []"
    and "unat (usize_div_ceil src_size block_size) = length (hs_items hs)"
    and "list_all (acceptable 256) remote" and "bytes_of es = concat (map string_message remote)"
    and "hs_no_error hs" and "sound_sched ws"
    and "length (send_messages block_size (diverging 0 (hs_items hs) remote)) \<le> accepts ws"
    and "ticks ts + wr_waits ws + Suc (waits es + length (bytes_of es)) + hs_waits hs
      + 2 * length (hs_items hs) < n"
  shows "\<exists>s'. client_run n (client_loop_start block_size src_size ts es (ws, out) hs) = (Some (Ok ()), s')
    \<and> snd (cl_tx s') = out @ send_messages block_size (diverging 0 (hs_items hs) remote)"
  using assms by (rule client_loop_total)

abbreviation sample_items :: "hs_event list" where
  "sample_items \<equiv> [HsItem 0 [97] [1, 2], HsWait, HsItem 1 [98] [3]]"

theorem client_sends_diverging_blocks_witness:
  "\<exists>s'. client_run 100 (client_loop_start 2 3 [True, False, True]
       [Chunk (string_message [97]), Wait, Chunk (string_message [99])]
       ([Accept 1, Accept 1, WrWait, Accept 1, Accept 1, Accept 1, Accept 1, Accept 1, Accept 1, Accept 1], [])
       sample_items) = (Some (Ok ()), s')
     \<and> snd (cl_tx s') = [] @ send_messages 2 (diverging 0 (hs_items sample_items) [[97], [99]])"
  by (rule client_sends_diverging_blocks)
    (simp_all add: ticks_def usize_div_ceil_def acceptable_def string_message_def block_message_def)

section \<open>Where the loop goes wrong\<close>

text \<open>
  With no complete hash to come and nothing being written, only the timer is left, and the timer
  never ends the loop.
\<close>

definition starved :: "client_loop \<Rightarrow> bool" where
  "starved s \<longleftrightarrow> cl_write_block s = None \<and> cl_remote_hashes s = []
     \<and> (cl_remote_hashes_done s \<or> rrs_inv 256 (cl_read_string s) \<and>
        (\<forall>v r. acceptable 256 v \<longrightarrow> rrs_got (cl_read_string s) @ bytes_of (cl_rx s) \<noteq> string_message v @ r))"

lemma starved_read:
  assumes "starved s" and "\<not> cl_remote_hashes_done s" and "rrs_read_on (cl_read_string s) (cl_rx s) = (p, rs, es)"
  shows "p = Pending \<and> starved (s\<lparr>cl_rx := es, cl_read_string := rs\<rparr>) \<or> (\<exists>e. p = Ready (Inl e))"
proof -
  have I: "rrs_inv 256 (cl_read_string s)"
    and none: "\<And>v r. acceptable 256 v \<Longrightarrow> rrs_got (cl_read_string s) @ bytes_of (cl_rx s) \<noteq> string_message v @ r"
    using assms(1,2) by (auto simp: starved_def)
  consider (pending) "p = Pending" | (failed) e where "p = Ready (Inl e)" | (hash) h where "p = Ready (Inr h)"
    by (metis poll.exhaust sum.exhaust)
  then show ?thesis
  proof cases
    case pending
    from rrs.pending [OF I assms(3) [unfolded pending]] none
    have "rrs_inv 256 rs" "\<And>v r. acceptable 256 v \<Longrightarrow> rrs_got rs @ bytes_of es \<noteq> string_message v @ r" by auto
    then show ?thesis using pending assms(1) by (simp add: starved_def)
  next
    case hash
    from rrs.ready [OF I assms(3) [unfolded hash]] none show ?thesis by blast
  qed simp
qed

lemma starved_select:
  assumes "starved s" and "client_select s = (c, s')"
  shows "(c = Continue \<or> c = Blocked) \<and> starved s'"
proof -
  have fields: "cl_write_block s = None" "cl_remote_hashes s = []" using assms(1) by (simp_all add: starved_def)
  obtain b ts where t: "tick (cl_timer s) = (b, ts)" by fastforce
  let ?t = "s\<lparr>cl_timer := ts\<rparr>"
  show ?thesis
  proof (cases b)
    case True
    with t assms show ?thesis by (auto simp: client_select_def client_arm_timer_def starved_def)
  next
    case False
    then have sel: "select_arms [client_arm_read, client_arm_hasher] True ?t = (c, s')"
      using t assms(2) fields by (simp add: client_select_def client_arm_timer_def client_arm_write_def)
    have off: "cl_remote_hashes u = [] \<Longrightarrow> client_arm_hasher u = Off" for u by (simp add: client_arm_hasher_def)
    have start: "starved ?t" using assms(1) by (simp add: starved_def)
    obtain p rs es where r: "rrs_read_on (cl_read_string ?t) (cl_rx ?t) = (p, rs, es)" by (metis prod_cases3)
    show ?thesis
    proof (cases "cl_remote_hashes_done s")
      case True
      with sel off fields start show ?thesis by (simp add: client_arm_read_def)
    next
      case open_: False
      then have "\<not> cl_remote_hashes_done ?t" by simp
      from starved_read [OF start this r] r sel off fields open_ show ?thesis
        by (auto simp: client_arm_read_def starved_def)
    qed
  qed
qed

text \<open>
  C36: If the server's stream ends, or breaks off, before the first complete hash, the client's
  loop never ends: it neither fails nor returns, for any number of iterations.
\<close>

theorem client_hangs_without_hashes:
  assumes "\<And>v r. acceptable 256 v \<Longrightarrow> bytes_of es \<noteq> string_message v @ r"
  shows "fst (client_run n (client_loop_start block_size src_size ts es w hs)) = None"
proof -
  have "fst (run_loop n client_select s) = None" if "starved s" for s
    using that
  proof (induction n arbitrary: s)
    case (Suc n)
    obtain c s' where sel: "client_select s = (c, s')" by fastforce
    with starved_select [OF Suc.prems] Suc.IH [of s'] show ?case by auto
  qed simp
  moreover have "starved (client_loop_start block_size src_size ts es w hs)"
    using assms rrs_inv_new [of 256] by (simp add: starved_def client_loop_start_def)
  ultimately show ?thesis by (simp add: client_run_def)
qed

theorem client_hangs_without_hashes_witness:
  "fst (client_run 1000 (client_loop_start 2 3 [True] [Chunk [0, 0], Wait, Eof] ([], []) sample_items)) = None"
  by (rule client_hangs_without_hashes)
    (auto simp: string_message_def dest!: arg_cong [where f = length])

text \<open>
  C35: The outcome of a write to the server is not looked at: when the connection fails while the
  last block is being sent, the loop ends with success although the block was not sent.
\<close>

theorem client_ignores_write_errors:
  assumes "cl_write_block s = Some rwb" and "rwfb_write_to rwb (cl_tx s) = (Ready (Err e), rwb', w)"
    and "cl_hash_comparison_over s" and "cl_blocks_idx_to_send s = []" and "fst (tick (cl_timer s)) = False"
  shows "\<exists>s'. client_run (Suc n) s = (Some (Ok ()), s') \<and> cl_tx s' = w"
proof -
  obtain ts where "tick (cl_timer s) = (False, ts)" using assms(5) by (metis prod.collapse)
  then show ?thesis
    using assms(1-4) by (simp add: client_run_def client_select_def client_arm_timer_def client_arm_write_def)
qed

theorem client_ignores_write_errors_witness:
  "\<exists>s'. client_run (Suc 0) ((client_loop_start 2 3 [] [] ([Accept 3, WrFail], []) [])
       \<lparr>cl_write_block := Some (rwfb_new 0 [1, 2]), cl_hash_comparison_over := True\<rparr>) = (Some (Ok ()), s')
     \<and> cl_tx s' = ([], [0, 0, 0])"
  by (rule client_ignores_write_errors [where e = IoError])
    (simp_all add: client_loop_start_def, code_simp, simp)

section \<open>Rejection\<close>

lemma write_ok:
  assumes "can_send (length bs + k) c"
  obtains es where "io_write_all bs c = (Ready (Ok ()), c\<lparr>tx_sched := es, tx_out := tx_out c @ bs\<rparr>)"
    "can_send k (c\<lparr>tx_sched := es, tx_out := tx_out c @ bs\<rparr>)"
proof -
  obtain c' where c': "io_write_all bs c = (Ready (Ok ()), c')" "sent bs c c'" "can_send k c'"
    using assms by (rule io_write_all_ok)
  then have "c' = c\<lparr>tx_sched := tx_sched c', tx_out := tx_out c @ bs\<rparr>" unfolding sent_def by metis
  with c' that show thesis by metis
qed

text \<open>
  A client whose secret is not acknowledged stops there: it reports the server's status as its
  error, and it has sent nothing but the secret; in particular not the destination path.
\<close>

theorem client_stops_when_rejected:
  assumes "length (opt_secret options) \<le> 255" and "bytes_of (rx c) = status_to_u8 st # rest" and "st \<noteq> Ack"
    and "can_send (1 + length (opt_secret options)) c"
  shows "\<exists>e c'. new_process C open_src hash_file n ts options c = (Ready (Err e), c')
    \<and> status_result st = Err e
    \<and> tx_out c' = tx_out c @ [word_of_nat (length (opt_secret options))] @ opt_secret options"
proof -
  let ?s = "opt_secret options" and ?n = "word_of_nat (length (opt_secret options)) :: u8"
  have "can_send (length [?n] + length ?s) c" using assms(4) by simp
  then obtain es1 where 1: "io_write_all [?n] c = (Ready (Ok ()), c\<lparr>tx_sched := es1, tx_out := tx_out c @ [?n]\<rparr>)"
    "can_send (length ?s + 0) (c\<lparr>tx_sched := es1, tx_out := tx_out c @ [?n]\<rparr>)" by (rule write_ok) simp
  from 1(2) obtain es2 where 2: "io_write_all ?s (c\<lparr>tx_sched := es1, tx_out := tx_out c @ [?n]\<rparr>)
      = (Ready (Ok ()), c\<lparr>tx_sched := es2, tx_out := tx_out c @ [?n] @ ?s\<rparr>)" by (rule write_ok) simp
  let ?c = "c\<lparr>tx_sched := es2, tx_out := tx_out c @ [?n] @ ?s\<rparr>"
  have "bytes_of (rx ?c) = status_to_u8 st # rest" using assms(2) by simp
  then obtain c' where r: "check_status ?c = (Ready (status_result st), c')" and c': "consumed [status_to_u8 st] ?c c'"
    by (rule check_status_byte) simp
  from c' have "c' = ?c\<lparr>rx := rx c'\<rparr>" by (simp add: consumed_def)
  then have out: "tx_out c' = tx_out c @ [?n] @ ?s"
    by (metis conn.select_convs(3) conn.surjective conn.update_convs(1,2,3))
  obtain e where e: "status_result st = Err e" using assms(3) by (cases st) simp_all
  have "client_handshake C open_src options c = (Ready (Err e), c')"
    using 1(1) 2 r e assms(1) by (simp add: client_handshake_def secret_len_def write_u8_def)
  then show ?thesis using e out by (simp add: new_process_def)
qed

theorem client_stops_when_rejected_witness:
  "\<exists>e c'. new_process sample_crates (\<lambda>_. Ok [1]) (\<lambda>_ _ _ _. Ok \<lparr>hs_events = [HsEnd], hs_left = ordered_channel []\<rparr>) 5 []
      \<lparr>opt_address = [], opt_secret = [120], opt_src_path = [115], opt_dest = [102], opt_force_truncate = False,
       opt_workers = 1, opt_block_size = 2, opt_hash_algorithm = CRC32\<rparr>
      \<lparr>rx = [Wait, Chunk [1], Eof], tx_sched = [Accept 1, Accept 1], tx_out = []\<rparr> = (Ready (Err e), c')
    \<and> status_result InvalidSecret = Err e \<and> tx_out c' = [1, 120]"
  using client_stops_when_rejected [where C = sample_crates and open_src = "\<lambda>_. Ok [1]" and n = 5 and ts = "[]"
      and hash_file = "\<lambda>_ _ _ _. Ok \<lparr>hs_events = [HsEnd], hs_left = ordered_channel []\<rparr>" and st = InvalidSecret and rest = "[]"
      and options = "\<lparr>opt_address = [], opt_secret = [120], opt_src_path = [115], opt_dest = [102], opt_force_truncate = False,
        opt_workers = 1, opt_block_size = 2, opt_hash_algorithm = CRC32\<rparr>"
      and c = "\<lparr>rx = [Wait, Chunk [1], Eof], tx_sched = [Accept 1, Accept 1], tx_out = []\<rparr>"]
  by (simp add: can_send_def)

end
