(* ===== verification/Live_Client.thy ===== *)
theory Live_Client
  imports Client
begin

text \<open>
  The client's event loop while the server is still at work: the hashes arrive bit by bit
  (\<open>ahead\<close> are the bytes that have not arrived yet) and the socket takes what it is granted in an
  iteration. \<open>client_live\<close> is the invariant of one iteration in such an environment and
  \<open>client_work\<close> what is left to do; the loop of \<open>client.rs\<close> is an instance of \<open>live_loop\<close>.
\<close>

section \<open>The invariant\<close>

text \<open>What the client still sends when it has compared \<open>k\<close> blocks; for 0 this is all it ever sends.\<close>

definition client_out :: "usize \<Rightarrow> hs_item list \<Rightarrow> rstring list \<Rightarrow> nat \<Rightarrow> u8 list" where
  "client_out bs items hashes k = send_messages bs (diverging (word_of_nat k) (drop k items) (drop k hashes))"

lemma client_out_step:
  assumes "drop k items = (i, hash, data) # items'" and "drop k hashes = remote # hashes'"
  shows "client_out bs items hashes k =
    send_messages bs (if hash \<noteq> remote then [(word_of_nat k, data)] else []) @ client_out bs items hashes (Suc k)"
proof -
  have "drop (Suc k) items = items'" "drop (Suc k) hashes = hashes'"
    using arg_cong [OF assms(1), of tl] arg_cong [OF assms(2), of tl] by (simp_all add: drop_Suc tl_drop)
  then show ?thesis using assms by (simp add: client_out_def add.commute)
qed

text \<open>
  The writer is in the middle of a block or has nothing to send. \<open>room\<close> are bounds on what the sink has taken: what
  it holds now, and what it holds when it has taken all it grants.
\<close>

definition client_writes :: "nat \<times> nat \<Rightarrow> client_loop \<Rightarrow> bool" where
  "client_writes room s \<longleftrightarrow>
     (case cl_write_block s of
        None \<Rightarrow> cl_blocks_idx_to_send s = []
      | Some rwb \<Rightarrow> rwfb_inv rwb \<and> rwfb_remaining rwb \<noteq> [])
     \<and> sound_sched (fst (cl_tx s)) \<and> wr_waits (fst (cl_tx s)) = 0
     \<and> fst room \<le> length (snd (cl_tx s)) \<and> length (snd (cl_tx s)) + granted (fst (cl_tx s)) \<le> snd room"

definition client_listens :: "u8 list \<Rightarrow> rstring list \<Rightarrow> client_loop \<Rightarrow> bool" where
  "client_listens ahead rest s \<longleftrightarrow> \<not> cl_remote_hashes_done s \<and> rrs_inv 256 (cl_read_string s)
     \<and> waits (cl_rx s) = 0 \<and> end_of (cl_rx s) = StillOpen \<and> list_all (acceptable 256) rest
     \<and> rrs_got (cl_read_string s) @ bytes_of (cl_rx s) @ ahead = concat (map string_message rest)"

definition client_counts :: "hs_item list \<Rightarrow> rstring list \<Rightarrow> rstring list \<Rightarrow> client_loop \<Rightarrow> bool" where
  "client_counts items hashes rest s \<longleftrightarrow> hs_no_error (cl_hasher s)
     \<and> unat (cl_block_idx s) \<le> unat (cl_end_block_idx s)
     \<and> length items = unat (cl_end_block_idx s) \<and> length hashes = unat (cl_end_block_idx s)
     \<and> hs_items (cl_hasher s) = drop (unat (cl_block_idx s)) items
     \<and> cl_remote_hashes s @ rest = drop (unat (cl_block_idx s)) hashes
     \<and> (cl_hash_comparison_over s \<longleftrightarrow> hs_items (cl_hasher s) = [])
     \<and> (cl_hash_comparison_over s \<longrightarrow> cl_write_block s \<noteq> None)"

definition client_live :: "nat \<times> nat \<Rightarrow> u8 list \<Rightarrow> usize \<Rightarrow> hs_item list \<Rightarrow> rstring list \<Rightarrow> rstring list \<Rightarrow> client_loop \<Rightarrow> bool" where
  "client_live room ahead bs items hashes rest s \<longleftrightarrow>
     client_writes room s \<and> client_listens ahead rest s \<and> client_counts items hashes rest s \<and> cl_block_size s = bs
     \<and> snd (cl_tx s) @ client_pending s @ client_out bs items hashes (unat (cl_block_idx s)) = client_out bs items hashes 0"

definition client_sent_all :: "nat \<times> nat \<Rightarrow> u8 list \<Rightarrow> usize \<Rightarrow> hs_item list \<Rightarrow> rstring list \<Rightarrow> client_loop \<Rightarrow> bool" where
  "client_sent_all room ahead bs items hashes s \<longleftrightarrow> ahead = [] \<and> hs_items (cl_hasher s) = [] \<and>
     snd (cl_tx s) = client_out bs items hashes 0 \<and> fst room \<le> length (snd (cl_tx s)) \<and> length (snd (cl_tx s)) \<le> snd room"

text \<open>What is left to do: ticks to print, bytes to send, bytes to read, blocks to compare.\<close>

definition client_work :: "nat \<Rightarrow> client_loop \<Rightarrow> nat" where
  "client_work amount s = ticks (cl_timer s) + (amount - length (snd (cl_tx s))) + length (bytes_of (cl_rx s))
     + hs_waits (cl_hasher s) + length (hs_items (cl_hasher s))"

abbreviation client_total :: "usize \<Rightarrow> hs_item list \<Rightarrow> rstring list \<Rightarrow> nat" where
  "client_total bs items hashes \<equiv> length (client_out bs items hashes 0)"

lemmas client_live_parts = client_live_def client_writes_def client_listens_def client_counts_def

text \<open>Which fields the parts of the invariant depend on.\<close>

lemma client_live_frame [simp]:
  "client_writes room (s\<lparr>cl_rx := es\<rparr>) = client_writes room s"
  "client_writes room (s\<lparr>cl_read_string := rs\<rparr>) = client_writes room s"
  "client_writes room (s\<lparr>cl_remote_hashes := hs\<rparr>) = client_writes room s"
  "client_writes room (s\<lparr>cl_hasher := evs\<rparr>) = client_writes room s"
  "client_writes room (s\<lparr>cl_hash_comparison_over := b\<rparr>) = client_writes room s"
  "client_pending (s\<lparr>cl_rx := es\<rparr>) = client_pending s"
  "client_pending (s\<lparr>cl_read_string := rs\<rparr>) = client_pending s"
  "client_pending (s\<lparr>cl_remote_hashes := hs\<rparr>) = client_pending s"
  "client_pending (s\<lparr>cl_hasher := evs\<rparr>) = client_pending s"
  "client_pending (s\<lparr>cl_hash_comparison_over := b\<rparr>) = client_pending s"
  by (simp_all add: client_writes_def client_pending_def cong: option.case_cong)

text \<open>When every block has been compared, no byte of the server is outstanding.\<close>

lemma nothing_ahead:
  assumes "client_listens ahead rest s" and "hashes' @ rest = drop k hashes" and "drop k items = []" and "length hashes = length items"
  shows "ahead = []"
  using assms by (simp add: client_listens_def)

section \<open>The arms\<close>

lemma live_timer:
  assumes "client_live room ahead bs items hashes rest s"
  shows "case client_arm_timer s of
      Off \<Rightarrow> False
    | Waiting s' \<Rightarrow> client_live room ahead bs items hashes rest s' \<and> client_work amount s' = client_work amount s
        \<and> cl_tx s' = cl_tx s \<and> cl_write_block s' = cl_write_block s \<and> cl_rx s' = cl_rx s
        \<and> cl_remote_hashes s' = cl_remote_hashes s \<and> cl_hash_comparison_over s' = cl_hash_comparison_over s
    | Fired c s' \<Rightarrow> c = Continue \<and> client_live room ahead bs items hashes rest s' \<and> client_work amount s' < client_work amount s"
  using assms
  by (cases "cl_timer s" rule: tick.cases)
    (auto simp: client_arm_timer_def client_live_parts client_pending_def client_work_def ticks_def
      split: bool.splits cong: option.case_cong)

text \<open>Writing: the block goes on, or it is done and the next one is prepared, or it was the last one.\<close>

lemma live_prepare:
  assumes "cl_write_block s = None" and "sound_sched (fst (cl_tx s))" and "wr_waits (fst (cl_tx s)) = 0"
    and "fst room \<le> length (snd (cl_tx s))" and "length (snd (cl_tx s)) + granted (fst (cl_tx s)) \<le> snd room"
  shows "client_writes room (prepare_next_write_block s)"
  using assms rwfb_new_message
  by (auto simp: client_writes_def prepare_next_write_block_def block_message_def split: list.splits)

lemma block_written:
  assumes live: "client_live room ahead bs items hashes rest s" and amount: "amount = client_total bs items hashes"
    and some: "cl_write_block s = Some rwb" and w: "cl_tx s = (es, o1)" and r: "rwfb_write_to rwb (es, o1) = (p, rwb', es', o2)"
  shows "rwfb_inv rwb'" and "sound_sched es' \<and> wr_waits es' = 0 \<and> fst room \<le> length o2 \<and> length o2 + granted es' \<le> snd room"
    and "o2 @ rwfb_remaining rwb' @ send_messages bs (cl_blocks_idx_to_send s)
      @ client_out bs items hashes (unat (cl_block_idx s)) = client_out bs items hashes 0"
    and "client_work amount (s\<lparr>cl_tx := (es', o2), cl_write_block := b\<rparr>) + (length o2 - length o1) = client_work amount s"
    and "p = Pending \<and> rwfb_remaining rwb' \<noteq> [] \<or> p = Ready (Ok ()) \<and> rwfb_remaining rwb' = [] \<and> length o1 < length o2"
    and "0 < accepts es \<longrightarrow> length o1 < length o2"
proof -
  have I: "rwfb_inv rwb" "rwfb_remaining rwb \<noteq> []" "sound_sched es" "wr_waits es = 0"
    "fst room \<le> length o1 \<and> length o1 + granted es \<le> snd room"
    using live some w by (simp_all add: client_live_def client_writes_def)
  note W = rwfb.stream_write [OF I(1-4) r]
  show "rwfb_inv rwb'" "sound_sched es' \<and> wr_waits es' = 0 \<and> fst room \<le> length o2 \<and> length o2 + granted es' \<le> snd room"
    "0 < accepts es \<longrightarrow> length o1 < length o2"
    "p = Pending \<and> rwfb_remaining rwb' \<noteq> [] \<or> p = Ready (Ok ()) \<and> rwfb_remaining rwb' = [] \<and> length o1 < length o2"
    using W I(5) by auto
  have out: "o1 @ rwfb_remaining rwb @ x = o2 @ rwfb_remaining rwb' @ x" for x using W by (metis append_assoc)
  show eq: "o2 @ rwfb_remaining rwb' @ send_messages bs (cl_blocks_idx_to_send s)
      @ client_out bs items hashes (unat (cl_block_idx s)) = client_out bs items hashes 0"
    using live some w out by (auto simp: client_live_def client_pending_def)
  then have "length o2 \<le> amount" unfolding amount by (metis length_append le_add1)
  then show "client_work amount (s\<lparr>cl_tx := (es', o2), cl_write_block := b\<rparr>) + (length o2 - length o1) = client_work amount s"
    using W w by (simp add: client_work_def)
qed

text \<open>The last byte of a block is out: the next block is prepared, or it was the last one and the loop is left.\<close>

lemma block_finished:
  assumes live: "client_live room ahead bs items hashes rest s" and some: "cl_write_block s = Some rwb"
    and w: "sound_sched es' \<and> wr_waits es' = 0 \<and> fst room \<le> length o2 \<and> length o2 + granted es' \<le> snd room"
    and eq: "o2 @ send_messages bs (cl_blocks_idx_to_send s) @ client_out bs items hashes (unat (cl_block_idx s))
      = client_out bs items hashes 0"
    and t: "t = s\<lparr>cl_tx := (es', o2), cl_write_block := None\<rparr>"
  shows "cl_hash_comparison_over s \<Longrightarrow> cl_blocks_idx_to_send s = [] \<Longrightarrow> client_sent_all room ahead bs items hashes t"
    and "\<not> (cl_hash_comparison_over s \<and> cl_blocks_idx_to_send s = []) \<Longrightarrow>
      client_live room ahead bs items hashes rest (prepare_next_write_block t)"
proof -
  let ?k = "unat (cl_block_idx s)"
  assume over: "cl_hash_comparison_over s" "cl_blocks_idx_to_send s = []"
  then have "drop ?k items = []" "hs_items (cl_hasher s) = []" using live unfolding client_live_def client_counts_def by metis+
  moreover from this have "ahead = []"
    using nothing_ahead [of ahead rest s _ ?k hashes items] live unfolding client_live_def client_counts_def by metis
  ultimately show "client_sent_all room ahead bs items hashes t"
    using eq over w by (simp add: client_sent_all_def client_out_def t)
next
  assume more: "\<not> (cl_hash_comparison_over s \<and> cl_blocks_idx_to_send s = [])"
  have "client_writes room (prepare_next_write_block t)" using live_prepare [of t room] w by (simp add: t)
  moreover have "cl_write_block (prepare_next_write_block t) = None \<longleftrightarrow> cl_blocks_idx_to_send s = []"
    using prepare_next_write_block_sends(3) [of t] by (simp add: t)
  ultimately show "client_live room ahead bs items hashes rest (prepare_next_write_block t)"
    using live more eq prepare_next_write_block_sends(1) [of t]
    by (auto simp: client_live_def client_listens_def client_counts_def client_pending_def t)
qed

lemma live_write:
  assumes live: "client_live room ahead bs items hashes rest s" and amount: "amount = client_total bs items hashes"
  shows "case client_arm_write s of
      Off \<Rightarrow> cl_write_block s = None
    | Waiting s' \<Rightarrow> client_live room ahead bs items hashes rest s' \<and> client_work amount s' \<le> client_work amount s
        \<and> (0 < accepts (fst (cl_tx s)) \<longrightarrow> client_work amount s' < client_work amount s) \<and> cl_rx s' = cl_rx s
        \<and> cl_remote_hashes s' = cl_remote_hashes s \<and> cl_hash_comparison_over s' = cl_hash_comparison_over s
    | Fired c s' \<Rightarrow> client_work amount s' < client_work amount s
        \<and> (c = Break \<and> client_sent_all room ahead bs items hashes s'
          \<or> c = Continue \<and> client_live room ahead bs items hashes rest s')"
proof (cases "cl_write_block s")
  case None
  then show ?thesis by (simp add: client_arm_write_def)
next
  case (Some rwb)
  obtain es o1 where w: "cl_tx s = (es, o1)" by fastforce
  obtain p rwb' es' o2 where r: "rwfb_write_to rwb (es, o1) = (p, rwb', es', o2)" by (metis prod_cases4)
  note B = block_written [OF live amount Some w r]
  show ?thesis
  proof (cases "p = Pending")
    case True
    let ?t = "s\<lparr>cl_tx := (es', o2), cl_write_block := Some rwb'\<rparr>"
    have arm: "client_arm_write s = Waiting ?t" using True Some w r by (simp add: client_arm_write_def)
    have "client_live room ahead bs items hashes rest ?t"
      using live Some B(1-3,5) True by (auto simp: client_live_parts client_pending_def)
    then show ?thesis using B(4) [of "Some rwb'"] B(6) w unfolding arm by auto
  next
    case False
    then have p: "p = Ready (Ok ())" "rwfb_remaining rwb' = []" "length o1 < length o2" using B(5) by auto
    let ?t = "s\<lparr>cl_tx := (es', o2), cl_write_block := None\<rparr>"
    have work: "client_work amount ?t < client_work amount s" using B(4) [of None] p(3) by simp
    note F = block_finished [OF live Some B(2) B(3) [unfolded p(2) append_Nil] refl]
    show ?thesis
    proof (cases "cl_hash_comparison_over s \<and> cl_blocks_idx_to_send s = []")
      case True
      then show ?thesis using F(1) Some w r p work by (simp add: client_arm_write_def)
    next
      case False
      then have "client_arm_write s = Fired Continue (prepare_next_write_block ?t)"
        using Some w r p by (auto simp: client_arm_write_def Let_def)
      moreover have "client_work amount (prepare_next_write_block ?t) = client_work amount ?t" by (simp add: client_work_def)
      ultimately show ?thesis using F(2) [OF False] work by simp
    qed
  qed
qed

lemma live_read:
  assumes live: "client_live room ahead bs items hashes rest s"
  shows "case client_arm_read s of
      Off \<Rightarrow> False
    | Waiting s' \<Rightarrow> client_live room ahead bs items hashes rest s' \<and> client_work amount s' \<le> client_work amount s
        \<and> (bytes_of (cl_rx s) \<noteq> [] \<longrightarrow> client_work amount s' < client_work amount s)
        \<and> cl_remote_hashes s' = cl_remote_hashes s \<and> cl_hash_comparison_over s' = cl_hash_comparison_over s
    | Fired c s' \<Rightarrow> c = Continue \<and> (\<exists>rest'. client_live room ahead bs items hashes rest' s')
        \<and> client_work amount s' < client_work amount s"
proof -
  obtain p rs es where r: "rrs_read_on (cl_read_string s) (cl_rx s) = (p, rs, es)" by (metis prod_cases3)
  have L: "rrs_inv 256 (cl_read_string s)" "list_all (acceptable 256) rest" "waits (cl_rx s) = 0"
    "end_of (cl_rx s) = StillOpen"
    "rrs_got (cl_read_string s) @ bytes_of (cl_rx s) @ ahead = concat (map string_message rest)"
    "\<not> cl_remote_hashes_done s"
    using live by (simp_all add: client_live_def client_listens_def)
  have "acceptable 256 []" by (simp add: acceptable_def)
  from L(1,2) this L(5,3) disjI1 [OF L(4)] r show ?thesis
  proof (cases rule: rrs.stream_read)
    case wait
    then have "client_live room ahead bs items hashes rest (s\<lparr>cl_rx := es, cl_read_string := rs\<rparr>)"
      using live L by (auto simp: client_live_def client_listens_def client_counts_def)
    with wait L r show ?thesis by (simp add: client_arm_read_def client_work_def)
  next
    case (message h rest')
    then have "client_live room ahead bs items hashes rest'
        (s\<lparr>cl_rx := es, cl_read_string := rs, cl_remote_hashes := cl_remote_hashes s @ [h]\<rparr>)"
      using live L by (auto simp: client_live_def client_listens_def client_counts_def)
    with message L r show ?thesis by (auto simp: client_arm_read_def client_work_def)
  qed (use L in simp)
qed

text \<open>Comparing the next block: it is queued if it differs, and the next index is due.\<close>

lemma live_compare:
  assumes live: "client_live room ahead bs items hashes rest s" and remote: "cl_remote_hashes s = remote # remotes"
    and item: "cl_hasher s = HsItem i hash data # evs" and t: "t = client_compare (s\<lparr>cl_hasher := evs\<rparr>) hash data"
  shows "client_writes room t" "client_listens ahead rest t" "client_work amount t < client_work amount s"
    "unat (cl_block_idx t) = Suc (unat (cl_block_idx s))" "unat (cl_block_idx t) \<le> unat (cl_end_block_idx t)"
    "hs_items (cl_hasher t) = drop (unat (cl_block_idx t)) items"
    "cl_remote_hashes t @ rest = drop (unat (cl_block_idx t)) hashes"
    "snd (cl_tx t) @ client_pending t @ client_out bs items hashes (unat (cl_block_idx t)) = client_out bs items hashes 0"
proof -
  let ?u = "s\<lparr>cl_hasher := evs\<rparr>" and ?k = "unat (cl_block_idx s)"
  have u: "cl_remote_hashes ?u = remote # remotes" using remote by simp
  note F = client_compare_fields [OF u, of hash data, simplified, folded t]
  have C: "?k \<le> unat (cl_end_block_idx s)" "length items = unat (cl_end_block_idx s)"
    "(i, hash, data) # hs_items evs = drop ?k items" "remote # remotes @ rest = drop ?k hashes"
    using live item remote by (simp_all add: client_live_def client_counts_def)
  have lt: "?k < unat (cl_end_block_idx s)" using arg_cong [OF C(3), of length] C(2) by simp
  then have k: "unat (cl_block_idx s + 1) = Suc ?k"
    using unsigned_less [of "cl_end_block_idx s", where ?'a = nat] by (simp add: unat_word_ariths)
  have S: "client_sends ?u"
    using live by (auto simp: client_live_def client_writes_def client_sends_def split: option.splits)
  show "client_writes room t"
    using live u unfolding t client_live_def client_writes_def
    by (auto simp: client_compare_def prepare_next_write_block_def Let_def rwfb_new_message block_message_def
        split: list.splits option.splits)
  show "client_listens ahead rest t" using live F by (simp add: client_live_def client_listens_def)
  show "unat (cl_block_idx t) = Suc ?k" "unat (cl_block_idx t) \<le> unat (cl_end_block_idx t)"
    using F k lt by simp_all
  show "hs_items (cl_hasher t) = drop (unat (cl_block_idx t)) items"
    "cl_remote_hashes t @ rest = drop (unat (cl_block_idx t)) hashes"
    using F k arg_cong [OF C(3), of tl] arg_cong [OF C(4), of tl] by (simp_all add: drop_Suc tl_drop)
  show "client_work amount t < client_work amount s" using F item by (simp add: client_work_def)
  have "client_pending t = client_pending s @ send_messages bs (if hash \<noteq> remote then [(word_of_nat ?k, data)] else [])"
    using client_compare_sends(2) [OF u S, of hash data] live unfolding t by (auto simp: client_live_def)
  then show "snd (cl_tx t) @ client_pending t @ client_out bs items hashes (unat (cl_block_idx t)) = client_out bs items hashes 0"
    using live F k client_out_step [OF C(3) [symmetric] C(4) [symmetric], of bs] by (simp add: client_live_def)
qed

lemma live_hasher_item:
  assumes live: "client_live room ahead bs items hashes rest s" and remote: "cl_remote_hashes s = remote # remotes"
    and item: "cl_hasher s = HsItem i hash data # evs" and going: "\<not> cl_hash_comparison_over s"
  obtains c s' where "client_arm_hasher s = Fired c s'" "client_work amount s' < client_work amount s"
    "c = Break \<and> client_sent_all room ahead bs items hashes s' \<or> c = Continue \<and> client_live room ahead bs items hashes rest s'"
proof -
  let ?t = "client_compare (s\<lparr>cl_hasher := evs\<rparr>) hash data"
  note T = live_compare [OF live remote item refl]
  have u: "cl_remote_hashes (s\<lparr>cl_hasher := evs\<rparr>) = remote # remotes" using remote by simp
  note F = client_compare_fields [OF u, of hash data, simplified]
  have len: "length items = unat (cl_end_block_idx s)" "length hashes = unat (cl_end_block_idx s)"
    "hs_no_error evs" "cl_block_size s = bs"
    using live item by (simp_all add: client_live_def client_counts_def)
  have last: "cl_block_idx ?t = cl_end_block_idx ?t \<longleftrightarrow> hs_items (cl_hasher ?t) = []"
    using T(5,6) len(1) F by (auto simp: word_unat_eq_iff)
  show thesis
  proof (cases "hs_items (cl_hasher ?t) = []")
    case False
    then have "client_live room ahead bs items hashes rest ?t"
      using T len F going by (auto simp: client_live_def client_counts_def)
    then show thesis using that [of Continue ?t] T(3) last False remote item going
      by (simp add: client_arm_hasher_def Let_def)
  next
    case True
    let ?v = "?t\<lparr>cl_hash_comparison_over := True\<rparr>"
    have arm: "client_arm_hasher s = Fired (if cl_write_block ?t = None then Break else Continue) ?v"
      using last True remote item going by (simp add: client_arm_hasher_def Let_def)
    have work: "client_work amount ?v < client_work amount s" using T(3) by (simp add: client_work_def)
    have over: "client_out bs items hashes (unat (cl_block_idx ?t)) = []" using T(6) True by (simp add: client_out_def)
    show thesis
    proof (cases "cl_write_block ?t = None")
      case none: True
      then have "client_pending ?t = []" using T(1) by (simp add: client_writes_def client_pending_def)
      moreover have "ahead = []" using nothing_ahead [OF T(2,7), of items] T(6) True len by simp
      ultimately have "client_sent_all room ahead bs items hashes ?v"
        using T(1,8) over True by (simp add: client_sent_all_def client_writes_def)
      then show thesis using that [OF arm work] none by simp
    next
      case some: False
      then have "client_live room ahead bs items hashes rest ?v"
        using T len F True by (auto simp: client_live_def client_counts_def client_listens_def)
      then show thesis using that [OF arm work] some by simp
    qed
  qed
qed

lemma live_hasher:
  assumes live: "client_live room ahead bs items hashes rest s"
  shows "case client_arm_hasher s of
      Off \<Rightarrow> cl_remote_hashes s = [] \<or> cl_hash_comparison_over s
    | Waiting s' \<Rightarrow> client_live room ahead bs items hashes rest s' \<and> client_work amount s' < client_work amount s
    | Fired c s' \<Rightarrow> client_work amount s' < client_work amount s
        \<and> (c = Break \<and> client_sent_all room ahead bs items hashes s'
          \<or> c = Continue \<and> client_live room ahead bs items hashes rest s')"
proof (cases "cl_remote_hashes s = [] \<or> cl_hash_comparison_over s")
  case True
  then show ?thesis by (simp add: client_arm_hasher_def)
next
  case False
  then obtain remote remotes where remote: "cl_remote_hashes s = remote # remotes" by (cases "cl_remote_hashes s") auto
  have "hs_items (cl_hasher s) \<noteq> []" "hs_no_error (cl_hasher s)"
    using live False by (simp_all add: client_live_def client_counts_def)
  then consider (wait) evs where "cl_hasher s = HsWait # evs" | (item) i hash data evs where "cl_hasher s = HsItem i hash data # evs"
    by (cases "cl_hasher s" rule: hs_recv.cases) auto
  then show ?thesis
  proof cases
    case wait
    with live have "client_live room ahead bs items hashes rest (s\<lparr>cl_hasher := evs\<rparr>)"
      by (simp add: client_live_def client_counts_def client_listens_def)
    with wait False show ?thesis by (simp add: client_arm_hasher_def client_work_def)
  next
    case item
    have "\<not> cl_hash_comparison_over s" using False by blast
    from live_hasher_item [OF live remote item this, of amount] obtain c s' where
      "client_arm_hasher s = Fired c s'" "client_work amount s' < client_work amount s"
      "c = Break \<and> client_sent_all room ahead bs items hashes s' \<or> c = Continue \<and> client_live room ahead bs items hashes rest s'" .
    then show ?thesis by simp
  qed
qed

section \<open>One iteration\<close>

interpretation live_client: live_loop "[client_arm_timer, client_arm_write, client_arm_read, client_arm_hasher]"
    "\<lambda>s. \<exists>rest. client_live room ahead bs items hashes rest s" "client_work (client_total bs items hashes)"
    "client_sent_all room ahead bs items hashes"
  for room ahead bs items hashes
proof unfold_locales
  fix a s
  assume a: "a \<in> set [client_arm_timer, client_arm_write, client_arm_read, client_arm_hasher]"
    and "\<exists>rest. client_live room ahead bs items hashes rest s"
  then obtain rest where live: "client_live room ahead bs items hashes rest s" by blast
  from a live_timer [OF live, of "client_total bs items hashes"] live_write [OF live refl]
    live_read [OF live, of "client_total bs items hashes"] live_hasher [OF live, of "client_total bs items hashes"]
  show "case a s of
      Off \<Rightarrow> True
    | Waiting s' \<Rightarrow> (\<exists>rest. client_live room ahead bs items hashes rest s')
        \<and> client_work (client_total bs items hashes) s' \<le> client_work (client_total bs items hashes) s
    | Fired c s' \<Rightarrow> c = Break \<and> client_sent_all room ahead bs items hashes s'
        \<or> c = Continue \<and> (\<exists>rest. client_live room ahead bs items hashes rest s')
          \<and> client_work (client_total bs items hashes) s' < client_work (client_total bs items hashes) s"
    by (cases "a s") auto
next
  fix s assume "\<exists>rest. client_live room ahead bs items hashes rest s"
  then obtain rest where "client_live room ahead bs items hashes rest s" by blast
  from live_timer [OF this] have "client_arm_timer s \<noteq> Off" by auto
  then show "\<exists>a \<in> set [client_arm_timer, client_arm_write, client_arm_read, client_arm_hasher]. a s \<noteq> Off" by simp
qed

text \<open>An arm that waits leaves alone what the later arms look at.\<close>

lemma client_early_arms:
  assumes "client_live room ahead bs items hashes rest s" and "b s = Waiting s'"
  shows "b = client_arm_timer \<Longrightarrow> cl_tx s' = cl_tx s \<and> cl_write_block s' = cl_write_block s"
    and "b = client_arm_timer \<or> b = client_arm_write \<Longrightarrow> cl_rx s' = cl_rx s"
    and "b = client_arm_timer \<or> b = client_arm_write \<or> b = client_arm_read \<Longrightarrow>
      cl_remote_hashes s' = cl_remote_hashes s \<and> cl_hash_comparison_over s' = cl_hash_comparison_over s"
  using assms(2) live_timer [OF assms(1)] live_write [OF assms(1) refl] live_read [OF assms(1)] by auto

text \<open>
  The client makes progress when it may write, when bytes have arrived, or when a hash can be compared; the first two do not
  depend on the arm of the hash stream.
\<close>

lemma write_progress:
  assumes live: "client_live room ahead bs items hashes rest s"
    and ready: "cl_write_block s \<noteq> None \<and> 0 < accepts (fst (cl_tx s))" and later: "set later \<subseteq> {client_arm_hasher}"
    and sel: "select_arms ([client_arm_timer, client_arm_write, client_arm_read] @ later) w s = (c, s')"
  shows "client_work (client_total bs items hashes) s' < client_work (client_total bs items hashes) s \<or> c = Break"
proof -
  let ?T = "client_total bs items hashes" and ?I = "\<lambda>s. \<exists>rest. client_live room ahead bs items hashes rest s"
  have inv: "?I s" using live by blast
  show ?thesis
  proof (rule live_client.iteration_progress [where s = s and w = w and c = c and s' = s'
        and bs = "[client_arm_timer]" and a = client_arm_write and bs' = "client_arm_read # later"
        and ready = "\<lambda>s. cl_write_block s \<noteq> None \<and> 0 < accepts (fst (cl_tx s))", OF _ inv ready])
    show "client_arm_write t \<noteq> Off \<and> (\<forall>t'. client_arm_write t = Waiting t' \<longrightarrow> client_work ?T t' < client_work ?T t)"
      if "?I t" "cl_write_block t \<noteq> None \<and> 0 < accepts (fst (cl_tx t))" for t
      using that live_write [OF _ refl, of room ahead bs items hashes _ t] by fastforce
    show "cl_write_block t' \<noteq> None \<and> 0 < accepts (fst (cl_tx t'))"
      if "b \<in> set [client_arm_timer]" "?I t" "cl_write_block t \<noteq> None \<and> 0 < accepts (fst (cl_tx t))" "b t = Waiting t'" for b t t'
      using that client_early_arms(1) [of room ahead bs items hashes _ t b t'] by auto
  qed (use sel later in auto)
qed

lemma read_progress:
  assumes live: "client_live room ahead bs items hashes rest s"
    and ready: "bytes_of (cl_rx s) \<noteq> []" and later: "set later \<subseteq> {client_arm_hasher}"
    and sel: "select_arms ([client_arm_timer, client_arm_write, client_arm_read] @ later) w s = (c, s')"
  shows "client_work (client_total bs items hashes) s' < client_work (client_total bs items hashes) s \<or> c = Break"
proof -
  let ?T = "client_total bs items hashes" and ?I = "\<lambda>s. \<exists>rest. client_live room ahead bs items hashes rest s"
  have inv: "?I s" using live by blast
  show ?thesis
  proof (rule live_client.iteration_progress [where s = s and w = w and c = c and s' = s'
        and bs = "[client_arm_timer, client_arm_write]" and a = client_arm_read and bs' = later
        and ready = "\<lambda>s. bytes_of (cl_rx s) \<noteq> []", OF _ inv ready])
    show "client_arm_read t \<noteq> Off \<and> (\<forall>t'. client_arm_read t = Waiting t' \<longrightarrow> client_work ?T t' < client_work ?T t)"
      if "?I t" "bytes_of (cl_rx t) \<noteq> []" for t
      using that live_read [of room ahead bs items hashes _ t ?T] by fastforce
    show "bytes_of (cl_rx t') \<noteq> []"
      if "b \<in> set [client_arm_timer, client_arm_write]" "?I t" "bytes_of (cl_rx t) \<noteq> []" "b t = Waiting t'" for b t t'
      using that client_early_arms(2) [of room ahead bs items hashes _ t b t'] by auto
  qed (use sel later in auto)
qed

lemma compare_progress:
  assumes live: "client_live room ahead bs items hashes rest s"
    and ready: "cl_remote_hashes s \<noteq> [] \<and> \<not> cl_hash_comparison_over s" and sel: "client_select s = (c, s')"
  shows "client_work (client_total bs items hashes) s' < client_work (client_total bs items hashes) s \<or> c = Break"
proof -
  let ?T = "client_total bs items hashes" and ?I = "\<lambda>s. \<exists>rest. client_live room ahead bs items hashes rest s"
  have inv: "?I s" using live by blast
  show ?thesis
  proof (rule live_client.iteration_progress [where s = s and w = False and c = c and s' = s'
        and bs = "[client_arm_timer, client_arm_write, client_arm_read]" and a = client_arm_hasher and bs' = "[]"
        and ready = "\<lambda>s. cl_remote_hashes s \<noteq> [] \<and> \<not> cl_hash_comparison_over s", OF _ inv ready])
    show "client_arm_hasher t \<noteq> Off \<and> (\<forall>t'. client_arm_hasher t = Waiting t' \<longrightarrow> client_work ?T t' < client_work ?T t)"
      if "?I t" "cl_remote_hashes t \<noteq> [] \<and> \<not> cl_hash_comparison_over t" for t
      using that live_hasher [of room ahead bs items hashes _ t ?T] by fastforce
    show "cl_remote_hashes t' \<noteq> [] \<and> \<not> cl_hash_comparison_over t'"
      if "b \<in> set [client_arm_timer, client_arm_write, client_arm_read]" "?I t"
        "cl_remote_hashes t \<noteq> [] \<and> \<not> cl_hash_comparison_over t" "b t = Waiting t'" for b t t'
      using that client_early_arms(3) [of room ahead bs items hashes _ t b t'] by auto
  qed (use sel in \<open>simp_all add: client_select_def\<close>)
qed

lemma client_progress:
  assumes "client_live room ahead bs items hashes rest s"
    and "cl_write_block s \<noteq> None \<and> 0 < accepts (fst (cl_tx s)) \<or> bytes_of (cl_rx s) \<noteq> []
      \<or> cl_remote_hashes s \<noteq> [] \<and> \<not> cl_hash_comparison_over s" and sel: "client_select s = (c, s')"
  shows "client_work (client_total bs items hashes) s' < client_work (client_total bs items hashes) s \<or> c = Break"
proof -
  have "select_arms ([client_arm_timer, client_arm_write, client_arm_read] @ [client_arm_hasher]) False s = (c, s')"
    using sel by (simp only: client_select_def append.simps)
  from write_progress [OF assms(1) _ _ this] read_progress [OF assms(1) _ _ this] compare_progress [OF assms(1) _ sel] assms(2)
  show ?thesis by auto
qed

text \<open>The first three arms make progress alone, whatever the hash stream has to offer.\<close>

abbreviation client_early :: "(client_loop \<Rightarrow> client_loop arm) list" where
  "client_early \<equiv> [client_arm_timer, client_arm_write, client_arm_read]"

lemma client_early_progress:
  assumes "client_live room ahead bs items hashes rest s"
    and "cl_write_block s \<noteq> None \<and> 0 < accepts (fst (cl_tx s)) \<or> bytes_of (cl_rx s) \<noteq> []"
    and sel: "select_arms client_early w s = (c, s')"
  shows "client_work (client_total bs items hashes) s' < client_work (client_total bs items hashes) s \<or> c = Break"
proof -
  have "select_arms (client_early @ []) w s = (c, s')" using sel by simp
  from write_progress [OF assms(1) _ _ this] read_progress [OF assms(1) _ _ this] assms(2) show ?thesis by auto
qed

end
