(* ===== verification/Server_Handshake.thy ===== *)
theory Server_Handshake
  imports Event_Loop
begin

text \<open>
  The first part of \<open>process_new_client\<close> in \<open>server.rs\<close>: a sequence of awaited reads and
  writes with its early returns and the preparation of the destination file. The properties
  say who may touch the file system, when, and what the destination is like when the session starts.
\<close>

section \<open>The file system\<close>

text \<open>
  The part of \<open>std::fs\<close> the server uses: file contents by path, and the failures of the
  environment (a path whose metadata cannot be read, a path that cannot be opened for
  writing, a length that cannot be set).
\<close>

datatype io_kind = NotFound | PermissionDeniedKind | OtherKind

record fs =
  files :: "rstring \<rightharpoonup> u8 list"
  stat_fault :: "rstring \<Rightarrow> io_kind option"
  open_fault :: "rstring \<Rightarrow> bool"
  set_len_fault :: "rstring \<Rightarrow> bool"

definition fs_metadata_len :: "fs \<Rightarrow> rstring \<Rightarrow> io_kind + nat" where
  "fs_metadata_len F p =
     (case stat_fault F p of
        Some k \<Rightarrow> Inl k
      | None \<Rightarrow> (case files F p of None \<Rightarrow> Inl NotFound | Some d \<Rightarrow> Inr (length d)))"

text \<open>\<open>File::options().write(true).open(p)\<close> needs an existing file; \<open>File::create(p)\<close> makes an empty one.\<close>

definition fs_open_write :: "fs \<Rightarrow> rstring \<Rightarrow> unit result" where
  "fs_open_write F p = (if open_fault F p \<or> files F p = None then Err IoError else Ok ())"

definition fs_create :: "fs \<Rightarrow> rstring \<Rightarrow> fs result" where
  "fs_create F p = (if open_fault F p then Err IoError else Ok (F\<lparr>files := (files F)(p \<mapsto> [])\<rparr>))"

definition fs_set_len :: "fs \<Rightarrow> rstring \<Rightarrow> nat \<Rightarrow> fs result" where
  "fs_set_len F p n =
     (if set_len_fault F p then Err IoError
      else case files F p of
        None \<Rightarrow> Err IoError
      | Some d \<Rightarrow> Ok (F\<lparr>files := (files F)(p \<mapsto> resize d n)\<rparr>))"

text \<open>A file system in which nothing fails.\<close>

definition faultless :: "(rstring \<rightharpoonup> u8 list) \<Rightarrow> fs" where
  "faultless m = \<lparr>files = m, stat_fault = \<lambda>_. None, open_fault = \<lambda>_. False, set_len_fault = \<lambda>_. False\<rparr>"

section \<open>The handshake\<close>

record server_conn = conn +
  disk :: fs

type_synonym 'a server_io = "server_conn \<Rightarrow> 'a result poll \<times> server_conn"

text \<open>What the handshake settles for the event loop.\<close>

record session =
  ses_path :: rstring
  ses_block_size :: usize
  ses_filesize :: u64
  ses_algorithm :: HashAlgorithm

datatype handshake = Rejected StatusCode | Accepted session

text \<open>Lines 56--77: check the size of the destination, or create it.\<close>

definition prepare_dest :: "rstring \<Rightarrow> u64 \<Rightarrow> bool \<Rightarrow> StatusCode option server_io" where
  "prepare_dest dest_path filesize force_truncate c =
     (case fs_metadata_len (disk c) dest_path of
        Inr len \<Rightarrow>
          (if len = unat filesize \<or> force_truncate then
             (case fs_open_write (disk c) dest_path of
                Inl e \<Rightarrow> (Ready (Err e), c)
              | Inr _ \<Rightarrow>
                  (case fs_set_len (disk c) dest_path (unat filesize) of
                     Inl e \<Rightarrow> (Ready (Err e), c)
                   | Inr F \<Rightarrow> (Ready (Ok None), c\<lparr>disk := F\<rparr>)))
           else (Ready (Ok (Some FileSizeDiffers)), c))
      | Inl NotFound \<Rightarrow>
          (case fs_create (disk c) dest_path of
             Inl e \<Rightarrow> (Ready (Err e), c)
           | Inr F \<Rightarrow>
               (case fs_set_len F dest_path (unat filesize) of
                  Inl e \<Rightarrow> (Ready (Err e), c\<lparr>disk := F\<rparr>)
                | Inr F' \<Rightarrow> (Ready (Ok None), c\<lparr>disk := F'\<rparr>)))
      | Inl PermissionDeniedKind \<Rightarrow> (Ready (Ok (Some PermissionDenied)), c)
      | Inl OtherKind \<Rightarrow> (Ready (Err IoError), c))"

text \<open>Lines 37--79: the parameters of the synchronisation and the last acknowledgement.\<close>

definition receive_parameters :: "crates \<Rightarrow> handshake server_io" where
  "receive_parameters C =
     io_bind (read_string C 4096) (\<lambda>dest_path.
     io_bind (read_u64 C) (\<lambda>block_size.
     if block_size = 0 \<or> block_size > 1024 * 1024 * 1024 then io_return (Rejected InvalidBlockSize)
     else
     io_bind (read_u64 C) (\<lambda>filesize.
     io_bind read_u8 (\<lambda>force.
     io_bind read_u8 (\<lambda>algo.
     case hash_algorithm_of_u8 algo of
       None \<Rightarrow> io_return (Rejected UnknownHashAlgorithm)
     | Some hash_algorithm \<Rightarrow>
         io_bind (prepare_dest dest_path filesize (force \<noteq> 0)) (\<lambda>refused.
         case refused of
           Some status \<Rightarrow> io_return (Rejected status)
         | None \<Rightarrow>
             io_bind (write_status Ack) (\<lambda>_.
             io_return (Accepted
               \<lparr>ses_path = dest_path, ses_block_size = block_size, ses_filesize = filesize,
                ses_algorithm = hash_algorithm\<rparr>))))))))"

text \<open>Lines 30--35: the protocol version.\<close>

definition check_version :: "crates \<Rightarrow> handshake server_io" where
  "check_version C =
     io_bind read_u8 (\<lambda>client_protocol_version.
     if client_protocol_version \<noteq> PROTOCOL_VERSION then io_return (Rejected UnsupportedProtocolVersion)
     else io_bind (write_status Ack) (\<lambda>_. receive_parameters C))"

text \<open>Lines 18--28: the secret.\<close>

definition server_handshake :: "crates \<Rightarrow> rstring \<Rightarrow> handshake server_io" where
  "server_handshake C secret =
     io_bind read_u8 (\<lambda>secret_len.
     if secret_len \<noteq> word_of_nat (length secret) then io_return (Rejected InvalidSecret)
     else
     io_bind (io_read_exact (unat secret_len)) (\<lambda>client_secret.
     if client_secret \<noteq> secret then io_return (Rejected InvalidSecret)
     else io_bind (write_status Ack) (\<lambda>_. check_version C)))"

section \<open>What the handshake may change\<close>

lemma io_bindE:
  assumes "io_bind m f c = (r, c')"
  obtains (ok) x c1 where "m c = (Ready (Ok x), c1)" "f x c1 = (r, c')"
    | (err) e where "m c = (Ready (Err e), c')" "r = Ready (Err e)"
    | (pending) "m c = (Pending, c')" "r = Pending"
proof -
  obtain p c1 where m: "m c = (p, c1)" by fastforce
  show thesis
  proof (cases p)
    case Pending
    with m assms pending show ?thesis by simp
  next
    case (Ready x)
    with m assms ok err show ?thesis by (cases x) simp_all
  qed
qed

lemma io_bind_Ok_iff:
  "io_bind m f c = (Ready (Ok y), c') \<longleftrightarrow> (\<exists>x c1. m c = (Ready (Ok x), c1) \<and> f x c1 = (Ready (Ok y), c'))"
  by (auto elim: io_bindE)

text \<open>Reading and sending leave the disk alone; only sending adds to the output.\<close>

definition only_reads :: "'a server_io \<Rightarrow> bool" where
  "only_reads m \<longleftrightarrow> (\<forall>c r c'. m c = (r, c') \<longrightarrow> disk c' = disk c \<and> tx_out c' = tx_out c)"

lemma only_reads_bind:
  assumes "only_reads m" and "\<And>x. only_reads (f x)"
  shows "only_reads (io_bind m f)"
  unfolding only_reads_def
proof (intro allI impI)
  fix c r c'
  assume "io_bind m f c = (r, c')"
  then show "disk c' = disk c \<and> tx_out c' = tx_out c"
  proof (cases rule: io_bindE)
    case (ok x c1)
    with assms show ?thesis unfolding only_reads_def by metis
  qed (use assms(1) in \<open>auto simp: only_reads_def\<close>)
qed

lemma only_reads_exact: "only_reads (io_read_exact n)"
  by (auto simp: only_reads_def io_read_exact_def split: prod.splits)

lemma only_reads_primitive:
  "only_reads (io_return x)" "only_reads (io_fail e)" "only_reads (io_lift res)"
  by (simp_all add: only_reads_def)

lemma only_reads_helpers: "only_reads read_u8" "only_reads (read_u64 C)" "only_reads (read_string C max_len)"
  unfolding read_u8_def read_u64_def read_string_def
  by (auto intro!: only_reads_bind only_reads_exact only_reads_primitive)

lemma write_status_keeps_disk: "write_status st c = (r, c') \<Longrightarrow> disk c' = disk c"
  by (auto simp: write_status_def write_u8_def io_write_all_def split: prod.splits)

lemma only_readsD: "only_reads m \<Longrightarrow> m c = (r, c') \<Longrightarrow> disk c' = disk c \<and> tx_out c' = tx_out c"
  by (simp add: only_reads_def)

lemmas reads_keep = only_reads_exact only_reads_helpers
lemmas reads_keepD = reads_keep [THEN only_readsD]

text \<open>\<open>rejects_clean m\<close>: when \<open>m\<close> ends in a rejection, the disk is as before.\<close>

definition rejects_clean :: "handshake server_io \<Rightarrow> bool" where
  "rejects_clean m \<longleftrightarrow> (\<forall>c st c'. m c = (Ready (Ok (Rejected st)), c') \<longrightarrow> disk c' = disk c)"

lemma rejects_clean_return: "rejects_clean (io_return h)"
  by (simp add: rejects_clean_def)

lemma rejects_clean_bind:
  assumes "\<And>c x c'. m c = (Ready (Ok x), c') \<Longrightarrow> disk c' = disk c" and "\<And>x. rejects_clean (f x)"
  shows "rejects_clean (io_bind m f)"
  unfolding rejects_clean_def
proof (intro allI impI)
  fix c st c'
  assume "io_bind m f c = (Ready (Ok (Rejected st)), c')"
  then obtain x c1 where "m c = (Ready (Ok x), c1)" "f x c1 = (Ready (Ok (Rejected st)), c')"
    by (rule io_bindE) simp_all
  with assms show "disk c' = disk c" unfolding rejects_clean_def by metis
qed

lemma prepare_dest_refused:
  "prepare_dest p sz force c = (Ready (Ok (Some st)), c') \<Longrightarrow> c' = c"
  by (auto simp: prepare_dest_def split: sum.splits io_kind.splits if_splits)

lemma receive_parameters_rejects_clean: "rejects_clean (receive_parameters C)"
proof -
  have last: "rejects_clean (io_bind (prepare_dest p sz force) (\<lambda>refused.
      case refused of Some status \<Rightarrow> io_return (Rejected status)
      | None \<Rightarrow> io_bind (write_status Ack) (\<lambda>_. io_return (Accepted ses))))" for p sz force ses
    unfolding rejects_clean_def
    by (auto elim!: io_bindE dest: prepare_dest_refused split: option.splits)
  show ?thesis unfolding receive_parameters_def
    by (intro rejects_clean_bind; (use reads_keepD in blast)?)
      (auto intro!: rejects_clean_bind rejects_clean_return last dest: reads_keepD split: option.splits)
qed

lemma check_version_rejects_clean: "rejects_clean (check_version C)"
  unfolding check_version_def
  by (auto intro!: rejects_clean_bind rejects_clean_return receive_parameters_rejects_clean
      dest: reads_keepD write_status_keeps_disk)

lemma server_handshake_rejects_clean: "rejects_clean (server_handshake C secret)"
  unfolding server_handshake_def
  by (auto intro!: rejects_clean_bind rejects_clean_return check_version_rejects_clean
      dest: reads_keepD) (blast dest: reads_keepD write_status_keeps_disk)+

text \<open>
  C26: A client that is turned away with a status other than \<open>Ack\<close> (wrong secret, version, block
  size, hash algorithm, file size or permission) leaves the file system exactly as it was.
\<close>

theorem rejected_leaves_disk:
  assumes "server_handshake C secret c = (Ready (Ok (Rejected st)), c')"
  shows "disk c' = disk c"
  using server_handshake_rejects_clean assms unfolding rejects_clean_def by blast

lemmas handshake_eval = server_handshake_def read_u8_def io_bind_def io_read_exact_def
  read_exact_from.simps

theorem rejected_leaves_disk_witness:
  "disk (snd (server_handshake sample_crates [120]
      \<lparr>rx = [Chunk [1], Wait, Chunk [121, 1]], tx_sched = [], tx_out = [], disk = faultless Map.empty\<rparr>))
    = disk \<lparr>rx = [Chunk [1], Wait, Chunk [121, 1]], tx_sched = [], tx_out = [], disk = faultless Map.empty\<rparr>"
  by (rule rejected_leaves_disk [of sample_crates "[120]" _ InvalidSecret]) (simp add: handshake_eval)

text \<open>Reading backwards: what a successful read says about the stream.\<close>

lemma io_read_exact_done:
  assumes "io_read_exact n c = (Ready (Ok bs), c')"
  shows "length bs = n \<and> bytes_of (rx c) = bs @ bytes_of (rx c')"
proof -
  from assms have "read_exact n (rx c) = (Ready (Ok bs), rx c')"
    by (auto simp: io_read_exact_def split: prod.splits)
  from read_exact_cases [OF this] show ?thesis by auto
qed

lemma read_u8_done:
  assumes "read_u8 c = (Ready (Ok b), c')"
  shows "bytes_of (rx c) = b # bytes_of (rx c')"
proof -
  from assms obtain bs where r: "io_read_exact 1 c = (Ready (Ok bs), c')" and b: "b = bs ! 0"
    unfolding read_u8_def by (auto elim: io_bindE)
  from io_read_exact_done [OF r] b show ?thesis by (cases bs) auto
qed

text \<open>
  Unless the stream begins with the length of the secret and the secret itself, the handshake itself sends no byte, changes no
  file and ends in a rejection, in an error or not at all.
\<close>

lemma handshake_without_secret:
  assumes "\<And>rest. bytes_of (rx c) \<noteq> word_of_nat (length secret) # secret @ rest"
    and "server_handshake C secret c = (r, c')"
  shows "disk c' = disk c \<and> tx_out c' = tx_out c \<and> (\<forall>h. r = Ready (Ok h) \<longrightarrow> h = Rejected InvalidSecret)"
  using assms(2) unfolding server_handshake_def
proof (cases rule: io_bindE)
  case (ok b c1)
  note c1 = reads_keepD(2) [OF ok(1)] and b = read_u8_done [OF ok(1)]
  show ?thesis
  proof (cases "b = word_of_nat (length secret)")
    case True
    with ok(2) have "io_bind (io_read_exact (unat b)) (\<lambda>client_secret.
        if client_secret \<noteq> secret then io_return (Rejected InvalidSecret)
        else io_bind (write_status Ack) (\<lambda>_. check_version C)) c1 = (r, c')" by simp
    then show ?thesis
    proof (cases rule: io_bindE)
      case (ok s c2)
      have "s \<noteq> secret" using io_read_exact_done [OF ok(1)] b True assms(1) by auto
      with ok c1 reads_keepD(1) [OF ok(1)] show ?thesis by auto
    qed (use c1 reads_keepD(1) in auto)
  qed (use c1 ok(2) in auto)
qed (use reads_keepD(2) in auto)

section \<open>The destination when a session is accepted\<close>

text \<open>What the destination held before, as \<open>metadata\<close> saw it.\<close>

definition dest_before :: "fs \<Rightarrow> rstring \<Rightarrow> u8 list" where
  "dest_before F p =
     (case fs_metadata_len F p of
        Inl _ \<Rightarrow> []
      | Inr _ \<Rightarrow> (case files F p of None \<Rightarrow> [] | Some d \<Rightarrow> d))"

lemma prepare_dest_ready:
  assumes "prepare_dest p sz force c = (Ready (Ok None), c')"
  shows "c' = c\<lparr>disk := (disk c)\<lparr>files := (files (disk c))(p \<mapsto> resize (dest_before (disk c) p) (unat sz))\<rparr>\<rparr>"
  using assms
  by (auto simp: prepare_dest_def dest_before_def fs_set_len_def fs_create_def fs_open_write_def
      split: sum.splits io_kind.splits if_splits option.splits)

lemma receive_parameters_accepted:
  assumes "receive_parameters C c = (Ready (Ok (Accepted ses)), c')"
  obtains c1 c2 force where "disk c1 = disk c" "tx_out c1 = tx_out c"
    "prepare_dest (ses_path ses) (ses_filesize ses) force c1 = (Ready (Ok None), c2)"
    "write_status Ack c2 = (Ready (Ok ()), c')"
    "0 < ses_block_size ses" "ses_block_size ses \<le> 1024 * 1024 * 1024"
proof -
  from assms obtain path c1 bs c2 sz c3 fo c4 al c5 c6 alg where
    r: "read_string C 4096 c = (Ready (Ok path), c1)" "read_u64 C c1 = (Ready (Ok bs), c2)"
       "read_u64 C c2 = (Ready (Ok sz), c3)" "read_u8 c3 = (Ready (Ok fo), c4)" "read_u8 c4 = (Ready (Ok al), c5)"
    and rest: "bs \<noteq> 0" "bs \<le> 1024 * 1024 * 1024"
       "prepare_dest path sz (fo \<noteq> 0) c5 = (Ready (Ok None), c6)" "write_status Ack c6 = (Ready (Ok ()), c')"
       "ses = \<lparr>ses_path = path, ses_block_size = bs, ses_filesize = sz, ses_algorithm = alg\<rparr>"
    unfolding receive_parameters_def
    by (auto simp: io_bind_Ok_iff not_less split: if_splits option.splits)
  have "disk c5 = disk c" "tx_out c5 = tx_out c"
    using reads_keepD(4) [OF r(1)] reads_keepD(3) [OF r(2)] reads_keepD(3) [OF r(3)]
      reads_keepD(2) [OF r(4)] reads_keepD(2) [OF r(5)] by simp_all
  then show thesis using rest that by (simp add: word_neq_0_conv)
qed

lemma server_handshake_accepted:
  assumes "server_handshake C secret c = (Ready (Ok (Accepted ses)), c')"
  shows "disk c' = (disk c)\<lparr>files := (files (disk c))(ses_path ses \<mapsto>
      resize (dest_before (disk c) (ses_path ses)) (unat (ses_filesize ses)))\<rparr>
    \<and> tx_out c' = tx_out c @ [0, 0, 0] \<and> 0 < ses_block_size ses \<and> ses_block_size ses \<le> 1024 * 1024 * 1024"
proof -
  from assms obtain b c1 s c2 c3 v c4 c5 where
    r: "read_u8 c = (Ready (Ok b), c1)" "io_read_exact (unat b) c1 = (Ready (Ok s), c2)"
      "write_status Ack c2 = (Ready (Ok ()), c3)" "read_u8 c3 = (Ready (Ok v), c4)"
      "write_status Ack c4 = (Ready (Ok ()), c5)" "receive_parameters C c5 = (Ready (Ok (Accepted ses)), c')"
    unfolding server_handshake_def check_version_def
    by (auto simp: io_bind_Ok_iff split: if_splits)
  from r(6) obtain c6 c7 force where p: "disk c6 = disk c5" "tx_out c6 = tx_out c5"
    "prepare_dest (ses_path ses) (ses_filesize ses) force c6 = (Ready (Ok None), c7)"
    "write_status Ack c7 = (Ready (Ok ()), c')"
    "0 < ses_block_size ses" "ses_block_size ses \<le> 1024 * 1024 * 1024"
    by (rule receive_parameters_accepted)
  have "disk c1 = disk c \<and> tx_out c1 = tx_out c" "disk c2 = disk c1 \<and> tx_out c2 = tx_out c1"
    "disk c4 = disk c3 \<and> tx_out c4 = tx_out c3"
    using reads_keepD(2) [OF r(1)] reads_keepD(1) [OF r(2)] reads_keepD(2) [OF r(4)] by simp_all
  moreover have "tx_out c3 = tx_out c2 @ [0]" "tx_out c5 = tx_out c4 @ [0]" "tx_out c' = tx_out c7 @ [0]"
    using r(3,5) p(4) [THEN write_status_done] write_status_done unfolding sent_def by force+
  ultimately show ?thesis
    using p r(3,5) [THEN write_status_keeps_disk] p(4) [THEN write_status_keeps_disk]
      prepare_dest_ready [OF p(3)] by simp
qed

text \<open>
  C27: When a session is accepted the client has received exactly three \<open>Ack\<close> bytes, the block size
  is between 1 byte and 1 GiB, the destination has the announced size and holds its former
  contents truncated or extended with zeros, and no other file has changed.
\<close>

theorem accepted_prepares_dest:
  assumes "server_handshake C secret c = (Ready (Ok (Accepted ses)), c')"
  shows "disk c' = (disk c)\<lparr>files := (files (disk c))(ses_path ses \<mapsto>
      resize (dest_before (disk c) (ses_path ses)) (unat (ses_filesize ses)))\<rparr>
    \<and> tx_out c' = tx_out c @ [0, 0, 0] \<and> 0 < ses_block_size ses \<and> ses_block_size ses \<le> 1024 * 1024 * 1024"
  using assms by (rule server_handshake_accepted)

section \<open>A complete handshake\<close>

text \<open>The bytes a client sends up to the start of the synchronisation.\<close>

definition parameters_message :: "session \<Rightarrow> bool \<Rightarrow> u8 list" where
  "parameters_message ses force =
     string_message (ses_path ses) @ be_bytes (ses_block_size ses) @ be_bytes (ses_filesize ses)
     @ [if force then 1 else 0] @ [hash_algorithm_to_u8 (ses_algorithm ses)]"

definition handshake_message :: "rstring \<Rightarrow> session \<Rightarrow> bool \<Rightarrow> u8 list" where
  "handshake_message secret ses force =
     [word_of_nat (length secret)] @ secret @ [PROTOCOL_VERSION] @ parameters_message ses force"

definition valid_session :: "session \<Rightarrow> bool" where
  "valid_session ses \<longleftrightarrow> utf8_valid (ses_path ses) \<and> length (ses_path ses) \<le> 4096
     \<and> 0 < ses_block_size ses \<and> ses_block_size ses \<le> 1024 * 1024 * 1024"

definition no_faults :: "fs \<Rightarrow> rstring \<Rightarrow> bool" where
  "no_faults F p \<longleftrightarrow> stat_fault F p = None \<and> \<not> open_fault F p \<and> \<not> set_len_fault F p"

text \<open>A destination of another size is refused unless truncation is forced.\<close>

definition size_refused :: "fs \<Rightarrow> session \<Rightarrow> bool \<Rightarrow> bool" where
  "size_refused F ses force \<longleftrightarrow>
     \<not> force \<and> (\<exists>d. files F (ses_path ses) = Some d \<and> length d \<noteq> unat (ses_filesize ses))"

lemma prepare_dest_decides:
  assumes "no_faults (disk c) (ses_path ses)"
  shows "\<exists>c'. prepare_dest (ses_path ses) (ses_filesize ses) force c
      = (Ready (Ok (if size_refused (disk c) ses force then Some FileSizeDiffers else None)), c')
    \<and> rx c' = rx c \<and> tx_sched c' = tx_sched c"
  using assms
  by (auto simp: no_faults_def prepare_dest_def size_refused_def fs_metadata_len_def fs_open_write_def
      fs_set_len_def fs_create_def split: option.splits)

lemma write_status_ok:
  assumes "can_send (Suc k) c"
  obtains c' where "write_status st c = (Ready (Ok ()), c')" "can_send k c'" "rx c' = rx c" "tx_out c' = tx_out c @ [status_to_u8 st]"
proof -
  from assms have "can_send (length [status_to_u8 st] + k) c" by simp
  then obtain c' where "io_write_all [status_to_u8 st] c = (Ready (Ok ()), c')"
    "sent [status_to_u8 st] c c'" "can_send k c'"
    by (rule io_write_all_ok)
  moreover from this(2) have "rx c' = rx c" "tx_out c' = tx_out c @ [status_to_u8 st]"
    unfolding sent_def by (metis conn.select_convs(1) conn.surjective conn.update_convs(2,3), simp)
  ultimately show thesis using that by (simp add: write_status_def write_u8_def)
qed

lemma consumed_simps:
  assumes "consumed bs c c'"
  shows "can_send k c' = can_send k c" "disk c' = disk c" "tx_out c' = tx_out c"
    and "end_of (rx c') = end_of (rx c)"
proof -
  show "end_of (rx c') = end_of (rx c)" using assms by (simp add: consumed_def)
  from assms have "c' = c\<lparr>rx := rx c'\<rparr>" by (simp add: consumed_def)
  then show "can_send k c' = can_send k c" "disk c' = disk c" "tx_out c' = tx_out c"
    by (metis can_send_def conn.select_convs(2) conn.surjective conn.update_convs(1),
        metis conn.select_convs(1) server_conn.select_convs(1) server_conn.surjective conn.update_convs(1),
        metis conn.select_convs(3) conn.surjective conn.update_convs(1))
qed

text \<open>The five reads of the parameters.\<close>

lemma parameters_read:
  assumes be: "tokio_big_endian C" and v: "valid_session ses" and bytes: "bytes_of (rx c) = parameters_message ses force @ rest"
  obtains c1 c2 c3 c4 c' where "read_string C 4096 c = (Ready (Ok (ses_path ses)), c1)"
    "read_u64 C c1 = (Ready (Ok (ses_block_size ses)), c2)" "read_u64 C c2 = (Ready (Ok (ses_filesize ses)), c3)"
    "read_u8 c3 = (Ready (Ok (if force then 1 else 0)), c4)" "read_u8 c4 = (Ready (Ok (hash_algorithm_to_u8 (ses_algorithm ses))), c')"
    "bytes_of (rx c') = rest" "disk c' = disk c" "can_send 1 c' = can_send 1 c" "end_of (rx c') = end_of (rx c)"
proof -
  let ?force = "if force then 1 else 0 :: u8"
  have b0: "bytes_of (rx c) = string_message (ses_path ses) @ be_bytes (ses_block_size ses)
      @ be_bytes (ses_filesize ses) @ ?force # hash_algorithm_to_u8 (ses_algorithm ses) # rest"
    using bytes by (simp add: parameters_message_def)
  from v have path: "utf8_valid (ses_path ses)" "length (ses_path ses) \<le> unat (4096 :: usize)"
    by (simp_all add: valid_session_def)
  from be path b0 obtain c1 where 1: "read_string C 4096 c = (Ready (Ok (ses_path ses)), c1)"
    "consumed (string_message (ses_path ses)) c c1"
    "bytes_of (rx c1) = be_bytes (ses_block_size ses) @ be_bytes (ses_filesize ses)
      @ ?force # hash_algorithm_to_u8 (ses_algorithm ses) # rest"
    by (rule read_string_ok)
  from be 1(3) obtain c2 where 2: "read_u64 C c1 = (Ready (Ok (ses_block_size ses)), c2)"
    "consumed (be_bytes (ses_block_size ses)) c1 c2" "bytes_of (rx c2) = be_bytes (ses_filesize ses)
      @ ?force # hash_algorithm_to_u8 (ses_algorithm ses) # rest"
    by (rule read_u64_ok)
  from be 2(3) obtain c3 where 3: "read_u64 C c2 = (Ready (Ok (ses_filesize ses)), c3)"
    "consumed (be_bytes (ses_filesize ses)) c2 c3"
    "bytes_of (rx c3) = ?force # hash_algorithm_to_u8 (ses_algorithm ses) # rest"
    by (rule read_u64_ok)
  from 3(3) obtain c4 where 4: "read_u8 c3 = (Ready (Ok ?force), c4)" "consumed [?force] c3 c4"
    "bytes_of (rx c4) = hash_algorithm_to_u8 (ses_algorithm ses) # rest"
    by (rule read_u8_ok)
  from 4(3) obtain c5 where 5: "read_u8 c4 = (Ready (Ok (hash_algorithm_to_u8 (ses_algorithm ses))), c5)"
    "consumed [hash_algorithm_to_u8 (ses_algorithm ses)] c4 c5" "bytes_of (rx c5) = rest"
    by (rule read_u8_ok)
  note all = 1(2) 2(2) 3(2) 4(2) 5(2)
  have "disk c5 = disk c" "can_send 1 c5 = can_send 1 c" "end_of (rx c5) = end_of (rx c)"
    using all [THEN consumed_simps(2)] all [THEN consumed_simps(1)] all [THEN consumed_simps(4)] by simp_all
  with 1(1) 2(1) 3(1) 4(1) 5(1,3) that show thesis by blast
qed

lemma receive_parameters_decides:
  assumes be: "tokio_big_endian C" and v: "valid_session ses" and nf: "no_faults (disk c) (ses_path ses)"
    and bytes: "bytes_of (rx c) = parameters_message ses force @ rest" and "can_send 1 c"
  shows "\<exists>c'. receive_parameters C c
      = (Ready (Ok (if size_refused (disk c) ses force then Rejected FileSizeDiffers else Accepted ses)), c')
    \<and> bytes_of (rx c') = rest \<and> end_of (rx c') = end_of (rx c)"
proof -
  obtain c1 c2 c3 c4 c5 where R: "read_string C 4096 c = (Ready (Ok (ses_path ses)), c1)"
    "read_u64 C c1 = (Ready (Ok (ses_block_size ses)), c2)" "read_u64 C c2 = (Ready (Ok (ses_filesize ses)), c3)"
    "read_u8 c3 = (Ready (Ok (if force then 1 else 0)), c4)" "read_u8 c4 = (Ready (Ok (hash_algorithm_to_u8 (ses_algorithm ses))), c5)"
    "bytes_of (rx c5) = rest" and c5: "disk c5 = disk c" "can_send 1 c5 = can_send 1 c" "end_of (rx c5) = end_of (rx c)"
    using be v bytes by (rule parameters_read)
  from nf c5 have "no_faults (disk c5) (ses_path ses)" by simp
  from prepare_dest_decides [OF this, of force] obtain c6 where
    6: "prepare_dest (ses_path ses) (ses_filesize ses) force c5
      = (Ready (Ok (if size_refused (disk c) ses force then Some FileSizeDiffers else None)), c6)"
      "rx c6 = rx c5" "tx_sched c6 = tx_sched c5"
    using c5 by auto
  have "can_send (Suc 0) c6" using assms(5) c5(2) 6(3) by (simp add: can_send_def [of _ c5] can_send_def [of _ c6])
  then obtain c7 where 7: "write_status Ack c6 = (Ready (Ok ()), c7)" "rx c7 = rx c6"
    by (rule write_status_ok)
  have bs: "ses_block_size ses \<noteq> 0" "\<not> 1073741824 < ses_block_size ses"
    using v by (auto simp: valid_session_def)
  have f: "((if force then 1 else 0 :: u8) \<noteq> 0) = force" by simp
  show ?thesis unfolding receive_parameters_def using R c5(3) 6 7 bs f by simp
qed

lemma server_handshake_run:
  assumes "tokio_big_endian C" and "length secret \<le> 255" and "valid_session ses"
    and "no_faults (disk c) (ses_path ses)"
    and "bytes_of (rx c) = handshake_message secret ses force @ rest" and "can_send 3 c"
  shows "\<exists>c'. server_handshake C secret c
      = (Ready (Ok (if size_refused (disk c) ses force then Rejected FileSizeDiffers else Accepted ses)), c')
    \<and> bytes_of (rx c') = rest \<and> end_of (rx c') = end_of (rx c)"
proof -
  let ?n = "word_of_nat (length secret) :: u8"
  have b0: "bytes_of (rx c) = ?n # secret @ PROTOCOL_VERSION # parameters_message ses force @ rest"
    using assms(5) by (simp add: handshake_message_def)
  have n: "unat ?n = length secret" using assms(2) by (simp add: unat_of_nat)
  from b0 obtain c1 where 1: "read_u8 c = (Ready (Ok ?n), c1)" "consumed [?n] c c1"
    "bytes_of (rx c1) = secret @ PROTOCOL_VERSION # parameters_message ses force @ rest"
    by (rule read_u8_ok)
  from 1(3) n obtain c2 where 2: "io_read_exact (unat ?n) c1 = (Ready (Ok secret), c2)" "consumed secret c1 c2"
    "bytes_of (rx c2) = PROTOCOL_VERSION # parameters_message ses force @ rest"
    using io_read_exact_ok [of c1 secret _ "unat ?n"] by metis
  have "can_send (Suc 2) c2"
    using assms(6) 1(2) [THEN consumed_simps(1)] 2(2) [THEN consumed_simps(1)] by simp
  then obtain c3 where 3: "write_status Ack c2 = (Ready (Ok ()), c3)" "can_send 2 c3" "rx c3 = rx c2"
    by (rule write_status_ok)
  from 2(3) 3(3) have "bytes_of (rx c3) = PROTOCOL_VERSION # parameters_message ses force @ rest" by simp
  then obtain c4 where 4: "read_u8 c3 = (Ready (Ok PROTOCOL_VERSION), c4)" "consumed [PROTOCOL_VERSION] c3 c4"
    "bytes_of (rx c4) = parameters_message ses force @ rest"
    by (rule read_u8_ok)
  have "can_send (Suc 1) c4" using 3(2) 4(2) [THEN consumed_simps(1)] by (simp add: numeral_2_eq_2)
  then obtain c5 where 5: "write_status Ack c4 = (Ready (Ok ()), c5)" "can_send 1 c5" "rx c5 = rx c4"
    by (rule write_status_ok)
  have d: "disk c5 = disk c"
    using 1(2) [THEN consumed_simps(2)] 2(2) [THEN consumed_simps(2)] 4(2) [THEN consumed_simps(2)]
      write_status_keeps_disk [OF 3(1)] write_status_keeps_disk [OF 5(1)] by simp
  have e: "end_of (rx c5) = end_of (rx c)"
    using 1(2) [THEN consumed_simps(4)] 2(2) [THEN consumed_simps(4)] 4(2) [THEN consumed_simps(4)] 3(3) 5(3) by simp
  from 4(3) 5(3) have "bytes_of (rx c5) = parameters_message ses force @ rest" by simp
  from receive_parameters_decides [OF assms(1,3) _ this 5(2)] assms(4) d
  show ?thesis
    unfolding server_handshake_def check_version_def using 1(1) 2(1) 3(1) 4(1) 5(1) e by simp
qed

text \<open>
  C24: A complete, well-formed handshake from a client that knows the secret is accepted with
  exactly the parameters the client sent, except that an existing destination of another size
  is refused with \<open>FileSizeDiffers\<close> unless truncation is forced; what follows in the stream is
  left for the event loop.
\<close>

theorem server_handshake_decides:
  assumes "tokio_big_endian C" and "length secret \<le> 255" and "valid_session ses"
    and "no_faults (disk c) (ses_path ses)"
    and "bytes_of (rx c) = handshake_message secret ses force @ rest" and "can_send 3 c"
  shows "\<exists>c'. server_handshake C secret c
      = (Ready (Ok (if size_refused (disk c) ses force then Rejected FileSizeDiffers else Accepted ses)), c')
    \<and> bytes_of (rx c') = rest"
  using server_handshake_run [OF assms] by blast

text \<open>A session on a file \<open>f\<close> of two bytes, for concrete runs.\<close>

abbreviation sample_session :: "u64 \<Rightarrow> session" where
  "sample_session sz \<equiv> \<lparr>ses_path = [102], ses_block_size = 2, ses_filesize = sz, ses_algorithm = MD5\<rparr>"

abbreviation sample_conn :: "u64 \<Rightarrow> bool \<Rightarrow> server_conn" where
  "sample_conn sz force \<equiv> \<lparr>rx = [Chunk (handshake_message [120, 121] (sample_session sz) force @ [9]), Wait],
     tx_sched = [Accept 1, WrWait, Accept 1, Accept 1], tx_out = [],
     disk = faultless [[102] \<mapsto> [1, 2]]\<rparr>"

theorem server_handshake_decides_witness:
  "\<exists>c'. server_handshake sample_crates [120, 121] (sample_conn 3 False)
      = (Ready (Ok (if size_refused (disk (sample_conn 3 False)) (sample_session 3) False
          then Rejected FileSizeDiffers else Accepted (sample_session 3))), c') \<and> bytes_of (rx c') = [9]"
  by (rule server_handshake_decides)
    (simp_all add: valid_session_def no_faults_def faultless_def can_send_def)

theorem accepted_prepares_dest_witness:
  "\<exists>c'. server_handshake sample_crates [120, 121] (sample_conn 3 True)
      = (Ready (Ok (Accepted (sample_session 3))), c')
    \<and> files (disk c') [102] = Some (resize (dest_before (disk (sample_conn 3 True)) [102]) 3)
    \<and> tx_out c' = [0, 0, 0]"
proof -
  have "\<exists>c'. server_handshake sample_crates [120, 121] (sample_conn 3 True)
      = (Ready (Ok (if size_refused (disk (sample_conn 3 True)) (sample_session 3) True
          then Rejected FileSizeDiffers else Accepted (sample_session 3))), c')
      \<and> bytes_of (rx c') = [9] \<and> end_of (rx c') = end_of (rx (sample_conn 3 True))"
    by (rule server_handshake_run) (simp_all add: valid_session_def no_faults_def faultless_def can_send_def)
  then obtain c' where r: "server_handshake sample_crates [120, 121] (sample_conn 3 True)
      = (Ready (Ok (Accepted (sample_session 3))), c')"
    by (auto simp: size_refused_def)
  from accepted_prepares_dest [OF r] r show ?thesis by simp
qed

end
