(* ===== verification/Server.thy ===== *)
theory Server
  imports Server_Handshake
begin

text \<open>
  The event loop of \<open>process_new_client\<close> in \<open>server.rs\<close> (lines 81--153): one \<open>select!\<close>
  iteration (\<open>server_select\<close>) repeated until the client closes the connection. The loop is an
  instance of \<open>event_loop\<close>, which gives that it ends and that the file then holds exactly the
  received blocks; a second invariant gives that the hashes go out in order.
\<close>

section \<open>The event loop\<close>

record server_loop =
  sl_rx :: rstream                                        \<comment> \<open>\<open>client_rx\<close>\<close>
  sl_tx :: sink                                           \<comment> \<open>\<open>client_tx\<close>\<close>
  sl_hasher :: "hs_event list"                            \<comment> \<open>\<open>hasher\<close>\<close>
  sl_read_block :: ResumableReadFileBlock                 \<comment> \<open>\<open>resumable_read_file_block\<close>\<close>
  sl_write_disk :: "ResumableAsyncWriteAll option"        \<comment> \<open>\<open>resumable_write_block_to_disk\<close>\<close>
  sl_write_hash :: "ResumableWriteString option"          \<comment> \<open>\<open>resumable_write_hash\<close>\<close>
  sl_file :: "u8 list"                                    \<comment> \<open>contents of \<open>file\<close>\<close>
  sl_pos :: nat                                           \<comment> \<open>cursor of \<open>file\<close>\<close>
  sl_disk_sched :: "wr_event list"                        \<comment> \<open>what writes to \<open>file\<close> return\<close>
  sl_receive_buffer :: "u8 list"
  sl_write_buffer :: "u8 list"
  sl_hashing_done :: bool

definition server_loop_start :: "session \<Rightarrow> u8 list \<Rightarrow> rstream \<Rightarrow> sink \<Rightarrow> wr_event list \<Rightarrow> hs_event list \<Rightarrow> server_loop" where
  "server_loop_start ses contents es w ds hs =
     \<lparr>sl_rx = es, sl_tx = w, sl_hasher = hs,
      sl_read_block = rrfb_new (ses_block_size ses) (ses_filesize ses),
      sl_write_disk = None, sl_write_hash = None, sl_file = contents, sl_pos = 0,
      sl_disk_sched = ds, sl_receive_buffer = [], sl_write_buffer = [], sl_hashing_done = False\<rparr>"

text \<open>``write current block to local filesystem''; the result of the write is not looked at.\<close>

definition server_arm_disk :: "server_loop \<Rightarrow> server_loop arm" where
  "server_arm_disk s =
     (case sl_write_disk s of
        None \<Rightarrow> Off
      | Some rwa \<Rightarrow>
          (case rwa_write_all (sl_write_buffer s) rwa (sl_disk_sched s, []) of
             (p, rwa', ds, out) \<Rightarrow>
               (let s' = s\<lparr>sl_disk_sched := ds, sl_file := file_write (sl_file s) (sl_pos s) out,
                           sl_pos := sl_pos s + length out\<rparr> in
                case p of
                  Pending \<Rightarrow> Waiting (s'\<lparr>sl_write_disk := Some rwa'\<rparr>)
                | Ready _ \<Rightarrow> Fired Continue (s'\<lparr>sl_write_disk := None\<rparr>))))"

text \<open>``read file blocks from client''. Seeking to \<open>2^63\<close> or beyond is refused by the system.\<close>

definition server_arm_read :: "server_loop \<Rightarrow> server_loop arm" where
  "server_arm_read s =
     (if sl_write_disk s \<noteq> None then Off
      else
        (case rrfb_read_on (sl_read_block s, sl_receive_buffer s) (sl_rx s) of
           (p, (rb, buf), es) \<Rightarrow>
             (let s' = s\<lparr>sl_rx := es, sl_read_block := rb, sl_receive_buffer := buf\<rparr> in
              case p of
                Pending \<Rightarrow> Waiting s'
              | Ready (Inl e) \<Rightarrow> Fired Break s'
              | Ready (Inr offset) \<Rightarrow>
                  (let s'' = s'\<lparr>sl_receive_buffer := sl_write_buffer s', sl_write_buffer := buf\<rparr> in
                   if unat offset < 2 ^ 63 then
                     Fired Continue (s''\<lparr>sl_pos := unat offset, sl_write_disk := Some rwa_new\<rparr>)
                   else Fired (Return IoError) s''))))"

definition server_arm_write_hash :: "server_loop \<Rightarrow> server_loop arm" where
  "server_arm_write_hash s =
     (case sl_write_hash s of
        None \<Rightarrow> Off
      | Some rws \<Rightarrow>
          (case rws_write_to rws (sl_tx s) of
             (Pending, rws', w) \<Rightarrow> Waiting (s\<lparr>sl_tx := w, sl_write_hash := Some rws'\<rparr>)
           | (Ready _, rws', w) \<Rightarrow> Fired Continue (s\<lparr>sl_tx := w, sl_write_hash := None\<rparr>)))"

text \<open>``Next ordered block hash, send it to client''\<close>

definition server_arm_hasher :: "server_loop \<Rightarrow> server_loop arm" where
  "server_arm_hasher s =
     (if sl_write_hash s \<noteq> None \<or> sl_hashing_done s then Off
      else
        (case hs_recv (sl_hasher s) of
           (Pending, hs) \<Rightarrow> Waiting (s\<lparr>sl_hasher := hs\<rparr>)
         | (Ready (Inr (Some (i, hash, data))), hs) \<Rightarrow>
             Fired Continue (s\<lparr>sl_hasher := hs, sl_write_hash := Some (rws_new hash)\<rparr>)
         | (Ready (Inr None), hs) \<Rightarrow> Fired Continue (s\<lparr>sl_hasher := hs, sl_hashing_done := True\<rparr>)
         | (Ready (Inl e), hs) \<Rightarrow> Fired (Return e) (s\<lparr>sl_hasher := hs\<rparr>)))"

definition server_select :: "server_loop \<Rightarrow> ctl \<times> server_loop" where
  "server_select s =
     select_arms [server_arm_disk, server_arm_read, server_arm_write_hash, server_arm_hasher] False s"

definition server_run :: "nat \<Rightarrow> server_loop \<Rightarrow> unit result option \<times> server_loop" where
  "server_run n s = run_loop n server_select s"

section \<open>The whole of process new client\<close>

text \<open>
  The session after an accepted handshake (lines 81--158): start the hashing, open the file, run
  the loop, flush and sync, and drop the stream, which waits for the workers. \<open>hash_file\<close> is the component of
  \<open>hash_file.rs\<close>, given here by the stream it makes; \<open>disk_env\<close> is what writes, flush and sync of the file give.
\<close>

record disk_env =
  de_sched :: "wr_event list"
  de_flush_fault :: bool
  de_sync_fault :: bool

type_synonym hashing = "fs \<Rightarrow> rstring \<Rightarrow> usize \<Rightarrow> u8 \<Rightarrow> HashAlgorithm \<Rightarrow> HashStream result"

definition server_session :: "hashing \<Rightarrow> disk_env \<Rightarrow> nat \<Rightarrow> u8 \<Rightarrow> session \<Rightarrow> StatusCode server_io" where
  "server_session hash_file de n workers ses c =
     (case hash_file (disk c) (ses_path ses) (ses_block_size ses) workers (ses_algorithm ses) of
        Inl e \<Rightarrow> (Ready (Err e), c)
      | Inr hasher \<Rightarrow>
          (case fs_open_write (disk c) (ses_path ses) of
             Inl e \<Rightarrow> (after_drop hasher (Ready (Err e)), c)
           | Inr _ \<Rightarrow>
               (case server_run n (server_loop_start ses (the (files (disk c) (ses_path ses))) (rx c)
                       (tx_sched c, tx_out c) (de_sched de) (hs_events hasher)) of
                  (res, s) \<Rightarrow>
                    (let c' = c\<lparr>rx := sl_rx s, tx_sched := fst (sl_tx s), tx_out := snd (sl_tx s),
                                disk := (disk c)\<lparr>files := (files (disk c))(ses_path ses \<mapsto> sl_file s)\<rparr>\<rparr> in
                     case res of
                       None \<Rightarrow> (Pending, c')
                     | Some (Inl e) \<Rightarrow> (after_drop hasher (Ready (Err e)), c')
                     | Some (Inr _) \<Rightarrow>
                         (if de_flush_fault de \<or> de_sync_fault de then (after_drop hasher (Ready (Err IoError)), c')
                          else (after_drop hasher (Ready (Ok Ack)), c'))))))"

definition process_new_client :: "crates \<Rightarrow> hashing \<Rightarrow> disk_env \<Rightarrow> nat \<Rightarrow> rstring \<Rightarrow> u8 \<Rightarrow> StatusCode server_io" where
  "process_new_client C hash_file de n secret workers =
     io_bind (server_handshake C secret) (\<lambda>h.
     case h of
       Rejected status \<Rightarrow> io_return status
     | Accepted ses \<Rightarrow> server_session hash_file de n workers ses)"

section \<open>The loop applies exactly the blocks it receives\<close>

text \<open>The contents the file will have once the pending write is done.\<close>

definition server_target :: "server_loop \<Rightarrow> u8 list" where
  "server_target s =
     (case sl_write_disk s of
        None \<Rightarrow> sl_file s
      | Some rwa \<Rightarrow> file_write (sl_file s) (sl_pos s) (rwa_remaining (sl_write_buffer s) rwa))"

definition server_pending :: "server_loop \<Rightarrow> u8 list" where
  "server_pending s =
     (case sl_write_disk s of None \<Rightarrow> [] | Some rwa \<Rightarrow> rwa_remaining (sl_write_buffer s) rwa)"

abbreviation positions :: "(usize \<times> u8 list) list \<Rightarrow> (nat \<times> u8 list) list" where
  "positions blocks \<equiv> map (\<lambda>(off, d). (unat off, d)) blocks"

definition seekable :: "usize \<times> u8 list \<Rightarrow> bool" where
  "seekable b \<longleftrightarrow> unat (fst b) < 2 ^ 63"

abbreviation sl_reader :: "server_loop \<Rightarrow> ResumableReadFileBlock \<times> u8 list" where
  "sl_reader s \<equiv> (sl_read_block s, sl_receive_buffer s)"

text \<open>
  The invariant: \<open>rest\<close> are the blocks still to come out of the stream, followed by a \<open>tail\<close>
  that is no complete block; applying the blocks to the target gives the final contents; the
  disk accepts what is left to write.
\<close>

definition no_block :: "usize \<Rightarrow> usize \<Rightarrow> u8 list \<Rightarrow> bool" where
  "no_block block_size file_size tail \<longleftrightarrow>
     (\<forall>b more. block_fits block_size file_size b \<longrightarrow> tail \<noteq> block_message b @ more)"

lemma no_block_Nil [simp]: "no_block block_size file_size []"
  by (simp add: no_block_def block_message_def)

definition server_inv :: "usize \<Rightarrow> usize \<Rightarrow> u8 list \<Rightarrow> u8 list \<Rightarrow> (usize \<times> u8 list) list \<Rightarrow> server_loop \<Rightarrow> bool" where
  "server_inv block_size file_size tail final rest s \<longleftrightarrow>
     rrfb_inv block_size file_size (sl_reader s)
     \<and> (\<forall>rwa. sl_write_disk s = Some rwa \<longrightarrow> rwa_inv (sl_write_buffer s) rwa)
     \<and> end_of (sl_rx s) \<noteq> StillOpen \<and> no_block block_size file_size tail \<and> sound_sched (sl_disk_sched s) \<and> hs_no_error (sl_hasher s)
     \<and> list_all (block_fits block_size file_size) rest \<and> list_all seekable rest
     \<and> rrfb_got (sl_reader s) @ bytes_of (sl_rx s) = concat (map block_message rest) @ tail
     \<and> apply_blocks (server_target s) (positions rest) = final
     \<and> length (server_pending s) + sum_list (map (length \<circ> snd) rest) \<le> accepts (sl_disk_sched s)"

definition server_todo :: "server_loop \<Rightarrow> nat" where
  "server_todo s =
     wr_waits (sl_disk_sched s) + waits (sl_rx s)
     + 2 * (length (rrfb_got (sl_reader s)) + length (bytes_of (sl_rx s)))
     + (if sl_write_disk s = None then 0 else 1)"

lemmas server_inv_simps = server_inv_def server_target_def server_pending_def server_todo_def

lemma server_arm_disk_inv:
  assumes inv: "server_inv bs fsz tail final rest s"
  shows "case server_arm_disk s of
      Off \<Rightarrow> sl_write_disk s = None
    | Waiting s' \<Rightarrow> server_inv bs fsz tail final rest s' \<and> server_todo s' < server_todo s
        \<and> sl_write_disk s' \<noteq> None
    | Fired c s' \<Rightarrow> c = Continue \<and> server_inv bs fsz tail final rest s' \<and> server_todo s' < server_todo s"
proof (cases "sl_write_disk s")
  case None
  then show ?thesis by (simp add: server_arm_disk_def)
next
  case (Some rwa)
  obtain p rwa' ds out where w:
    "rwa_write_all (sl_write_buffer s) rwa (sl_disk_sched s, []) = (p, rwa', ds, out)"
    by (metis prod_cases4)
  let ?s = "s\<lparr>sl_disk_sched := ds, sl_file := file_write (sl_file s) (sl_pos s) out,
               sl_pos := sl_pos s + length out\<rparr>"
  let ?rem = "rwa_remaining (sl_write_buffer s)"
  from inv Some have I: "rwa_inv (sl_write_buffer s) rwa" "sound_sched (sl_disk_sched s)"
    by (simp_all add: server_inv_def)
  note P = rwa.progress [OF I(1) w] and A = rwa.alive [OF I(1) w I(2)]
  from P have "out @ ?rem rwa' = ?rem rwa" by simp
  then have tgt: "file_write (file_write (sl_file s) (sl_pos s) out) (sl_pos s + length out) (?rem rwa')
      = server_target s"
    using Some by (simp add: file_write_append server_target_def)
  have acc: "length (?rem rwa') + sum_list (map (length \<circ> snd) rest) \<le> accepts ds"
    using A inv Some by (simp add: server_inv_simps)
  show ?thesis
  proof (cases p)
    case Pending
    then have arm: "server_arm_disk s = Waiting (?s\<lparr>sl_write_disk := Some rwa'\<rparr>)"
      using Some w by (simp add: server_arm_disk_def)
    from A Pending have "?rem rwa' \<noteq> []" "wr_waits ds < wr_waits (sl_disk_sched s) \<or> accepts ds = 0"
      by simp_all
    with acc have "wr_waits ds < wr_waits (sl_disk_sched s)" by auto
    with arm inv P A tgt acc Some show ?thesis by (simp add: server_inv_simps)
  next
    case (Ready r)
    with A have r: "r = Ok ()" by (cases r) auto
    then have arm: "server_arm_disk s = Fired Continue (?s\<lparr>sl_write_disk := None\<rparr>)"
      using Some w Ready by (simp add: server_arm_disk_def)
    from P Ready r have "?rem rwa' = []" by simp
    with tgt acc have "file_write (sl_file s) (sl_pos s) out = server_target s"
      "sum_list (map (length \<circ> snd) rest) \<le> accepts ds" by simp_all
    moreover have "wr_waits ds \<le> wr_waits (sl_disk_sched s)" using A by simp
    ultimately show ?thesis using arm inv A Some by (simp add: server_inv_simps)
  qed
qed

text \<open>With no write pending, the reader makes progress: it waits, returns the next block, or sees the end.\<close>

text \<open>The three outcomes of reading a block: not yet, the end of the stream, a block.\<close>

lemma server_read_waits:
  assumes inv: "server_inv bs fsz tail final rest s" and idle: "sl_write_disk s = None"
    and r: "rrfb_read_on (sl_reader s) (sl_rx s) = (Pending, (rb, buf), es)"
    and t: "t = s\<lparr>sl_rx := es, sl_read_block := rb, sl_receive_buffer := buf\<rparr>"
  shows "server_inv bs fsz tail final rest t \<and> server_todo t < server_todo s"
proof -
  have I: "rrfb_inv bs fsz (sl_reader s)" "end_of (sl_rx s) \<noteq> StillOpen" using inv by (simp_all add: server_inv_def)
  from rrfb.pending [OF I(1) r] I(2)
  have "rrfb_inv bs fsz (rb, buf)" "end_of es \<noteq> StillOpen" "waits (sl_rx s) = Suc (waits es)"
    "rrfb_got (sl_reader s) @ bytes_of (sl_rx s) = rrfb_got (rb, buf) @ bytes_of es"
    by auto
  moreover from arg_cong [OF this(4), of length]
  have "length (rrfb_got (sl_reader s)) + length (bytes_of (sl_rx s))
    = length (rrfb_got (rb, buf)) + length (bytes_of es)" by simp
  ultimately show ?thesis using inv idle by (simp add: t server_inv_simps)
qed

lemma server_read_ends:
  assumes inv: "server_inv bs fsz tail final rest s" and idle: "sl_write_disk s = None"
    and r: "rrfb_read_on (sl_reader s) (sl_rx s) = (Ready (Err e), (rb, buf), es)"
  shows "sl_file s = final"
proof -
  have "rest = []"
  proof (rule ccontr)
    assume "rest \<noteq> []"
    then obtain b rest' where b: "rest = b # rest'" by (cases rest) auto
    then have "rrfb_inv bs fsz (sl_reader s)" "block_fits bs fsz b" using inv by (simp_all add: server_inv_def)
    from rrfb.fails [OF this(1) r this(2), of "concat (map block_message rest') @ tail"] inv b
    show False by (simp add: server_inv_def)
  qed
  with inv idle show ?thesis by (simp add: server_inv_simps)
qed

lemma server_read_block:
  assumes inv: "server_inv bs fsz tail final rest s" and idle: "sl_write_disk s = None"
    and r: "rrfb_read_on (sl_reader s) (sl_rx s) = (Ready (Ok offset), (rb, buf), es)"
    and t: "t = s\<lparr>sl_rx := es, sl_read_block := rb, sl_receive_buffer := sl_write_buffer s, sl_write_buffer := buf,
      sl_pos := unat offset, sl_write_disk := Some rwa_new\<rparr>"
  shows "unat offset < 2 ^ 63" and "\<exists>rest'. server_inv bs fsz tail final rest' t" and "server_todo t < server_todo s"
proof -
  have I: "rrfb_inv bs fsz (sl_reader s)" "end_of (sl_rx s) \<noteq> StillOpen" "no_block bs fsz tail"
    "rrfb_got (sl_reader s) @ bytes_of (sl_rx s) = concat (map block_message rest) @ tail"
    using inv by (simp_all add: server_inv_def)
  from rrfb.ready [OF I(1) r] I(2)
  have R: "rrfb_inv bs fsz (rb, buf)" "rrfb_got (rb, buf) = []" "block_fits bs fsz (offset, buf)"
    "end_of es \<noteq> StillOpen" "waits es \<le> waits (sl_rx s)"
    "rrfb_got (sl_reader s) @ bytes_of (sl_rx s) = block_message (offset, buf) @ bytes_of es"
    by simp_all
  have "rest \<noteq> []" using R(3,6) I(3,4) by (auto simp: no_block_def)
  then obtain b rest' where b: "rest = b # rest'" by (cases rest) auto
  then have "block_fits bs fsz b" "seekable b" using inv by (simp_all add: server_inv_def)
  with rrfb_prefix_free [OF R(3) this(1), of "bytes_of es" "concat (map block_message rest') @ tail"] R(6) I(4) b
  have eq: "b = (offset, buf)" "bytes_of es = concat (map block_message rest') @ tail" "unat offset < 2 ^ 63"
    by (auto simp: seekable_def)
  then show "unat offset < 2 ^ 63" by simp
  have G: "rrfb_inv bs fsz (rb, sl_write_buffer s)" "rrfb_got (rb, sl_write_buffer s) = []"
    using rrfb_after_ready [OF R(1,2)] by simp_all
  then have "server_inv bs fsz tail final rest' t"
    using inv idle b eq R rwa_new_message by (simp add: t server_inv_simps)
  then show "\<exists>rest'. server_inv bs fsz tail final rest' t" ..
  show "server_todo t < server_todo s"
    using idle R(5) arg_cong [OF R(6), of length] G(2) by (simp add: t server_todo_def block_message_def)
qed

lemma server_arm_read_inv:
  assumes inv: "server_inv bs fsz tail final rest s" and idle: "sl_write_disk s = None"
  shows "case server_arm_read s of
      Off \<Rightarrow> False
    | Waiting s' \<Rightarrow> server_inv bs fsz tail final rest s' \<and> server_todo s' < server_todo s
        \<and> sl_write_disk s' = None
    | Fired c s' \<Rightarrow>
        (c = Break \<and> sl_file s' = final)
        \<or> (c = Continue \<and> (\<exists>rest'. server_inv bs fsz tail final rest' s') \<and> server_todo s' < server_todo s)"
proof -
  obtain p rb buf es where r: "rrfb_read_on (sl_reader s) (sl_rx s) = (p, (rb, buf), es)"
    by (metis prod.exhaust)
  consider (wait) "p = Pending" | (over) e where "p = Ready (Err e)" | (block) offset where "p = Ready (Ok offset)"
    by (metis poll.exhaust sum.exhaust)
  then show ?thesis
  proof cases
    case wait
    with server_read_waits [OF inv idle r [unfolded wait] refl] r idle show ?thesis by (simp add: server_arm_read_def)
  next
    case over
    with server_read_ends [OF inv idle r [unfolded over]] r idle show ?thesis by (simp add: server_arm_read_def)
  next
    case block
    with server_read_block [OF inv idle r [unfolded block] refl] r idle show ?thesis
      by (simp add: server_arm_read_def Let_def)
  qed
qed

text \<open>The two arms that stream hashes touch neither the file nor what is read.\<close>

definition server_frame :: "server_loop \<Rightarrow> server_loop \<Rightarrow> bool" where
  "server_frame s s' \<longleftrightarrow> sl_rx s' = sl_rx s \<and> sl_read_block s' = sl_read_block s
     \<and> sl_write_disk s' = sl_write_disk s \<and> sl_file s' = sl_file s \<and> sl_pos s' = sl_pos s
     \<and> sl_disk_sched s' = sl_disk_sched s \<and> sl_receive_buffer s' = sl_receive_buffer s
     \<and> sl_write_buffer s' = sl_write_buffer s
     \<and> (hs_no_error (sl_hasher s) \<longrightarrow> hs_no_error (sl_hasher s'))"

lemma server_frame_refl [simp]: "server_frame s s"
  by (simp add: server_frame_def)

lemma server_frame_trans: "server_frame s t \<Longrightarrow> server_frame t u \<Longrightarrow> server_frame s u"
  by (simp add: server_frame_def)

lemma server_frame_inv:
  assumes "server_frame s s'"
  shows "server_inv bs fsz tail final rest s \<Longrightarrow> server_inv bs fsz tail final rest s'"
    and "server_todo s' = server_todo s"
  using assms unfolding server_frame_def server_inv_simps by (simp_all cong: option.case_cong)

lemma server_arm_write_hash_frame:
  "case server_arm_write_hash s of
     Off \<Rightarrow> True | Waiting s' \<Rightarrow> server_frame s s' | Fired c s' \<Rightarrow> c = Continue \<and> server_frame s s'"
  by (auto simp: server_arm_write_hash_def server_frame_def split: option.splits prod.splits poll.splits)

lemma server_arm_hasher_frame:
  "hs_no_error (sl_hasher s) \<Longrightarrow>
   case server_arm_hasher s of
     Off \<Rightarrow> True | Waiting s' \<Rightarrow> server_frame s s' | Fired c s' \<Rightarrow> c = Continue \<and> server_frame s s'"
  by (cases "sl_hasher s" rule: hs_recv.cases) (auto simp: server_arm_hasher_def server_frame_def)

text \<open>The end of an iteration in which neither the disk nor the reader fired.\<close>

lemma server_hash_arms_frame:
  assumes "hs_no_error (sl_hasher s)"
    and "select_arms [server_arm_write_hash, server_arm_hasher] True s = (c, s')"
  shows "(c = Continue \<or> c = Blocked) \<and> server_frame s s'"
proof -
  have hash: "(d = Continue \<or> d = Blocked) \<and> server_frame u t"
    if "hs_no_error (sl_hasher u)" "select_arms [server_arm_hasher] True u = (d, t)" for u d t
    using server_arm_hasher_frame [OF that(1)] that(2) by (cases "server_arm_hasher u") auto
  show ?thesis
  proof (cases "server_arm_write_hash s")
    case Off
    with hash [OF assms(1)] assms(2) show ?thesis by simp
  next
    case (Waiting t)
    with server_arm_write_hash_frame [of s] have t: "server_frame s t" by simp
    then have "hs_no_error (sl_hasher t)" using assms(1) by (simp add: server_frame_def)
    from hash [OF this] t assms(2) Waiting server_frame_trans show ?thesis by auto
  next
    case (Fired d t)
    with server_arm_write_hash_frame [of s] assms(2) show ?thesis by simp
  qed
qed

lemma server_hash_arms_inv:
  assumes "server_inv bs fsz tail final rest s"
    and "select_arms [server_arm_write_hash, server_arm_hasher] True s = (c, s')"
  shows "(c = Continue \<or> c = Blocked) \<and> server_inv bs fsz tail final rest s' \<and> server_todo s' = server_todo s"
  using server_hash_arms_frame [OF _ assms(2)] server_frame_inv [of s s'] assms(1)
  by (simp add: server_inv_def [of bs fsz tail final rest s])

text \<open>One iteration of the loop.\<close>

lemma server_select_inv:
  assumes inv: "server_inv bs fsz tail final rest s" and sel: "server_select s = (c, s')"
  shows "c = Break \<and> sl_file s' = final
    \<or> (c = Continue \<or> c = Blocked) \<and> (\<exists>rest'. server_inv bs fsz tail final rest' s') \<and> server_todo s' < server_todo s"
proof (cases "server_arm_disk s")
  case Off
  then have idle: "sl_write_disk s = None" using server_arm_disk_inv [OF inv] by simp
  note R = server_arm_read_inv [OF inv idle]
  show ?thesis
  proof (cases "server_arm_read s")
    case (Waiting t)
    with R have t: "server_inv bs fsz tail final rest t" "server_todo t < server_todo s" by simp_all
    from sel Off Waiting have "select_arms [server_arm_write_hash, server_arm_hasher] True t = (c, s')"
      by (simp add: server_select_def)
    from server_hash_arms_inv [OF t(1) this] t(2) show ?thesis by auto
  next
    case (Fired d t)
    with sel Off have "c = d" "s' = t" by (simp_all add: server_select_def)
    with R Fired show ?thesis by auto
  qed (use R in simp)
next
  case (Waiting t)
  with server_arm_disk_inv [OF inv] have t: "server_inv bs fsz tail final rest t"
    "server_todo t < server_todo s" "sl_write_disk t \<noteq> None" by simp_all
  from t(3) have "server_arm_read t = Off" by (simp add: server_arm_read_def)
  with sel Waiting have "select_arms [server_arm_write_hash, server_arm_hasher] True t = (c, s')"
    by (simp add: server_select_def)
  from server_hash_arms_inv [OF t(1) this] t(2) show ?thesis by auto
next
  case (Fired d t)
  with sel have "c = d" "s' = t" by (simp_all add: server_select_def)
  with server_arm_disk_inv [OF inv] Fired show ?thesis by auto
qed

interpretation server: event_loop server_select "\<lambda>s. \<exists>rest. server_inv bs fsz tail final rest s" server_todo
    "\<lambda>s. sl_file s = final"
  for bs fsz tail final
  by unfold_locales (use server_select_inv in fastforce)+

lemma server_loop_total:
  assumes "list_all (block_fits (ses_block_size ses) (ses_filesize ses)) blocks"
    and "list_all seekable blocks"
    and "bytes_of es = concat (map block_message blocks) @ tail"
    and "no_block (ses_block_size ses) (ses_filesize ses) tail" and "end_of es \<noteq> StillOpen"
    and "sound_sched ds" and "sum_list (map (length \<circ> snd) blocks) \<le> accepts ds"
    and "hs_no_error hs" and "wr_waits ds + waits es + 2 * length (bytes_of es) < n"
  shows "\<exists>s'. server_run n (server_loop_start ses contents es w ds hs) = (Some (Ok ()), s')
    \<and> sl_file s' = apply_blocks contents (positions blocks)"
proof -
  let ?s = "server_loop_start ses contents es w ds hs"
  have "server_inv (ses_block_size ses) (ses_filesize ses) tail
      (apply_blocks contents (positions blocks)) blocks ?s"
    using assms rrfb_inv_new by (simp add: server_inv_simps server_loop_start_def)
  moreover have "server_todo ?s < n" using assms(9) by (simp add: server_todo_def server_loop_start_def)
  ultimately show ?thesis unfolding server_run_def by (intro server.run_loop_terminates) blast+
qed

text \<open>
  C13: Whatever the interleaving, a session in which the client sends the blocks \<open>blocks\<close> and
  then closes the connection, or dies in the middle of a message, ends without an error, and the
  destination holds its former contents with exactly the complete blocks written, in order;
  nothing of an incomplete last block reaches the file.
\<close>

theorem server_loop_applies_blocks:
  assumes "list_all (block_fits (ses_block_size ses) (ses_filesize ses)) blocks"
    and "list_all seekable blocks"
    and "bytes_of es = concat (map block_message blocks) @ tail"
    and "no_block (ses_block_size ses) (ses_filesize ses) tail" and "end_of es \<noteq> StillOpen"
    and "sound_sched ds" and "sum_list (map (length \<circ> snd) blocks) \<le> accepts ds"
    and "hs_no_error hs" and "wr_waits ds + waits es + 2 * length (bytes_of es) < n"
  shows "\<exists>s'. server_run n (server_loop_start ses contents es w ds hs) = (Some (Ok ()), s')
    \<and> sl_file s' = apply_blocks contents (positions blocks)"
  using assms by (rule server_loop_total)

theorem server_loop_applies_blocks_witness:
  "\<exists>s'. server_run 100 (server_loop_start
       \<lparr>ses_path = [], ses_block_size = 2, ses_filesize = 5, ses_algorithm = CRC32\<rparr>
       [1, 2, 3, 4, 5] [Chunk (be_bytes 2), Wait, Chunk ([7, 8] @ be_bytes 4), Chunk [9, 0], RdFail]
       ([], []) [Accept 1, WrWait, Accept 9, Accept 9] [HsWait, HsEnd]) = (Some (Ok ()), s')
     \<and> sl_file s' = apply_blocks [1, 2, 3, 4, 5] (positions [(2, [7, 8]), (4, [9])])"
proof (rule server_loop_applies_blocks)
  show "no_block
      (ses_block_size \<lparr>ses_path = [], ses_block_size = 2, ses_filesize = 5, ses_algorithm = CRC32\<rparr>)
      (ses_filesize \<lparr>ses_path = [], ses_block_size = 2, ses_filesize = 5, ses_algorithm = CRC32\<rparr>) [0]"
    by (auto simp: no_block_def block_message_def dest!: arg_cong [where f = length])
qed (simp_all add: block_message_def block_fits_def current_block_size_def seekable_def)

section \<open>The hashes reach the client in order\<close>

text \<open>The bytes sent, the rest of the hash being sent and the hashes to come are one fixed sequence.\<close>

definition hash_messages :: "hs_item list \<Rightarrow> u8 list" where
  "hash_messages items = concat (map (\<lambda>(i, hash, data). string_message hash) items)"

definition hashes_inv :: "u8 list \<Rightarrow> server_loop \<Rightarrow> bool" where
  "hashes_inv msgs s \<longleftrightarrow> sound_sched (fst (sl_tx s))
     \<and> (\<forall>rws. sl_write_hash s = Some rws \<longrightarrow> rws_inv rws)
     \<and> snd (sl_tx s) @ (case sl_write_hash s of None \<Rightarrow> [] | Some rws \<Rightarrow> rws_remaining rws)
         @ hash_messages (hs_items (sl_hasher s)) = msgs"

lemma hashes_inv_disk_read: "arm_keeps (hashes_inv msgs) server_arm_disk" "arm_keeps (hashes_inv msgs) server_arm_read"
  by (auto simp: arm_keeps_def server_arm_disk_def server_arm_read_def hashes_inv_def Let_def
      split: option.splits prod.splits poll.splits sum.splits)

lemma hashes_inv_write_hash: "arm_keeps (hashes_inv msgs) server_arm_write_hash"
proof -
  have "case server_arm_write_hash s of Off \<Rightarrow> True | Waiting s' \<Rightarrow> hashes_inv msgs s'
      | Fired c s' \<Rightarrow> hashes_inv msgs s'" if inv: "hashes_inv msgs s" for s
  proof (cases "sl_write_hash s")
    case (Some rws)
    obtain es out where w: "sl_tx s = (es, out)" by fastforce
    obtain p rws' es' out' where r: "rws_write_to rws (es, out) = (p, rws', es', out')" by (metis prod_cases4)
    from inv Some w have "rws_inv rws" "sound_sched es" by (simp_all add: hashes_inv_def)
    note P = rws.progress [OF this(1) r] and A = rws.alive [OF this(1) r this(2)]
    then have "p = Pending \<or> p = Ready (Ok ())" by (metis (full_types) old.unit.exhaust poll.exhaust sumE)
    with P A inv Some w r show ?thesis by (auto simp: server_arm_write_hash_def hashes_inv_def)
  qed (simp add: server_arm_write_hash_def)
  then show ?thesis by (simp add: arm_keeps_def)
qed

lemma hashes_inv_hasher: "arm_keeps (hashes_inv msgs) server_arm_hasher"
proof -
  have "case server_arm_hasher s of Off \<Rightarrow> True | Waiting s' \<Rightarrow> hashes_inv msgs s'
      | Fired c s' \<Rightarrow> hashes_inv msgs s'" if "hashes_inv msgs s" for s
    using that rws_new_message
    by (cases "sl_hasher s" rule: hs_recv.cases) (auto simp: server_arm_hasher_def hashes_inv_def hash_messages_def)
  then show ?thesis by (simp add: arm_keeps_def)
qed

text \<open>
  C28: As long as no write to the client fails, at every moment of the session the bytes sent to it are a prefix of the messages
  of the block hashes in the order of the blocks: none is lost, repeated, reordered or torn.
\<close>

theorem server_sends_hashes_in_order:
  assumes "sound_sched txs"
    and "server_run n (server_loop_start ses contents es (txs, out) ds hs) = (r, s')"
  shows "\<exists>unsent. snd (sl_tx s') @ unsent = out @ hash_messages (hs_items hs)"
proof -
  let ?s = "server_loop_start ses contents es (txs, out) ds hs"
  let ?total = "out @ hash_messages (hs_items hs)"
  have "hashes_inv ?total (snd (server_select s))" if "hashes_inv ?total s" for s
    unfolding server_select_def
    by (rule select_arms_keeps [where P = "hashes_inv ?total", OF _ that])
      (simp add: hashes_inv_disk_read hashes_inv_write_hash hashes_inv_hasher)
  moreover have "hashes_inv ?total ?s" using assms(1) by (simp add: hashes_inv_def server_loop_start_def)
  ultimately have "hashes_inv ?total (snd (server_run n ?s))"
    unfolding server_run_def by (rule run_loop_keeps [where P = "hashes_inv ?total"])
  with assms(2) have "hashes_inv ?total s'" by simp
  then show ?thesis unfolding hashes_inv_def by blast
qed

theorem server_sends_hashes_in_order_witness:
  "\<exists>r s' unsent. server_run 3 (server_loop_start
       \<lparr>ses_path = [], ses_block_size = 2, ses_filesize = 5, ses_algorithm = CRC32\<rparr> [1, 2, 3, 4, 5] []
       ([Accept 9], [0]) [] [HsItem 0 [97, 98] [1, 2], HsItem 1 [99] [3, 4], HsEnd]) = (r, s')
     \<and> snd (sl_tx s') @ unsent
       = [0] @ hash_messages (hs_items [HsItem 0 [97, 98] [1, 2], HsItem 1 [99] [3, 4], HsEnd])"
proof -
  obtain r s' where run: "server_run 3 (server_loop_start
       \<lparr>ses_path = [], ses_block_size = 2, ses_filesize = 5, ses_algorithm = CRC32\<rparr> [1, 2, 3, 4, 5] []
       ([Accept 9], [0]) [] [HsItem 0 [97, 98] [1, 2], HsItem 1 [99] [3, 4], HsEnd]) = (r, s')"
    by fastforce
  from server_sends_hashes_in_order [OF _ run] run show ?thesis by simp
qed

section \<open>A whole session\<close>

lemma server_handshake_outcome:
  assumes "tokio_big_endian C" and "length secret \<le> 255" and "valid_session ses"
    and "no_faults (disk c) (ses_path ses)" and "\<not> size_refused (disk c) ses force"
    and "bytes_of (rx c) = handshake_message secret ses force @ rest" and "can_send 3 c"
  obtains c' where "server_handshake C secret c = (Ready (Ok (Accepted ses)), c')" "bytes_of (rx c') = rest"
    "end_of (rx c') = end_of (rx c)" "disk c' = (disk c)\<lparr>files := (files (disk c))(ses_path ses \<mapsto>
      resize (dest_before (disk c) (ses_path ses)) (unat (ses_filesize ses)))\<rparr>"
proof -
  from server_handshake_run [OF assms(1-4,6,7)] assms(5) obtain c' where
    r: "server_handshake C secret c = (Ready (Ok (Accepted ses)), c')" "bytes_of (rx c') = rest"
    "end_of (rx c') = end_of (rx c)" by auto
  with server_handshake_accepted [OF r(1)] show thesis using that by simp
qed

lemma process_new_client_run:
  assumes "tokio_big_endian C" and "length secret \<le> 255" and "valid_session ses"
    and "no_faults (disk c) (ses_path ses)" and "\<not> size_refused (disk c) ses force"
    and "bytes_of (rx c) = handshake_message secret ses force @ concat (map block_message blocks) @ tail"
    and "can_send 3 c" and "end_of (rx c) \<noteq> StillOpen"
    and "list_all (block_fits (ses_block_size ses) (ses_filesize ses)) blocks" and "list_all seekable blocks"
    and "no_block (ses_block_size ses) (ses_filesize ses) tail"
    and "sound_sched (de_sched de)" and "sum_list (map (length \<circ> snd) blocks) \<le> accepts (de_sched de)"
    and "\<not> de_flush_fault de" and "\<not> de_sync_fault de"
    and "\<And>F d. files F (ses_path ses) = Some d \<Longrightarrow> length d = unat (ses_filesize ses) \<Longrightarrow>
      \<exists>hs. hash_file F (ses_path ses) (ses_block_size ses) workers (ses_algorithm ses) = Ok hs
        \<and> hs_no_error (hs_events hs) \<and> hs_left hs = left"
    and "given_back work left"
  shows "\<exists>n0. \<forall>n\<ge>n0. \<exists>c'. process_new_client C hash_file de n secret workers c
        = (if queue left = [] then Ready (Ok Ack) else Pending, c')
    \<and> files (disk c') = (files (disk c))(ses_path ses \<mapsto>
        apply_blocks (resize (dest_before (disk c) (ses_path ses)) (unat (ses_filesize ses))) (positions blocks))"
proof -
  from server_handshake_outcome [OF assms(1-7)] obtain c1 where
    hs: "server_handshake C secret c = (Ready (Ok (Accepted ses)), c1)"
    and bytes: "bytes_of (rx c1) = concat (map block_message blocks) @ tail"
    and e: "end_of (rx c1) = end_of (rx c)"
    and d: "disk c1 = (disk c)\<lparr>files := (files (disk c))(ses_path ses \<mapsto>
      resize (dest_before (disk c) (ses_path ses)) (unat (ses_filesize ses)))\<rparr>" by metis
  obtain h where h: "hash_file (disk c1) (ses_path ses) (ses_block_size ses) workers (ses_algorithm ses) = Ok h"
    "hs_no_error (hs_events h)" "hs_left h = left" using assms(16) [of "disk c1"] d by auto
  have drop: "after_drop h r = (if queue left = [] then r else Pending)" for r :: "StatusCode result poll"
    using after_drop_given_back [of work h r] assms(17) h(3) by simp
  have open_ok: "fs_open_write (disk c1) (ses_path ses) = Ok ()"
    using assms(4) d by (simp add: fs_open_write_def no_faults_def)
  let ?contents = "resize (dest_before (disk c) (ses_path ses)) (unat (ses_filesize ses))"
  let ?n0 = "Suc (wr_waits (de_sched de) + waits (rx c1) + 2 * length (bytes_of (rx c1)))"
  have "\<exists>c'. process_new_client C hash_file de n secret workers c = (if queue left = [] then Ready (Ok Ack) else Pending, c')
      \<and> files (disk c') = (files (disk c))(ses_path ses \<mapsto> apply_blocks ?contents (positions blocks))"
    if "n \<ge> ?n0" for n
  proof -
    from e assms(8) that have "end_of (rx c1) \<noteq> StillOpen"
      "wr_waits (de_sched de) + waits (rx c1) + 2 * length (bytes_of (rx c1)) < n" by simp_all
    from server_loop_total [OF assms(9,10) bytes assms(11) this(1) assms(12,13) h(2) this(2)]
    obtain s' where run: "server_run n (server_loop_start ses ?contents (rx c1) (tx_sched c1, tx_out c1)
        (de_sched de) (hs_events h)) = (Some (Ok ()), s')" "sl_file s' = apply_blocks ?contents (positions blocks)"
      by blast
    then show ?thesis
      using hs h(1) open_ok d assms(14,15)
      by (simp add: process_new_client_def server_session_def Let_def drop)
  qed
  then show ?thesis by blast
qed

text \<open>
  C11: A client that presents the secret, sends valid parameters and then a sequence of blocks is
  served completely: the destination is the former contents brought to the
  announced size with exactly those blocks written, and no other file has changed. This holds
  for every way the network and the disk cut and delay the bytes, and also when the connection
  ends in the middle of a further block. The result is \<open>Ack\<close> if no hash is queued when the stream of hashes is
  dropped; otherwise the server waits for ever for the worker that sent it and never returns, although
  everything is written. A hash is queued when the client leaves while the server waits for the next
  hash and the worker still answers.
\<close>

theorem process_new_client_syncs:
  assumes "tokio_big_endian C" and "length secret \<le> 255" and "valid_session ses"
    and "no_faults (disk c) (ses_path ses)" and "\<not> size_refused (disk c) ses force"
    and "bytes_of (rx c) = handshake_message secret ses force @ concat (map block_message blocks) @ tail"
    and "can_send 3 c" and "end_of (rx c) \<noteq> StillOpen"
    and "list_all (block_fits (ses_block_size ses) (ses_filesize ses)) blocks" and "list_all seekable blocks"
    and "no_block (ses_block_size ses) (ses_filesize ses) tail"
    and "sound_sched (de_sched de)" and "sum_list (map (length \<circ> snd) blocks) \<le> accepts (de_sched de)"
    and "\<not> de_flush_fault de" and "\<not> de_sync_fault de"
    and "\<And>F d. files F (ses_path ses) = Some d \<Longrightarrow> length d = unat (ses_filesize ses) \<Longrightarrow>
      \<exists>hs. hash_file F (ses_path ses) (ses_block_size ses) workers (ses_algorithm ses) = Ok hs
        \<and> hs_no_error (hs_events hs) \<and> hs_left hs = left"
    and "given_back work left"
  shows "\<exists>n0. \<forall>n\<ge>n0. \<exists>c'. process_new_client C hash_file de n secret workers c
        = (if queue left = [] then Ready (Ok Ack) else Pending, c')
    \<and> files (disk c') = (files (disk c))(ses_path ses \<mapsto>
        apply_blocks (resize (dest_before (disk c) (ses_path ses)) (unat (ses_filesize ses))) (positions blocks))"
  using assms by (rule process_new_client_run)

text \<open>The client leaves a byte into the second block; the server has asked for the first hash and the worker has not answered.\<close>

abbreviation sample_stream :: HashStream where
  "sample_stream \<equiv> \<lparr>hs_events = [],
     hs_left = (recv_request (ordered_channel [[(0, (0, [97], [1, 2]))]]))\<lparr>receiver := Idle\<rparr>\<rparr>"

theorem process_new_client_syncs_witness:
  "\<exists>n0. \<forall>n\<ge>n0. \<exists>c'. process_new_client sample_crates (\<lambda>_ _ _ _ _. Ok sample_stream)
       \<lparr>de_sched = [Accept 1, WrWait, Accept 5], de_flush_fault = False, de_sync_fault = False\<rparr> n [120, 121] 1
       \<lparr>rx = [Chunk (handshake_message [120, 121] (sample_session 3) True @ be_bytes 2), Wait, Chunk [7, 0], Eof],
        tx_sched = [Accept 1, WrWait, Accept 1, Accept 1], tx_out = [],
        disk = faultless [[102] \<mapsto> [1, 2]]\<rparr> = (Ready (Ok Ack), c')
    \<and> files (disk c') = [[102] \<mapsto> apply_blocks (resize (dest_before (faultless [[102] \<mapsto> [1, 2]]) [102]) 3) [(2, [7])]]"
proof -
  let ?F = "faultless [[102] \<mapsto> [1, 2]]" and ?left = "hs_left sample_stream"
  have tail: "no_block 2 3 [0]"
    by (auto simp: no_block_def block_message_def dest!: arg_cong [where f = length])
  have left: "given_back [[(0, (0, [97], [1, 2]))]] ?left" "queue ?left = []"
  proof -
    have "chan_reachable [[(0, (0, [97], [1, 2]))]] ?left"
      by (rule chan_run [where acts = "[Request, Cancel]"]) (simp add: chan_eval recv_request_def)
    then show "given_back [[(0, (0, [97], [1, 2]))]] ?left" "queue ?left = []"
      by (simp_all add: given_back_def ordered_channel_def recv_request_def)
  qed
  show ?thesis
    using process_new_client_syncs [where C = sample_crates and secret = "[120, 121]" and ses = "sample_session 3"
      and force = True and blocks = "[(2, [7])]" and tail = "[0]" and workers = 1
      and hash_file = "\<lambda>_ _ _ _ _. Ok sample_stream" and left = ?left
      and de = "\<lparr>de_sched = [Accept 1, WrWait, Accept 5], de_flush_fault = False, de_sync_fault = False\<rparr>"
      and c = "\<lparr>rx = [Chunk (handshake_message [120, 121] (sample_session 3) True @ be_bytes 2), Wait, Chunk [7, 0], Eof],
        tx_sched = [Accept 1, WrWait, Accept 1, Accept 1], tx_out = [], disk = ?F\<rparr>", OF _ _ _ _ _ _ _ _ _ _ _ _ _ _ _ _ left(1)] tail left(2)
    by (simp add: valid_session_def no_faults_def size_refused_def can_send_def block_message_def
        block_fits_def current_block_size_def seekable_def faultless_def)
qed

text \<open>
  C40: The announced size of the file does not bound what is written. In a session with an admissible block size, a block at an
  offset past the end of the file, wherever the file can be extended to, is taken for a full block and written: the loop ends
  without an error, the old contents are still there, and behind them the destination now reaches to the end of the block.
  A client that follows the protocol never sends such a block; the server does not check it.
\<close>

theorem block_past_end_extends_file:
  assumes "valid_session ses" and "length contents = unat (ses_filesize ses)"
    and "ses_filesize ses < offset" and "unat offset < 2 ^ 63" and "length data = unat (ses_block_size ses)"
    and "bytes_of es = block_message (offset, data)" and "end_of es \<noteq> StillOpen"
    and "sound_sched ds" and "length data \<le> accepts ds" and "hs_no_error hs"
    and "wr_waits ds + waits es + 2 * length (bytes_of es) < n"
  shows "\<exists>s'. server_run n (server_loop_start ses contents es w ds hs) = (Some (Ok ()), s')
    \<and> length (sl_file s') = unat offset + unat (ses_block_size ses)
    \<and> take (length contents) (sl_file s') = contents \<and> drop (unat offset) (sl_file s') = data"
proof -
  have bs: "0 < unat (ses_block_size ses)" "unat (ses_block_size ses) \<le> 2 ^ 30"
    using assms(1) by (simp_all add: valid_session_def word_less_nat_alt word_le_nat_alt)
  then have "min (unat (ses_block_size ses)) (2 ^ 64 - (unat offset - unat (ses_filesize ses))) = unat (ses_block_size ses)"
    using assms(4) by simp
  then have "block_fits (ses_block_size ses) (ses_filesize ses) (offset, data)"
    using assms(5) current_block_size_past_end [OF assms(3), of "ses_block_size ses"] by (simp add: block_fits_def)
  then have fits: "list_all (block_fits (ses_block_size ses) (ses_filesize ses)) [(offset, data)]" "list_all seekable [(offset, data)]"
    using assms(4) by (simp_all add: seekable_def)
  have bytes: "bytes_of es = concat (map block_message [(offset, data)]) @ []" using assms(6) by simp
  have acc: "sum_list (map (length \<circ> snd) [(offset, data)]) \<le> accepts ds" using assms(9) by simp
  from server_loop_total [OF fits bytes no_block_Nil assms(7,8) acc assms(10,11), of contents w] obtain s' where
    run: "server_run n (server_loop_start ses contents es w ds hs) = (Some (Ok ()), s')"
      "sl_file s' = apply_blocks contents (positions [(offset, data)])" by blast
  have "length contents < unat offset" "data \<noteq> []" using assms(2,3,5) bs(1) by (auto simp: word_less_nat_alt)
  then have "sl_file s' = contents @ replicate (unat offset - length contents) 0 @ data"
    unfolding run(2) by (simp add: file_write_def write_at_def resize_def)
  with run(1) \<open>length contents < unat offset\<close> assms(5) show ?thesis by auto
qed

theorem block_past_end_extends_file_witness:
  "\<exists>s'. server_run 100 (server_loop_start (sample_session 3) [1, 2, 3] [Chunk (block_message (9, [7, 8])), Eof] ([], [])
       [Accept 1, Accept 1] [HsEnd]) = (Some (Ok ()), s') \<and> length (sl_file s') = 11"
  using block_past_end_extends_file [where ses = "sample_session 3" and contents = "[1, 2, 3]" and offset = 9 and data = "[7, 8]"
      and es = "[Chunk (block_message (9, [7, 8])), Eof]" and ds = "[Accept 1, Accept 1]" and hs = "[HsEnd]" and n = 100 and w = "([], [])"]
  by (auto simp: valid_session_def block_message_def)

text \<open>
  C34: The outcome of a write to the disk is not looked at: when it is an error, the iteration
  goes on as after a success, the rest of the block is dropped, and the loop ends with success
  when the client closes.
\<close>

theorem server_ignores_disk_errors:
  assumes "sl_write_disk s = Some rwa"
    and "rwa_write_all (sl_write_buffer s) rwa (sl_disk_sched s, []) = (Ready (Err e), rwa', ds, out)"
    and "rrfb_read_on (sl_reader s) (sl_rx s) = (Ready (Err e'), r, es)"
  shows "\<exists>s'. server_run (Suc (Suc n)) s = (Some (Ok ()), s')
    \<and> sl_file s' = file_write (sl_file s) (sl_pos s) out"
proof -
  let ?s = "s\<lparr>sl_disk_sched := ds, sl_file := file_write (sl_file s) (sl_pos s) out,
      sl_pos := sl_pos s + length out, sl_write_disk := None\<rparr>"
  have "server_select s = (Continue, ?s)"
    using assms(1,2) by (simp add: server_select_def server_arm_disk_def)
  moreover have "server_select ?s = (Break, ?s\<lparr>sl_rx := es, sl_read_block := fst r, sl_receive_buffer := snd r\<rparr>)"
    using assms(3) by (cases r) (simp add: server_select_def server_arm_disk_def server_arm_read_def)
  ultimately show ?thesis by (simp add: server_run_def)
qed

theorem server_ignores_disk_errors_witness:
  "\<exists>s'. server_run 2 ((server_loop_start (sample_session 2) [1, 2] [Eof] ([], []) [WrFail] [HsEnd])
        \<lparr>sl_write_disk := Some rwa_new, sl_write_buffer := [7, 8]\<rparr>) = (Some (Ok ()), s')
     \<and> sl_file s' = file_write [1, 2] 0 []"
  using server_ignores_disk_errors [where n = 0 and e = IoError and e' = ConnectionClosed and out = "[]" and
      s = "(server_loop_start (sample_session 2) [1, 2] [Eof] ([], []) [WrFail] [HsEnd])
        \<lparr>sl_write_disk := Some rwa_new, sl_write_buffer := [7, 8]\<rparr>"]
  by (simp add: server_loop_start_def rwa_write_all_def rwa_new_def write_loop.simps
      rrfb_read_on_def rrfb_new_def read_loop.simps numeral_2_eq_2)

end
