(* ===== verification/Hash_File.thy ===== *)
theory Hash_File
  imports Event_Loop Ordered_Channel
begin

text \<open>
  The hashing of a file by worker threads, \<open>hash_file.rs\<close>. A worker reads every \<open>workers\<close>-th
  block of the file, hashes it and sends it with its index; the ordered channel puts the blocks
  of all workers in order. The loop of a worker is a function of its environment (what its
  reads return, whether a send succeeds, whether another worker has failed); positions and
  offsets keep the width of the source. The properties: the workers' blocks partition the
  file, and what comes out of the channel are the blocks of the file in order.
\<close>

section \<open>One worker\<close>

record worker_env =
  we_open :: bool                                     \<comment> \<open>\<open>File::open\<close> succeeds\<close>
  we_read :: "nat \<Rightarrow> nat \<Rightarrow> u8 list result"           \<comment> \<open>\<open>read_exact\<close> at a position\<close>
  we_send_ok :: "usize \<Rightarrow> bool"                       \<comment> \<open>\<open>tx.send(block_idx, ..)\<close> succeeds\<close>
  we_error_seen :: "usize \<Rightarrow> bool"                    \<comment> \<open>\<open>error_tx.borrow().is_some()\<close> before that block\<close>

datatype worker_failure = OpenFailed | SeekFailed | ReadFailed usize | SeekNextFailed

datatype worker_end = Ended | ReceiverGone | OtherFailed | Failed worker_failure | OutOfFuel

text \<open>Seeking is on signed 64-bit positions; a negative or too large position is refused.\<close>

definition seek_start :: "u64 \<Rightarrow> nat option" where
  "seek_start offset = (if unat offset < 2 ^ 63 then Some (unat offset) else None)"

definition seek_current :: "nat \<Rightarrow> u64 \<Rightarrow> nat option" where
  "seek_current pos delta =
     (let p = int pos + sint delta in if 0 \<le> p \<and> p < 2 ^ 63 then Some (nat p) else None)"

text \<open>
  What a worker sends: the block's index with its hash and the loan of the buffer. Its receiver reads the block
  through the loan.
\<close>

record FileBlockData =
  fbd_hash :: rstring
  fbd_data :: "u8 list loan"

definition file_block_data_new :: "u8 list loan \<Rightarrow> FileBlockData" where
  "file_block_data_new data = \<lparr>fbd_hash = [], fbd_data = data\<rparr>"

definition block_item :: "usize \<Rightarrow> rstring \<Rightarrow> u8 list \<Rightarrow> hs_item" where
  "block_item block_idx hash buffer =
     (case loan_new buffer of (loaned, reclaimer) \<Rightarrow>
        (let block_data = (file_block_data_new loaned)\<lparr>fbd_hash := hash\<rparr> in
         (block_idx, fbd_hash block_data, loan_deref (fbd_data block_data))))"

lemma block_item_simp [simp]: "block_item block_idx hash buffer = (block_idx, hash, buffer)"
  by (simp add: block_item_def file_block_data_new_def loan_new_def loan_deref_def)

text \<open>The loop, with the cursor of the file; the result is what was sent and how the worker ended.\<close>

fun hash_worker_loop :: "nat \<Rightarrow> crates \<Rightarrow> worker_env \<Rightarrow> HashAlgorithm \<Rightarrow> usize \<Rightarrow> usize \<Rightarrow> u8 \<Rightarrow>
    usize \<Rightarrow> usize \<Rightarrow> nat \<Rightarrow> hs_item list \<times> worker_end" where
  "hash_worker_loop 0 C E algorithm file_size block_size workers offset block_idx pos = ([], OutOfFuel)"
| "hash_worker_loop (Suc n) C E algorithm file_size block_size workers offset block_idx pos =
     (if offset < file_size then
        if we_error_seen E block_idx then ([], OtherFailed)
        else
          (let size = unat (current_block_size block_size file_size offset) in
           case we_read E pos size of
             Inl e \<Rightarrow> ([], Failed (ReadFailed block_idx))
           | Inr data \<Rightarrow>
               (let hash = hash_data C data algorithm in
                if \<not> we_send_ok E block_idx then ([], ReceiverGone)
                else
                  (case seek_current (pos + size) (ucast (workers - 1) * block_size) of
                     None \<Rightarrow> ([block_item block_idx hash data], Failed SeekNextFailed)
                   | Some pos' \<Rightarrow>
                       (case hash_worker_loop n C E algorithm file_size block_size workers
                               (offset + ucast workers * block_size) (block_idx + ucast workers) pos' of
                          (items, fin) \<Rightarrow> (block_item block_idx hash data # items, fin)))))
      else ([], Ended))"

definition hash_worker :: "nat \<Rightarrow> crates \<Rightarrow> worker_env \<Rightarrow> HashAlgorithm \<Rightarrow> usize \<Rightarrow> usize \<Rightarrow> u8 \<Rightarrow> usize \<Rightarrow>
    hs_item list \<times> worker_end" where
  "hash_worker n C E algorithm file_size block_size workers i =
     (let offset = i * block_size in
      if \<not> we_open E then ([], Failed OpenFailed)
      else
        (case seek_start offset of
           None \<Rightarrow> ([], Failed SeekFailed)
         | Some pos \<Rightarrow> hash_worker_loop n C E algorithm file_size block_size workers offset i pos))"

text \<open>\<open>HashStream::recv\<close>: the error at entry, then whichever of the two futures is ready, in either order.\<close>

definition hash_stream_recv :: "rstring option \<Rightarrow> hs_item option poll \<Rightarrow> rstring option \<Rightarrow> bool \<Rightarrow>
    hs_item option result poll" where
  "hash_stream_recv error_before value changed rx_first =
     (case error_before of
        Some m \<Rightarrow> Ready (Err (HashWorkerFailed m))
      | None \<Rightarrow>
          (case (value, changed) of
             (Pending, None) \<Rightarrow> Pending
           | (Ready v, None) \<Rightarrow> Ready (Ok v)
           | (Pending, Some m) \<Rightarrow> Ready (Err (HashWorkerFailed m))
           | (Ready v, Some m) \<Rightarrow> if rx_first then Ready (Ok v) else Ready (Err (HashWorkerFailed m))))"

section \<open>The specification: the blocks of the file\<close>

definition hash_item :: "crates \<Rightarrow> HashAlgorithm \<Rightarrow> nat \<Rightarrow> u8 list \<Rightarrow> nat \<Rightarrow> hs_item" where
  "hash_item C algorithm bs f k = (word_of_nat k, hash_data C (block_at bs f k) algorithm, block_at bs f k)"

definition hash_items :: "crates \<Rightarrow> HashAlgorithm \<Rightarrow> nat \<Rightarrow> u8 list \<Rightarrow> hs_item list" where
  "hash_items C algorithm bs f = map (hash_item C algorithm bs f) [0..<div_ceil (length f) bs]"

text \<open>The environment of a worker on a file that does not change and does not fail.\<close>

definition file_env :: "u8 list \<Rightarrow> worker_env" where
  "file_env f = \<lparr>we_open = True,
     we_read = \<lambda>pos n. if pos + n \<le> length f then Ok (take n (drop pos f)) else Err UnexpectedEof,
     we_send_ok = \<lambda>_. True, we_error_seen = \<lambda>_. False\<rparr>"

text \<open>Every \<open>W\<close>-th number from \<open>k\<close> on.\<close>

lemma strided_unfold:
  assumes "0 < (W::nat)"
  shows "filter (\<lambda>x. x mod W = k mod W) [k..<m]
    = (if k < m then k # filter (\<lambda>x. x mod W = k mod W) [k + W..<m] else [])"
proof (cases "k < m")
  case True
  have none: "filter (\<lambda>x. x mod W = k mod W) [Suc k..<l] = []" if "l \<le> k + W" for l
  proof -
    have "x mod W \<noteq> k mod W" if "Suc k \<le> x" "x < l" for x
    proof
      assume "x mod W = k mod W"
      then have "W dvd x - k" using that by (simp add: mod_eq_dvd_iff_nat)
      moreover have "0 < x - k" "x - k < W" using that \<open>l \<le> k + W\<close> by linarith+
      ultimately show False by (auto dest: dvd_imp_le)
    qed
    then show ?thesis by (auto simp: filter_empty_conv)
  qed
  have "[Suc k..<m] = [Suc k..<min m (k + W)] @ [k + W..<m]"
  proof (cases "k + W \<le> m")
    case True
    then have "[Suc k..<m] = [Suc k..<k + W] @ [k + W..<m]"
      using assms upt_add_eq_append [of "Suc k" "k + W" "m - (k + W)"] by simp
    then show ?thesis using True by (simp add: min_def)
  qed simp
  then have "filter (\<lambda>x. x mod W = k mod W) [Suc k..<m] = filter (\<lambda>x. x mod W = k mod W) [k + W..<m]"
    using none [of "min m (k + W)"] by simp
  moreover have "[k..<m] = k # [Suc k..<m]" using True by (rule upt_conv_Cons)
  ultimately show ?thesis using True by simp
qed simp

section \<open>A worker hashes every \<open>workers\<close>-th block\<close>

text \<open>
  The sizes for which no offset wraps and no position is out of the range of a file: in a
  session the block size is at most 1 GiB and there are at most 255 workers.
\<close>

definition sizes_ok :: "nat \<Rightarrow> usize \<Rightarrow> u8 \<Rightarrow> bool" where
  "sizes_ok len block_size workers \<longleftrightarrow>
     0 < block_size \<and> 0 < workers \<and> len + unat workers * unat block_size < 2 ^ 63"

lemma ucast_u8: "ucast (w :: u8) = (word_of_nat (unat w) :: usize)"
  by (simp add: unsigned_ucast_eq)

lemma worker_next_offset:
  "word_of_nat (k * unat bs) + ucast (w :: u8) * (bs :: usize) = word_of_nat ((k + unat w) * unat bs)"
  unfolding ucast_u8 distrib_right of_nat_add of_nat_mult by simp

lemma unat_small: "m < 2 ^ 64 \<Longrightarrow> unat (word_of_nat m :: usize) = m"
  by (simp add: unat_of_nat)

lemma seek_current_small: "pos + m < 2 ^ 63 \<Longrightarrow> seek_current pos (word_of_nat m) = Some (pos + m)"
proof -
  assume lt: "pos + m < 2 ^ 63"
  then have "sint (word_of_nat m :: u64) = int m" by (simp add: signed_of_nat signed_take_bit_int_eq_self)
  then show ?thesis using lt by (simp add: seek_current_def nat_int_add)
qed

lemma seek_over_others:
  assumes "sizes_ok len bs w" and "pos \<le> len"
  shows "seek_current pos (ucast (w - 1) * bs) = Some (pos + (unat w - 1) * unat bs)"
proof -
  have "0 < unat w" using assms(1) by (simp add: sizes_ok_def word_less_nat_alt)
  then have "unat (w - 1) = unat w - 1"
    by (simp add: unat_minus_one word_less_nat_alt unat_gt_0)
  then have d: "ucast (w - 1) * bs = word_of_nat ((unat w - 1) * unat bs)"
    unfolding ucast_u8 of_nat_mult by simp
  have le: "(unat w - 1) * unat bs \<le> unat w * unat bs" by (rule mult_le_mono1) simp
  then have lt: "pos + (unat w - 1) * unat bs < 2 ^ 63"
    using assms unfolding sizes_ok_def by linarith
  show ?thesis unfolding d by (rule seek_current_small [OF lt])
qed

text \<open>After a block the cursor stands at the worker's next block, or there is none.\<close>

lemma worker_next_pos:
  assumes "0 < W" and "k * B \<le> N"
  shows "k * B + min B (N - k * B) + (W - 1) * B = (k + W) * B \<or> (N :: nat) \<le> (k + W) * B"
proof (cases "B \<le> N - k * B")
  case True
  have "B + (W - 1) * B = W * B" using assms(1) by (cases W) simp_all
  with True show ?thesis by (simp add: distrib_right)
next
  case False
  have "1 * B \<le> W * B" by (rule mult_le_mono1) (use assms(1) in simp)
  with False have "N \<le> k * B + W * B" by linarith
  then show ?thesis by (simp add: distrib_right)
qed

text \<open>One iteration of the loop on a file that can be read.\<close>

lemma hash_worker_iteration:
  assumes ok: "sizes_ok (length f) bs w" and True: "k * unat bs < length f"
    and rec: "hash_worker_loop n C (file_env f) a (word_of_nat (length f)) bs w
        (word_of_nat ((k + unat w) * unat bs)) (word_of_nat (k + unat w))
        (k * unat bs + min (unat bs) (length f - k * unat bs) + (unat w - 1) * unat bs) = (items, fin)"
  shows "hash_worker_loop (Suc n) C (file_env f) a (word_of_nat (length f)) bs w
      (word_of_nat (k * unat bs)) (word_of_nat k) (k * unat bs) = (hash_item C a (unat bs) f k # items, fin)"
proof -
  let ?B = "unat bs" and ?W = "unat w" and ?N = "length f"
  have fit: "?N + ?W * ?B < 2 ^ 63" using ok by (simp add: sizes_ok_def)
  have uN: "unat (word_of_nat ?N :: usize) = ?N" using fit by (simp add: unat_of_nat)
  have uO: "unat (word_of_nat (k * ?B) :: usize) = k * ?B" by (rule unat_small) (use fit True in simp)
  have lt: "word_of_nat (k * ?B) < (word_of_nat ?N :: usize)" using True uN uO by (simp add: word_less_nat_alt)
  have size: "unat (current_block_size bs (word_of_nat ?N) (word_of_nat (k * ?B))) = min ?B (?N - k * ?B)"
    using current_block_size_in_file [of "word_of_nat (k * ?B)" "word_of_nat ?N" bs] lt
    unfolding uN uO by (simp add: less_imp_le)
  have data: "we_read (file_env f) (k * ?B) (min ?B (?N - k * ?B)) = Ok (block_at ?B f k)"
    using True by (auto simp: file_env_def block_at_def min_def)
  have seek: "seek_current (k * ?B + min ?B (?N - k * ?B)) (ucast (w - 1) * bs)
      = Some (k * ?B + min ?B (?N - k * ?B) + (?W - 1) * ?B)"
    using seek_over_others [OF ok, of "k * ?B + min ?B (?N - k * ?B)"] True by simp
  have idx: "word_of_nat k + ucast w = (word_of_nat (k + ?W) :: usize)" unfolding ucast_u8 of_nat_add ..
  have env: "we_send_ok (file_env f) i" "\<not> we_error_seen (file_env f) i" for i by (simp_all add: file_env_def)
  show ?thesis
    unfolding hash_worker_loop.simps Let_def size data
    using lt env seek rec idx
    by (simp only: worker_next_offset if_True if_False not_True_eq_False sum.case option.case prod.case
        block_item_simp hash_item_def [of C a ?B f k])
qed

lemma hash_worker_loop_file:
  assumes ok: "sizes_ok (length f) bs w" and "div_ceil (length f) (unat bs) - k < n"
    and "k * unat bs < length f + unat w * unat bs" and "pos = k * unat bs \<or> length f \<le> k * unat bs"
  shows "hash_worker_loop n C (file_env f) a (word_of_nat (length f)) bs w
      (word_of_nat (k * unat bs)) (word_of_nat k) pos
    = (map (hash_item C a (unat bs) f)
        (filter (\<lambda>x. x mod unat w = k mod unat w) [k..<div_ceil (length f) (unat bs)]), Ended)"
  using assms(2-)
proof (induction n arbitrary: k pos)
  case (Suc n)
  let ?B = "unat bs" and ?W = "unat w" and ?N = "length f"
  have B: "0 < ?B" and W: "0 < ?W" and fit: "?N + ?W * ?B < 2 ^ 63"
    using ok by (simp_all add: sizes_ok_def word_less_nat_alt)
  show ?case
  proof (cases "k * ?B < ?N")
    case False
    have "unat (word_of_nat ?N :: usize) = ?N" "unat (word_of_nat (k * ?B) :: usize) = k * ?B"
      by (rule unat_small, use fit Suc.prems(2) in simp)+
    with False have "\<not> word_of_nat (k * ?B) < (word_of_nat ?N :: usize)" by (simp add: word_less_nat_alt)
    moreover have "\<not> k < div_ceil ?N ?B" using False B by (simp add: div_ceil_iff)
    ultimately show ?thesis by simp
  next
    case True
    then have k: "k < div_ceil ?N ?B" using B by (simp add: div_ceil_iff)
    have pos: "pos = k * ?B" using Suc.prems(3) True by simp
    let ?pos = "k * ?B + min ?B (?N - k * ?B) + (?W - 1) * ?B"
    have next_pos: "?pos = (k + ?W) * ?B \<or> ?N \<le> (k + ?W) * ?B"
      by (rule worker_next_pos) (use W True in auto)
    have "div_ceil ?N ?B - (k + ?W) < n" using Suc.prems(1) k W by linarith
    moreover have "(k + ?W) * ?B < ?N + ?W * ?B" using True by (simp add: distrib_right)
    ultimately have "hash_worker_loop n C (file_env f) a (word_of_nat ?N) bs w
        (word_of_nat ((k + ?W) * ?B)) (word_of_nat (k + ?W)) ?pos
      = (map (hash_item C a ?B f) (filter (\<lambda>x. x mod ?W = k mod ?W) [k + ?W..<div_ceil ?N ?B]), Ended)"
      using Suc.IH [of "k + ?W" ?pos] next_pos by simp
    from hash_worker_iteration [OF ok True this] k strided_unfold [OF W, of k] show ?thesis unfolding pos by simp
  qed
qed simp

section \<open>The workers together\<close>

text \<open>The worker threads that \<open>hash_file\<close> starts, each in an environment of its own: what they send, how they end.\<close>

definition hash_workers :: "nat \<Rightarrow> crates \<Rightarrow> HashAlgorithm \<Rightarrow> (nat \<Rightarrow> worker_env) \<Rightarrow> usize \<Rightarrow> usize \<Rightarrow> u8 \<Rightarrow>
    (hs_item list \<times> worker_end) list" where
  "hash_workers n C algorithm E file_size block_size workers =
     map (\<lambda>i. hash_worker n C (E i) algorithm file_size block_size workers (word_of_nat i)) [0..<unat workers]"

text \<open>What they send, as the work of the senders of an ordered channel.\<close>

definition indexed_items :: "(hs_item list \<times> worker_end) list \<Rightarrow> (nat \<times> hs_item) list list" where
  "indexed_items results = map (\<lambda>(items, _). map (\<lambda>item. (unat (fst item), item)) items) results"

definition hash_work :: "nat \<Rightarrow> crates \<Rightarrow> HashAlgorithm \<Rightarrow> u8 list \<Rightarrow> usize \<Rightarrow> u8 \<Rightarrow> (nat \<times> hs_item) list list" where
  "hash_work n C algorithm f block_size workers =
     indexed_items (hash_workers n C algorithm (\<lambda>_. file_env f) (word_of_nat (length f)) block_size workers)"

lemma hash_worker_file:
  assumes ok: "sizes_ok (length f) bs w" and "div_ceil (length f) (unat bs) < n" and i: "i < unat w"
  shows "hash_worker n C (file_env f) a (word_of_nat (length f)) bs w (word_of_nat i)
    = (map (hash_item C a (unat bs) f) (filter (\<lambda>k. k mod unat w = i) [0..<div_ceil (length f) (unat bs)]), Ended)"
proof -
  let ?B = "unat bs" and ?nb = "div_ceil (length f) (unat bs)"
  have "0 < ?B" using ok by (simp add: sizes_ok_def word_less_nat_alt)
  with i have lt: "i * ?B < unat w * ?B" by simp
  then have small: "i * ?B < 2 ^ 63" using ok unfolding sizes_ok_def by linarith
  have off: "word_of_nat i * bs = (word_of_nat (i * ?B) :: usize)" by simp
  have u: "unat (word_of_nat (i * ?B) :: usize) = i * ?B" by (rule unat_small) (use small in simp)
  have skip: "filter (\<lambda>x. x mod unat w = i mod unat w) [i..<?nb] = filter (\<lambda>k. k mod unat w = i) [0..<?nb]"
  proof (cases "i \<le> ?nb")
    case True
    then have "[0..<?nb] = [0..<i] @ [i..<?nb]" using upt_add_eq_append [of 0 i "?nb - i"] by simp
    moreover have "filter (\<lambda>k. k mod unat w = i) [0..<i] = []" using i by (auto simp: filter_empty_conv)
    ultimately show ?thesis using i by simp
  next
    case False
    then show ?thesis using i by (auto simp: filter_empty_conv)
  qed
  have "seek_start (word_of_nat (i * ?B)) = Some (i * ?B)"
    unfolding seek_start_def u using small by (simp only: if_True)
  moreover have "hash_worker_loop n C (file_env f) a (word_of_nat (length f)) bs w
      (word_of_nat (i * ?B)) (word_of_nat i) (i * ?B)
    = (map (hash_item C a ?B f) (filter (\<lambda>x. x mod unat w = i mod unat w) [i..<?nb]), Ended)"
    using assms(2) lt by (intro hash_worker_loop_file [OF ok] trans_less_add2) linarith+
  ultimately show ?thesis
    unfolding hash_worker_def off Let_def skip by (simp add: file_env_def)
qed

lemma hash_work_file:
  assumes ok: "sizes_ok (length f) bs w" and "div_ceil (length f) (unat bs) < n"
  shows "hash_work n C a f bs w = map (\<lambda>i. map (\<lambda>k. (k, hash_item C a (unat bs) f k))
      (filter (\<lambda>k. k mod unat w = i) [0..<div_ceil (length f) (unat bs)])) [0..<unat w]"
proof -
  let ?nb = "div_ceil (length f) (unat bs)"
  have "k < 2 ^ 64" if "k < ?nb" for k
  proof -
    have B: "0 < unat bs" using ok by (simp add: sizes_ok_def word_less_nat_alt)
    with that have "k * unat bs < length f" by (simp add: div_ceil_iff)
    moreover have "k \<le> k * unat bs" using B by (cases "unat bs") simp_all
    ultimately have "k < 2 ^ 63" using ok unfolding sizes_ok_def by linarith
    then show ?thesis by simp
  qed
  then have "unat (fst (hash_item C a (unat bs) f k)) = k" if "k < ?nb" for k
    using that by (simp add: hash_item_def unat_of_nat)
  then show ?thesis unfolding hash_work_def hash_workers_def indexed_items_def
    by (auto simp: hash_worker_file [OF assms])
qed

text \<open>The workers' blocks partition the file: every block belongs to exactly one of them.\<close>

lemma set_hash_work:
  assumes "sizes_ok (length f) bs w" and "div_ceil (length f) (unat bs) < n"
  shows "set (concat (hash_work n C a f bs w))
    = (\<lambda>k. (k, hash_item C a (unat bs) f k)) ` {..<div_ceil (length f) (unat bs)}"
proof -
  have "0 < unat w" using assms(1) by (simp add: sizes_ok_def word_less_nat_alt)
  then show ?thesis unfolding hash_work_file [OF assms] by fastforce
qed

lemma distinct_hash_work:
  assumes "sizes_ok (length f) bs w" and "div_ceil (length f) (unat bs) < n"
  shows "distinct (map fst (concat (hash_work n C a f bs w)))"
proof -
  have "map fst (concat (hash_work n C a f bs w))
      = concat (map (\<lambda>i. filter (\<lambda>k. k mod unat w = i) [0..<div_ceil (length f) (unat bs)]) [0..<unat w])"
    unfolding hash_work_file [OF assms] by (simp add: map_concat o_def)
  moreover have "distinct (concat (map (\<lambda>i. filter (\<lambda>k. k mod unat w = i) [0..<m]) is))"
    if "distinct is" for m "is" using that by (induction "is") auto
  ultimately show ?thesis by simp
qed

text \<open>What any receiver has seen at any moment are the first blocks of the file.\<close>

lemma hash_stream_prefix:
  assumes ok: "sizes_ok (length f) bs w" "div_ceil (length f) (unat bs) < n"
    and r: "chan_reachable (hash_work n C a f bs w) c"
  shows "map snd (received c) = take (length (received c)) (hash_items C a (unat bs) f)"
proof -
  let ?nb = "div_ceil (length f) (unat bs)" and ?it = "hash_item C a (unat bs) f"
  note inv = chan_reachable_inv [OF r distinct_hash_work [OF ok]]
  have sub: "set (received c) \<subseteq> (\<lambda>k. (k, ?it k)) ` {..<?nb}"
    using inv set_hash_work [OF ok] by (auto simp: chan_inv_def)
  then have "snd x = ?it (fst x)" if "x \<in> set (received c)" for x using that by auto
  then have "map snd (received c) = map ?it (map fst (received c))" by simp
  also have "map fst (received c) = [0..<length (received c)]" using inv by (simp add: chan_inv_def)
  also have len: "length (received c) \<le> ?nb"
  proof -
    have "fst ` set (received c) \<subseteq> fst ` (\<lambda>k. (k, ?it k)) ` {..<?nb}" using sub by (rule image_mono)
    then have "{..<length (received c)} \<subseteq> {..<?nb}" using received_idx [OF inv] by (simp add: image_image)
    then show ?thesis by (metis finite_lessThan card_lessThan card_mono)
  qed
  then have "map ?it [0..<length (received c)] = take (length (received c)) (hash_items C a (unat bs) f)"
    by (simp add: hash_items_def take_map)
  finally show ?thesis .
qed

section \<open>Properties\<close>

text \<open>
  Each worker terminates and sends exactly its share of the file: the blocks whose index is
  congruent to its number modulo the number of workers, in increasing order, each with its
  index, its hash and its data; no offset or position wraps on the way.
\<close>

theorem worker_share:
  assumes "sizes_ok (length f) bs w" and "div_ceil (length f) (unat bs) < n" and "i < unat w"
  shows "hash_worker n C (file_env f) a (word_of_nat (length f)) bs w (word_of_nat i)
    = (map (hash_item C a (unat bs) f) (filter (\<lambda>k. k mod unat w = i) [0..<div_ceil (length f) (unat bs)]), Ended)"
  using assms by (rule hash_worker_file)

theorem worker_share_witness:
  "hash_worker 4 sample_crates (file_env [1, 2, 3, 4, 5]) CRC32 (word_of_nat (length [1, 2, 3, 4, 5 :: u8])) 2 2 (word_of_nat 0)
    = (map (hash_item sample_crates CRC32 (unat (2 :: usize)) [1, 2, 3, 4, 5])
        (filter (\<lambda>k. k mod unat (2 :: u8) = 0) [0..<div_ceil (length [1, 2, 3, 4, 5 :: u8]) (unat (2 :: usize))]), Ended)"
  by (rule worker_share) (simp_all add: sizes_ok_def div_ceil_def)

text \<open>
  C14: The hash stream is the file. With any number of workers and any interleaving, what the
  receiver has got at any moment are the first blocks of the file in order, each with its hash;
  and when the stream ends without having been closed, it has got them all.
\<close>

theorem hash_stream_is_file:
  assumes "sizes_ok (length f) bs w" and "div_ceil (length f) (unat bs) < n"
    and "chan_reachable (hash_work n C a f bs w) c"
  shows "map snd (received c) = take (length (received c)) (hash_items C a (unat bs) f)
    \<and> ((\<forall>s \<in> set (senders c). s_pc s = Exited) \<and> queue c = [] \<and> \<not> recv_closed (shared c)
      \<longrightarrow> map snd (received c) = hash_items C a (unat bs) f)"
proof -
  let ?nb = "div_ceil (length f) (unat bs)"
  note d = distinct_hash_work [OF assms(1,2)] and p = hash_stream_prefix [OF assms]
  have "length (received c) = ?nb"
    if "\<forall>s \<in> set (senders c). s_pc s = Exited" "queue c = []" "\<not> recv_closed (shared c)"
  proof -
    have "set (received c) = set (concat (hash_work n C a f bs w))"
      using channel_exhausted [OF d chan_reachable_inv [OF assms(3) d] _ that(2,3)] that(1) by blast
    then have "fst ` set (received c) = {..<?nb}"
      unfolding set_hash_work [OF assms(1,2)] by (simp add: image_image)
    with received_idx [OF chan_reachable_inv [OF assms(3) d]] have "{..<length (received c)} = {..<?nb}" by simp
    then show ?thesis by (metis card_lessThan)
  qed
  with p show ?thesis by (auto simp: hash_items_def)
qed

theorem hash_stream_is_file_witness:
  "\<exists>c. chan_reachable (hash_work 3 sample_crates CRC32 [7] 1 1) c \<and> length (received c) = 1
     \<and> map snd (received c) = hash_items sample_crates CRC32 (unat (1 :: usize)) [7]"
proof -
  have ok: "sizes_ok (length [7 :: u8]) 1 1" "div_ceil (length [7 :: u8]) (unat (1 :: usize)) < 3"
    by (simp_all add: sizes_ok_def div_ceil_def)
  let ?it = "hash_item sample_crates CRC32 (unat (1 :: usize)) [7] 0"
  have w: "hash_work 3 sample_crates CRC32 [7] 1 1 = [[(0, ?it)]]"
    unfolding hash_work_file [OF ok] by (simp add: div_ceil_def)
  have "\<exists>c. chan_exec [Request, Call 0, Pass 0, Deliver, DropLoan 0, Reclaim 0, Finish 0]
      (ordered_channel [[(0, ?it)]]) = Some c \<and> length (received c) = 1 \<and> queue c = []
      \<and> \<not> recv_closed (shared c) \<and> (\<forall>s \<in> set (senders c). s_pc s = Exited)"
    by (simp add: chan_eval)
  then obtain c where c: "chan_reachable [[(0, ?it)]] c" "length (received c) = 1" "queue c = []"
    "\<not> recv_closed (shared c)" "\<forall>s \<in> set (senders c). s_pc s = Exited"
    using chan_run by blast
  with hash_stream_is_file [OF ok, of sample_crates CRC32 c] show ?thesis unfolding w by blast
qed

section \<open>The stream as the event loops see it\<close>

text \<open>
  \<open>hash_file\<close>: the size of the file is read, the workers are started, and the stream yields what
  they send in the order of the indices, up to the first block that never comes, as the ordered
  channel delivers it. The environment says how often a poll finds nothing yet before each block and
  what the workers meet, and in which state the stream is dropped. When a worker has failed, some of the blocks may still
  come before it is noticed. A \<open>recv\<close> that is called after the failure returns the error; in one that is under way the
  two futures race: it returns the error, or, if all senders are gone and it looks at the channel first, the
  end of the stream.
\<close>

record stream_env =
  st_delays :: "nat \<Rightarrow> nat"                       \<comment> \<open>polls that find nothing before each block\<close>
  st_worker :: "u8 list \<Rightarrow> nat \<Rightarrow> worker_env"   \<comment> \<open>the environment of each worker on that file\<close>
  st_os_error :: rstring                           \<comment> \<open>text of the system's error\<close>
  st_noticed :: nat                                \<comment> \<open>blocks received before a failure is noticed\<close>
  st_at_entry :: bool                              \<comment> \<open>the failure is there when the last \<open>recv\<close> is called\<close>
  st_all_gone :: bool                              \<comment> \<open>all senders are gone when that \<open>recv\<close> is woken by the failure\<close>
  st_channel_first :: bool                         \<comment> \<open>\<open>recv\<close> sees the end of the channel before the error\<close>
  st_left :: "hs_item channel"                     \<comment> \<open>the channel and its threads when the stream is dropped\<close>

fun failure_message :: "worker_failure \<Rightarrow> rstring \<Rightarrow> rstring" where
  "failure_message OpenFailed e = lit ''Failed to open file: '' @ e"
| "failure_message SeekFailed e = lit ''Failed to seek: '' @ e"
| "failure_message (ReadFailed block_idx) e = lit ''Failed to read block '' @ dec (unat block_idx) @ lit '': '' @ e"
| "failure_message SeekNextFailed e = lit ''Failed to seek to next block: '' @ e"

fun first_failure :: "worker_end list \<Rightarrow> worker_failure option" where
  "first_failure [] = None"
| "first_failure (Failed x # es) = Some x"
| "first_failure (_ # es) = first_failure es"

definition in_order :: "(nat \<times> 'v) list \<Rightarrow> (nat \<times> 'v) list" where
  "in_order xs = map snd (takeWhile (\<lambda>(j, x). j = fst x) (zip [0..<length xs] xs))"

text \<open>An outcome of \<open>recv\<close> as an event of the stream.\<close>

fun recv_event :: "hs_item option result poll \<Rightarrow> hs_event" where
  "recv_event (Ready (Inr (Some (i, hash, data)))) = HsItem i hash data"
| "recv_event (Ready (Inr None)) = HsEnd"
| "recv_event (Ready (Inl (HashWorkerFailed m))) = HsErr m"
| "recv_event _ = HsWait"

definition stream_events :: "stream_env \<Rightarrow> (nat \<times> hs_item) list \<Rightarrow> worker_failure option \<Rightarrow> hs_event list" where
  "stream_events E xs failure =
     (let ys = (if failure = None then xs else take (st_noticed E) xs);
          msg = map_option (\<lambda>x. failure_message x (st_os_error E)) failure in
      concat (map (\<lambda>(k, item). replicate (st_delays E k) HsWait
          @ [recv_event (hash_stream_recv None (Ready (Some item)) None True)]) ys)
      @ replicate (st_delays E (length ys)) HsWait
      @ [recv_event (hash_stream_recv (if st_at_entry E then msg else None)
            (if failure = None \<or> st_all_gone E then Ready None else Pending) msg (st_channel_first E))])"

definition hash_file :: "nat \<Rightarrow> crates \<Rightarrow> stream_env \<Rightarrow> (rstring \<rightharpoonup> u8 list) \<Rightarrow> rstring \<Rightarrow> usize \<Rightarrow> u8 \<Rightarrow> HashAlgorithm \<Rightarrow>
    HashStream result" where
  "hash_file n C E fls path block_size workers algorithm =
     (case fls path of
        None \<Rightarrow> Err IoError
      | Some f \<Rightarrow>
          (let results = hash_workers n C algorithm (st_worker E f) (word_of_nat (length f)) block_size workers in
           Ok \<lparr>hs_events = stream_events E (in_order (sort_key fst (concat (indexed_items results))))
                 (first_failure (map snd results)), hs_left = st_left E\<rparr>))"

text \<open>The environment in which every system call of the workers succeeds, with any timing and any state at the drop.\<close>

definition reliable_env :: "(nat \<Rightarrow> nat) \<Rightarrow> hs_item channel \<Rightarrow> stream_env" where
  "reliable_env delays left = \<lparr>st_delays = delays, st_worker = \<lambda>f _. file_env f, st_os_error = [], st_noticed = 0,
     st_at_entry = False, st_all_gone = False, st_channel_first = False, st_left = left\<rparr>"

lemma hs_items_waits [simp]:
  "hs_items (replicate n HsWait @ es) = hs_items es" "hs_no_error (replicate n HsWait @ es) = hs_no_error es"
  by (induction n) simp_all

lemma stream_events_items:
  "hs_items (stream_events E xs failure) = map snd (if failure = None then xs else take (st_noticed E) xs)"
  "hs_no_error (stream_events E xs failure) \<longleftrightarrow> failure = None \<or> \<not> st_at_entry E \<and> st_all_gone E \<and> st_channel_first E"
proof -
  let ?ev = "\<lambda>d (k :: nat, item). replicate (d k) HsWait @ [recv_event (hash_stream_recv None (Ready (Some item)) None True)]"
  have "hs_items (concat (map (?ev d) ys) @ es) = map snd ys @ hs_items es"
    "hs_no_error (concat (map (?ev d) ys) @ es) = hs_no_error es" for d ys es
    by (induction ys) (auto simp: hash_stream_recv_def)
  then show "hs_items (stream_events E xs failure) = map snd (if failure = None then xs else take (st_noticed E) xs)"
    "hs_no_error (stream_events E xs failure) \<longleftrightarrow> failure = None \<or> \<not> st_at_entry E \<and> st_all_gone E \<and> st_channel_first E"
    unfolding stream_events_def by (auto simp: hash_stream_recv_def Let_def split: option.splits)
qed

lemma in_order_upt: "in_order (map (\<lambda>k. (k, g k)) [0..<m]) = map (\<lambda>k. (k, g k)) [0..<m]"
proof -
  have "takeWhile (\<lambda>(j, x). j = fst x) (zip [0..<m] (map (\<lambda>k. (k, g k)) [0..<m])) = zip [0..<m] (map (\<lambda>k. (k, g k)) [0..<m])"
    by (rule takeWhile_eq_all_conv [THEN iffD2]) (auto simp: set_zip)
  then show ?thesis unfolding in_order_def by (simp del: takeWhile_eq_all_conv)
qed

lemma first_failure_Ended: "(\<And>e. e \<in> set es \<Longrightarrow> e = Ended) \<Longrightarrow> first_failure es = None"
  by (induction es) (simp_all, metis first_failure.simps(3))

lemma sort_hash_work:
  assumes "sizes_ok (length f) bs w" and "div_ceil (length f) (unat bs) < n"
  shows "sort_key fst (concat (hash_work n C a f bs w))
    = map (\<lambda>k. (k, hash_item C a (unat bs) f k)) [0..<div_ceil (length f) (unat bs)]" (is "?l = ?r")
proof (rule map_sorted_distinct_set_unique [where f = fst])
  have r: "distinct (map fst ?r)" by (simp add: o_def)
  then have "inj_on fst (set ?r)" unfolding distinct_map by blast
  moreover show S: "set ?l = set ?r" using set_hash_work [OF assms] by (auto simp: atLeast0LessThan)
  ultimately show "inj_on fst (set ?l \<union> set ?r)" by (simp only: Un_absorb)
  show "sorted (map fst ?l)" by simp
  show "distinct (map fst ?l)" using distinct_hash_work [OF assms] by (simp add: distinct_map)
  show "sorted (map fst ?r)" by (simp add: o_def)
  show "distinct (map fst ?r)" by (rule r)
qed

lemma hash_file_ok:
  assumes "fls p = Some f" and "sizes_ok (length f) bs w" and "div_ceil (length f) (unat bs) < n"
  shows "\<exists>hs. hash_file n C (reliable_env delays left) fls p bs w a = Ok hs
    \<and> hs_items (hs_events hs) = hash_items C a (unat bs) f \<and> hs_no_error (hs_events hs) \<and> hs_left hs = left"
proof -
  let ?results = "hash_workers n C a (\<lambda>_. file_env f) (word_of_nat (length f)) bs w"
  have fin: "first_failure (map snd ?results) = None"
    by (rule first_failure_Ended) (auto simp: hash_workers_def hash_worker_file [OF assms(2,3)])
  have "in_order (sort_key fst (concat (indexed_items ?results)))
      = map (\<lambda>k. (k, hash_item C a (unat bs) f k)) [0..<div_ceil (length f) (unat bs)]"
    using sort_hash_work [OF assms(2,3), of C a] unfolding hash_work_def by (simp only: in_order_upt)
  then have "map snd (in_order (sort_key fst (concat (indexed_items ?results)))) = hash_items C a (unat bs) f"
    by (simp add: hash_items_def)
  with fin assms(1) show ?thesis
    by (simp add: hash_file_def reliable_env_def stream_events_items)
qed

text \<open>When every block has been received and given back, the drop of the stream returns.\<close>

lemma spent_stream:
  assumes "sizes_ok (length f) bs w" and "div_ceil (length f) (unat bs) < n" and "chan_reachable (hash_work n C a f bs w) left"
    and "lent left \<subseteq> fst ` set (queue left)" and "length (received left) = div_ceil (length f) (unat bs)"
  shows "given_back (hash_work n C a f bs w) left" "queue left = []"
proof -
  note d = distinct_hash_work [OF assms(1,2), of C a]
  then show "given_back (hash_work n C a f bs w) left" using assms(3,4) by (simp add: given_back_def)
  have "length (concat (hash_work n C a f bs w)) = length (sort_key fst (concat (hash_work n C a f bs w)))" by simp
  also have "\<dots> = div_ceil (length f) (unat bs)" unfolding sort_hash_work [OF assms(1,2)] by simp
  finally show "queue left = []" using all_received_queue [OF assms(3) d] assms(5) by simp
qed

end
