(* ===== verification/Sync_Session.thy ===== *)
theory Sync_Session
  imports Server Client Hash_File
begin

text \<open>
  Client and server together. The client's blocks to send are computed from the two files
  (\<open>differing\<close>), they are blocks the server accepts, and writing them over the destination makes
  every block equal to the source's unless the two had the same hash. The locale \<open>hash_source\<close>
  is the contract between the event loops and the hashing of a file, interpreted on \<open>hash_file\<close>.
\<close>

section \<open>Without workers nothing is synchronised\<close>

text \<open>A client whose hash stream is empty has nothing to compare and nothing to send.\<close>

definition idle_client :: "sink \<Rightarrow> client_loop \<Rightarrow> bool" where
  "idle_client w s \<longleftrightarrow> cl_write_block s = None \<and> cl_tx s = w \<and> hs_items (cl_hasher s) = [] \<and> hs_no_error (cl_hasher s)"

lemma idle_client_arms:
  "list_all (arm_quiet (idle_client w)) [client_arm_timer, client_arm_write, client_arm_read, client_arm_hasher]"
proof -
  have "arm_quiet (idle_client w) client_arm_timer"
    by (auto simp: arm_quiet_def idle_client_def client_arm_timer_def split: prod.splits bool.splits)
  moreover have "arm_quiet (idle_client w) client_arm_write"
    by (auto simp: arm_quiet_def idle_client_def client_arm_write_def)
  moreover have "arm_quiet (idle_client w) client_arm_read"
    by (auto simp: arm_quiet_def idle_client_def client_arm_read_def Let_def split: prod.splits poll.splits sum.splits)
  moreover have "arm_quiet (idle_client w) client_arm_hasher"
    unfolding arm_quiet_def
  proof (intro allI impI)
    fix s assume "idle_client w s"
    then show "case client_arm_hasher s of Off \<Rightarrow> True | Waiting s' \<Rightarrow> idle_client w s'
      | Fired c s' \<Rightarrow> idle_client w s' \<and> (\<forall>e. c \<noteq> Return e)"
      by (cases "cl_hasher s" rule: hs_recv.cases) (simp_all add: client_arm_hasher_def idle_client_def)
  qed
  ultimately show ?thesis by simp
qed

text \<open>
  C39: The option for zero workers is accepted and synchronises nothing, silently: whatever the two
  files and the remote hashes are, the client never sends a block and never reports an error; when
  it ends, it reports success.
\<close>

theorem zero_workers_sync_nothing:
  assumes "hash_file n C E fls p bs 0 a = Ok hs"
    and "client_run m (client_loop_start bs src_size ts es w (hs_events hs)) = (r, s')"
  shows "cl_tx s' = w \<and> (r = None \<or> r = Some (Ok ()))"
proof -
  have "hs_items (hs_events hs) = []" "hs_no_error (hs_events hs)"
    using assms(1) by (auto simp: hash_file_def hash_workers_def indexed_items_def in_order_def stream_events_items
        split: option.splits)
  then have "idle_client w (client_loop_start bs src_size ts es w (hs_events hs))"
    by (simp add: idle_client_def client_loop_start_def)
  with run_loop_quiet [of "idle_client w" client_select] select_arms_quiet [OF idle_client_arms]
    assms(2) show ?thesis
    unfolding client_run_def client_select_def by (metis idle_client_def)
qed

theorem zero_workers_sync_nothing_witness:
  "\<exists>hs s'. hash_file 5 sample_crates (reliable_env (\<lambda>_. 0) (ordered_channel [])) [[102] \<mapsto> [7]] [102] 1 0 CRC32 = Ok hs
     \<and> client_run (Suc (Suc 0)) (client_loop_start 1 1 [] [Chunk (string_message [97])] ([Accept 9], []) (hs_events hs)) = (Some (Ok ()), s')
     \<and> cl_tx s' = ([Accept 9], [])"
proof -
  let ?hs = "\<lparr>hs_events = [HsEnd], hs_left = ordered_channel []\<rparr>"
  have hs: "hash_file 5 sample_crates (reliable_env (\<lambda>_. 0) (ordered_channel [])) [[102] \<mapsto> [7]] [102] 1 0 CRC32 = Ok ?hs"
    by (simp add: hash_file_def hash_workers_def indexed_items_def in_order_def stream_events_def reliable_env_def
        hash_stream_recv_def)
  let ?s = "client_loop_start 1 1 [] [Chunk (string_message [97])] ([Accept 9], []) [HsEnd]"
  obtain r s' where run: "client_run (Suc (Suc 0)) ?s = (r, s')" by fastforce
  have "string_message [97] = [0, 0, 0, 0, 0, 0, 0, 1, 97]" by code_simp
  then have "fst (client_run (Suc (Suc 0)) ?s) = Some (Ok ())"
    by (simp add: client_run_def client_loop_start_def client_select_def client_arm_timer_def
        client_arm_write_def client_arm_read_def client_arm_hasher_def rrs_new_def rrs_read_on_def rrs_payload_def
        read_loop.simps resize_def write_at_def Let_def from_utf8_def)
  moreover have run': "client_run (Suc (Suc 0)) (client_loop_start 1 1 [] [Chunk (string_message [97])] ([Accept 9], []) (hs_events ?hs)) = (r, s')"
    using run by simp
  ultimately show ?thesis using run zero_workers_sync_nothing [OF hs run'] hs by auto
qed

section \<open>The blocks that differ\<close>

definition remote_hashes :: "crates \<Rightarrow> HashAlgorithm \<Rightarrow> nat \<Rightarrow> u8 list \<Rightarrow> rstring list" where
  "remote_hashes C a B f = map (\<lambda>k. hash_data C (block_at B f k) a) [0..<div_ceil (length f) B]"

definition differing :: "crates \<Rightarrow> HashAlgorithm \<Rightarrow> nat \<Rightarrow> u8 list \<Rightarrow> u8 list \<Rightarrow> nat list" where
  "differing C a B src dst =
     filter (\<lambda>k. hash_data C (block_at B src k) a \<noteq> hash_data C (block_at B dst k) a)
       [0..<div_ceil (length src) B]"

definition sent_blocks :: "usize \<Rightarrow> u8 list \<Rightarrow> nat list \<Rightarrow> (usize \<times> u8 list) list" where
  "sent_blocks bs src ks = map (\<lambda>k. (word_of_nat k * bs, block_at (unat bs) src k)) ks"

lemma diverging_from:
  "diverging (word_of_nat k) (map (hash_item C a B src) [k..<m])
      (map (\<lambda>k. hash_data C (block_at B dst k) a) [k..<m])
    = map (\<lambda>k. (word_of_nat k, block_at B src k))
        (filter (\<lambda>k. hash_data C (block_at B src k) a \<noteq> hash_data C (block_at B dst k) a) [k..<m])"
proof (induction "m - k" arbitrary: k)
  case (Suc l)
  then have "k < m" "l = m - Suc k" by linarith+
  from Suc.hyps(1) [OF this(2)] upt_conv_Cons [OF this(1)]
  show ?case by (simp add: hash_item_def add.commute)
qed simp

lemma diverging_hash_items:
  assumes "length dst = length src"
  shows "diverging 0 (hash_items C a B src) (remote_hashes C a B dst)
    = map (\<lambda>k. (word_of_nat k, block_at B src k)) (differing C a B src dst)"
  using diverging_from [of 0 C a B src "div_ceil (length src) B" dst] assms
  by (simp add: hash_items_def remote_hashes_def differing_def)

lemma send_messages_blocks:
  "send_messages bs (map (\<lambda>k. (word_of_nat k, block_at (unat bs) src k)) ks)
    = concat (map block_message (sent_blocks bs src ks))"
  by (simp add: send_messages_def sent_blocks_def o_def)

lemma hash_messages_items:
  "hash_messages (hash_items C a B f) = concat (map string_message (remote_hashes C a B f))"
  by (simp add: hash_messages_def hash_items_def remote_hashes_def hash_item_def o_def)

lemma remote_hashes_acceptable:
  "hex_documented C \<Longrightarrow> list_all (acceptable 256) (remote_hashes C a B f)"
  by (simp add: remote_hashes_def list_all_iff hash_data_acceptable)

section \<open>The server accepts them\<close>

lemma differing_bounds:
  assumes "0 < B" and "k \<in> set (differing C a B src dst)"
  shows "k * B < length src"
  using assms by (simp add: differing_def div_ceil_iff)

lemma sent_offset:
  assumes "sizes_ok (length src) bs w" and "k * unat bs < length src"
  shows "unat (word_of_nat k * bs) = k * unat bs"
proof -
  have "word_of_nat k * bs = (word_of_nat (k * unat bs) :: usize)" by simp
  moreover have "k * unat bs < 2 ^ 64" using assms by (simp add: sizes_ok_def)
  ultimately show ?thesis using unat_small by presburger
qed

lemma sent_block_fits:
  assumes "sizes_ok (length src) bs w" and "k * unat bs < length src"
  shows "block_fits bs (word_of_nat (length src)) (word_of_nat k * bs, block_at (unat bs) src k)"
proof -
  note off = sent_offset [OF assms]
  have N: "unat (word_of_nat (length src) :: usize) = length src"
    by (rule unat_small) (use assms(1) in \<open>simp add: sizes_ok_def\<close>)
  have "word_of_nat k * bs \<le> (word_of_nat (length src) :: usize)"
    using assms(2) off N by (simp add: word_le_nat_alt)
  then have "unat (word_of_nat (length src) - word_of_nat k * bs) = length src - k * unat bs"
    using off N by (simp add: unat_sub)
  then show ?thesis
    by (simp add: block_fits_def current_block_size_def Let_def word_less_nat_alt length_block_at)
qed

lemma sent_blocks_ok:
  assumes ok: "sizes_ok (length src) bs w"
    and blocks_def: "blocks = sent_blocks bs src (differing C a (unat bs) src dst)"
  shows "list_all (block_fits bs (word_of_nat (length src))) blocks" and "list_all seekable blocks"
    and "positions blocks = map (\<lambda>k. (k * unat bs, block_at (unat bs) src k)) (differing C a (unat bs) src dst)"
    and "sum_list (map (length \<circ> snd) blocks) \<le> div_ceil (length src) (unat bs) * unat bs"
    and "length (concat (map block_message blocks)) \<le> div_ceil (length src) (unat bs) * (unat bs + 8)"
proof -
  let ?ks = "differing C a (unat bs) src dst" and ?nb = "div_ceil (length src) (unat bs)"
  have B: "0 < unat bs" using ok by (simp add: sizes_ok_def word_less_nat_alt)
  note lt = differing_bounds [OF B]
  show "list_all (block_fits bs (word_of_nat (length src))) blocks"
    using sent_block_fits [OF ok lt] by (auto simp: blocks_def sent_blocks_def list_all_iff)
  have "k * unat bs < 2 ^ 63" if "k \<in> set ?ks" for k
    using lt [OF that] ok unfolding sizes_ok_def by linarith
  then show "list_all seekable blocks"
    using sent_offset [OF ok lt] by (auto simp: blocks_def sent_blocks_def list_all_iff seekable_def)
  show "positions blocks = map (\<lambda>k. (k * unat bs, block_at (unat bs) src k)) ?ks"
    using sent_offset [OF ok lt] by (simp add: blocks_def sent_blocks_def)
  have len: "length blocks \<le> ?nb"
    using length_filter_le [of _ "[0..<?nb]"] by (simp add: blocks_def sent_blocks_def differing_def)
  have each: "length (snd b) \<le> unat bs" if "b \<in> set blocks" for b
    using that by (auto simp: blocks_def sent_blocks_def length_block_at)
  have "sum_list (map (length \<circ> snd) blocks) \<le> length blocks * unat bs"
    using each sum_list_mono [of blocks "length \<circ> snd" "\<lambda>_. unat bs"] by (simp add: sum_list_triv o_def)
  also have "\<dots> \<le> ?nb * unat bs" using len by (rule mult_le_mono1)
  finally show "sum_list (map (length \<circ> snd) blocks) \<le> ?nb * unat bs" .
  have "length (concat (map block_message blocks)) \<le> length blocks * (unat bs + 8)"
    using each sum_list_mono [of blocks "length \<circ> block_message" "\<lambda>_. unat bs + 8"]
    by (simp add: sum_list_triv o_def length_concat block_message_def)
  also have "\<dots> \<le> ?nb * (unat bs + 8)" using len by (rule mult_le_mono1)
  finally show "length (concat (map block_message blocks)) \<le> ?nb * (unat bs + 8)" .
qed

section \<open>What the destination becomes\<close>

text \<open>
  \<open>synced\<close>: the destination has the source's length, and each block is the source's, or the
  hashes of the two blocks agreed and the old block was kept.
\<close>

definition synced :: "crates \<Rightarrow> HashAlgorithm \<Rightarrow> nat \<Rightarrow> u8 list \<Rightarrow> u8 list \<Rightarrow> u8 list \<Rightarrow> bool" where
  "synced C a B src dst final \<longleftrightarrow> length final = length src
     \<and> (\<forall>k < div_ceil (length src) B. block_at B final k = block_at B src k
        \<or> hash_data C (block_at B src k) a = hash_data C (block_at B dst k) a
          \<and> block_at B final k = block_at B dst k)"

definition collision_free :: "crates \<Rightarrow> HashAlgorithm \<Rightarrow> nat \<Rightarrow> u8 list \<Rightarrow> u8 list \<Rightarrow> bool" where
  "collision_free C a B src dst \<longleftrightarrow>
     (\<forall>k < div_ceil (length src) B. hash_data C (block_at B src k) a = hash_data C (block_at B dst k) a
        \<longrightarrow> block_at B src k = block_at B dst k)"

lemma synced_exact:
  assumes "0 < B" and "synced C a B src dst final" and "collision_free C a B src dst"
  shows "final = src"
proof (rule blocks_eq_imp_eq [OF assms(1)])
  show "length final = length src" using assms(2) by (simp add: synced_def)
  fix k assume "k < div_ceil (length final) B"
  with assms(2,3) show "block_at B final k = block_at B src k"
    unfolding synced_def collision_free_def by metis
qed

lemma apply_differing_blocks:
  assumes B: "0 < B" and len: "length dst = length src"
  shows "synced C a B src dst
    (apply_blocks dst (map (\<lambda>k. (k * B, block_at B src k)) (differing C a B src dst)))"
proof -
  let ?ks = "differing C a B src dst"
  have "distinct ?ks" by (simp add: differing_def)
  moreover have "length (block_at B src k) = length (block_at B dst k)" for k
    using len by (simp add: length_block_at)
  ultimately have "length (apply_blocks dst (map (\<lambda>k. (k * B, block_at B src k)) ?ks)) = length dst
    \<and> (\<forall>k. block_at B (apply_blocks dst (map (\<lambda>k. (k * B, block_at B src k)) ?ks)) k
      = (if k \<in> set ?ks then block_at B src k else block_at B dst k))"
    by (intro apply_indexed_blocks [OF B])
  then show ?thesis unfolding synced_def using len by (auto simp: differing_def)
qed

lemma apply_sent_blocks:
  assumes ok: "sizes_ok (length src) bs w" and len: "length dst = length src"
  shows "synced C a (unat bs) src dst
    (apply_blocks dst (positions (sent_blocks bs src (differing C a (unat bs) src dst))))"
proof -
  have "0 < unat bs" using ok by (simp add: sizes_ok_def word_less_nat_alt)
  from apply_differing_blocks [OF this len] show ?thesis unfolding sent_blocks_ok(3) [OF ok refl] .
qed

section \<open>The two handshakes fit together\<close>

definition session_of :: "ClientProcessOptions \<Rightarrow> u8 list \<Rightarrow> session" where
  "session_of options src =
     \<lparr>ses_path = opt_dest options, ses_block_size = opt_block_size options,
      ses_filesize = word_of_nat (length src), ses_algorithm = opt_hash_algorithm options\<rparr>"

lemma sent_rx: "sent bs c c' \<Longrightarrow> rx c' = rx c"
  unfolding sent_def by (metis conn.select_convs(1) conn.surjective conn.update_convs(2,3))

text \<open>
  \<open>exchanges m x input output\<close>: fed with \<open>input\<close>, the operation returns \<open>x\<close>, consumes exactly the input
  and sends exactly the output.
\<close>

definition exchanges :: "('z, 'a) io \<Rightarrow> 'a \<Rightarrow> u8 list \<Rightarrow> u8 list \<Rightarrow> bool" where
  "exchanges m x input output \<longleftrightarrow>
     (\<forall>c k rest. bytes_of (rx c) = input @ rest \<longrightarrow> can_send (length output + k) c \<longrightarrow>
        (\<exists>c'. m c = (Ready (Ok x), c') \<and> bytes_of (rx c') = rest \<and> tx_out c' = tx_out c @ output \<and> can_send k c'))"

lemma exchanges_bind:
  fixes m :: "('z, 'a) io"
  assumes "exchanges m x i1 o1" and "exchanges (f x) y i2 o2"
  shows "exchanges (io_bind m f) y (i1 @ i2) (o1 @ o2)"
  unfolding exchanges_def
proof (intro allI impI)
  fix c :: "'z conn_scheme" and k rest
  assume "bytes_of (rx c) = (i1 @ i2) @ rest" and "can_send (length (o1 @ o2) + k) c"
  then have "bytes_of (rx c) = i1 @ i2 @ rest" "can_send (length o1 + (length o2 + k)) c"
    by (simp_all add: ac_simps)
  with assms(1) obtain c1 where 1: "m c = (Ready (Ok x), c1)" "bytes_of (rx c1) = i2 @ rest"
    "tx_out c1 = tx_out c @ o1" "can_send (length o2 + k) c1" unfolding exchanges_def by metis
  from assms(2) 1(2,4) obtain c2 where "f x c1 = (Ready (Ok y), c2)" "bytes_of (rx c2) = rest"
    "tx_out c2 = tx_out c1 @ o2" "can_send k c2" unfolding exchanges_def by metis
  with 1 show "\<exists>c'. io_bind m f c = (Ready (Ok y), c') \<and> bytes_of (rx c') = rest
      \<and> tx_out c' = tx_out c @ o1 @ o2 \<and> can_send k c'" by simp
qed

lemma exchanges_return: "exchanges (io_return x) x [] []" "exchanges (io_lift (Ok x)) x [] []"
  by (simp_all add: exchanges_def)

lemma exchanges_write: "exchanges (io_write_all bs) () [] bs"
  unfolding exchanges_def
proof (intro allI impI)
  fix c :: "'z conn_scheme" and k rest
  assume "bytes_of (rx c) = [] @ rest" "can_send (length bs + k) c"
  from this(2) obtain c' where "io_write_all bs c = (Ready (Ok ()), c')" "sent bs c c'" "can_send k c'"
    by (rule io_write_all_ok)
  with \<open>bytes_of (rx c) = [] @ rest\<close> sent_rx [OF this(2)]
  show "\<exists>c'. io_write_all bs c = (Ready (Ok ()), c') \<and> bytes_of (rx c') = rest
      \<and> tx_out c' = tx_out c @ bs \<and> can_send k c'" by (auto simp: sent_def)
qed

lemma exchanges_write_u8: "exchanges (write_u8 b) () [] [b]"
  unfolding write_u8_def by (rule exchanges_write)

lemma exchanges_write_u64: "tokio_big_endian C \<Longrightarrow> exchanges (write_u64 C w) () [] (be_bytes w)"
  using exchanges_write by (simp add: write_u64_def tokio_big_endian_simps)

lemma exchanges_write_string: "tokio_big_endian C \<Longrightarrow> exchanges (write_string C s) () [] (string_message s)"
  unfolding write_string_def string_message_def
  using exchanges_bind [OF exchanges_write_u64 exchanges_write] by fastforce

lemma exchanges_ack: "exchanges check_status () [0] []"
  unfolding exchanges_def
proof (intro allI impI)
  fix c :: "'z conn_scheme" and k rest
  assume "bytes_of (rx c) = [0] @ rest" "can_send (length ([] :: u8 list) + k) c"
  then have b: "bytes_of (rx c) = 0 # rest" "can_send k c" by simp_all
  from b(1) obtain c' where r: "check_status c = (Ready (Ok ()), c')" "consumed [0] c c'" "bytes_of (rx c') = rest"
    by (rule check_status_byte) (simp add: status_of_u8_def)
  then have "c' = c\<lparr>rx := rx c'\<rparr>" by (simp add: consumed_def)
  then obtain es where "c' = c\<lparr>rx := es\<rparr>" by blast
  with r b(2) show "\<exists>c'. check_status c = (Ready (Ok ()), c') \<and> bytes_of (rx c') = rest
      \<and> tx_out c' = tx_out c @ [] \<and> can_send k c'" by (simp add: can_send_def)
qed

lemmas exchanges_primitive = exchanges_return exchanges_write exchanges_write_u8 exchanges_ack

lemma client_handshake_exchanges:
  assumes be: "tokio_big_endian C" and "length (opt_secret options) \<le> 255" and "utf8_valid (opt_dest options)"
    and "open_src (opt_src_path options) = Ok src" and "src \<noteq> []" and "length src < 2 ^ 64"
  shows "exchanges (client_handshake C open_src options) (word_of_nat (length src)) [0, 0, 0]
    (handshake_message (opt_secret options) (session_of options src) (opt_force_truncate options))"
proof -
  let ?n = "word_of_nat (length src) :: u64"
  have n: "?n \<noteq> 0" using assms(5,6) by (simp add: word_of_nat_eq_0_iff nat_dvd_not_less)
  note be_prims = exchanges_primitive exchanges_write_u64 [OF be] exchanges_write_string [OF be]
  have "exchanges (client_handshake C open_src options) ?n
      ([] @ [] @ [] @ [0] @ [] @ [0] @ [] @ [] @ [] @ [] @ [] @ [] @ [] @ [0] @ [])
      ([] @ [word_of_nat (length (opt_secret options))] @ opt_secret options @ [] @ [PROTOCOL_VERSION] @ [] @ []
        @ string_message (opt_dest options) @ [] @ be_bytes (opt_block_size options) @ be_bytes ?n
        @ [if opt_force_truncate options then 1 else 0] @ [hash_algorithm_to_u8 (opt_hash_algorithm options)] @ [] @ [])"
    unfolding client_handshake_def Let_def secret_len_def dest_str_def assms(4)
      if_P [OF assms(2)] if_P [OF assms(3)]
    by ((rule exchanges_bind, rule be_prims)+, subst if_not_P [OF n],
        (rule exchanges_bind, rule be_prims)+, rule be_prims)
  then show ?thesis
    by (simp add: handshake_message_def parameters_message_def session_of_def)
qed

lemma unat_usize_div_ceil:
  assumes "unat n = len" and "0 < d"
  shows "unat (usize_div_ceil n d) = div_ceil len (unat d)"
proof -
  have d: "0 < unat d" using assms(2) by (simp add: word_less_nat_alt)
  have q: "unat (n div d) = len div unat d" "unat (n mod d) = len mod unat d"
    using assms(1) by (simp_all add: unat_div_distrib unat_mod_distrib)
  show ?thesis
  proof (cases "len mod unat d = 0")
    case True
    with q have "\<not> n mod d > 0" by (simp add: word_less_nat_alt)
    with True q show ?thesis by (simp add: usize_div_ceil_def div_ceil_def)
  next
    case False
    with q have m: "n mod d > 0" by (simp add: word_less_nat_alt)
    have "1 < unat d" using False d by (metis One_nat_def Suc_lessI mod_by_Suc_0)
    then have "len div unat d < len \<or> len = 0" using int_div_less_self by auto
    then have "Suc (len div unat d) < 2 ^ 64"
      using False assms(1) unsigned_less [of n, where ?'a = nat] by (cases "len = 0") auto
    with m q False show ?thesis by (simp add: usize_div_ceil_def div_ceil_def unat_word_ariths)
  qed
qed

text \<open>More fuel does not change the outcome of the client.\<close>

lemma new_process_more:
  assumes "new_process C open_src hf n ts options c = (Ready r, c')"
  shows "new_process C open_src hf (n + k) ts options c = (Ready r, c')"
proof -
  obtain p c1 where h: "client_handshake C open_src options c = (p, c1)" by fastforce
  show ?thesis
  proof (cases "\<exists>src_size hs. p = Ready (Ok src_size) \<and> opt_block_size options \<noteq> 0
      \<and> hf (opt_src_path options) (opt_block_size options) (opt_workers options) (opt_hash_algorithm options) = Ok hs")
    case True
    then obtain sz hs where p: "p = Ready (Ok sz)" "opt_block_size options \<noteq> 0"
      "hf (opt_src_path options) (opt_block_size options) (opt_workers options) (opt_hash_algorithm options) = Ok hs"
      by blast
    let ?s = "client_loop_start (opt_block_size options) sz ts (rx c1) (tx_sched c1, tx_out c1) (hs_events hs)"
    obtain res s where run: "client_run n ?s = (res, s)" by fastforce
    with assms h p have "case_option Pending (\<lambda>x. after_drop hs (Ready x)) res = Ready r"
      and c': "c' = c1\<lparr>rx := cl_rx s, tx_sched := fst (cl_tx s), tx_out := snd (cl_tx s)\<rparr>"
      by (auto simp: new_process_def)
    then have res: "res = Some r" "after_drop hs (Ready r) = Ready r"
      using after_drop_cases [of hs "Ready (the res)"] by (auto split: option.splits)
    with run have "client_run (n + k) ?s = (Some r, s)" unfolding client_run_def by (intro run_loop_more) simp
    with h p res c' show ?thesis by (simp add: new_process_def)
  next
    case False
    with assms h show ?thesis
      by (auto simp: new_process_def io_bind_def split: poll.splits sum.splits if_splits)
  qed
qed

section \<open>The contract of the hashing\<close>

text \<open>
  What the event loops rely on: for a file that is there and of an admissible size, the stream
  yields its blocks in order with their hashes, and no error. \<open>left\<close> is what it leaves to its drop.
\<close>

locale hash_source =
  fixes hashing :: "(rstring \<rightharpoonup> u8 list) \<Rightarrow> rstring \<Rightarrow> usize \<Rightarrow> u8 \<Rightarrow> HashAlgorithm \<Rightarrow> HashStream result"
    and C :: crates
    and left :: "hs_item channel"
    and admissible :: "nat \<Rightarrow> usize \<Rightarrow> u8 \<Rightarrow> bool"
  assumes yields: "fls p = Some f \<Longrightarrow> admissible (length f) bs w \<Longrightarrow>
      \<exists>hs. hashing fls p bs w a = Ok hs \<and> hs_items (hs_events hs) = hash_items C a (unat bs) f \<and> hs_no_error (hs_events hs)
        \<and> hs_left hs = left"
    and sizes: "admissible len bs w \<Longrightarrow> sizes_ok len bs w"
begin

text \<open>The client, given the hashes of the destination, ends and has sent the differing blocks.\<close>

lemma client_side:
  assumes "hex_documented C" and "fls p = Some src" and "src \<noteq> []" and "admissible (length src) bs w"
    and "hashing fls p bs w a = Ok hs" and "length dst = length src"
    and "bytes_of es = hash_messages (hash_items C a (unat bs) dst)" and "sound_sched ws"
    and "div_ceil (length src) (unat bs) * (unat bs + 8) \<le> accepts ws"
  shows "\<exists>m0. \<forall>m\<ge>m0. \<exists>s'. client_run m (client_loop_start bs (word_of_nat (length src)) ts es (ws, out) (hs_events hs))
      = (Some (Ok ()), s')
    \<and> snd (cl_tx s') = out @ concat (map block_message (sent_blocks bs src (differing C a (unat bs) src dst)))"
proof -
  note ok = sizes [OF assms(4)]
  let ?B = "unat bs" and ?nb = "div_ceil (length src) (unat bs)" and ?hs = "hs_events hs"
  have B: "0 < ?B" using ok by (simp add: sizes_ok_def word_less_nat_alt)
  from yields [of fls p src, OF assms(2,4), of a] assms(5) have hs: "hs_items ?hs = hash_items C a ?B src" "hs_no_error ?hs" by auto
  have N: "unat (word_of_nat (length src) :: usize) = length src"
    by (rule unat_small) (use ok in \<open>simp add: sizes_ok_def\<close>)
  have nb: "unat (usize_div_ceil (word_of_nat (length src)) bs) = ?nb"
    by (rule unat_usize_div_ceil [OF N]) (use ok in \<open>simp add: sizes_ok_def\<close>)
  have "0 < ?nb" using assms(3) B by (simp add: div_ceil_iff)
  then have items: "length (hs_items ?hs) = ?nb" "hs_items ?hs \<noteq> []" by (simp_all add: hs hash_items_def)
  have remote: "length (remote_hashes C a ?B dst) = length (hs_items ?hs)"
    using items assms(6) by (simp add: remote_hashes_def)
  have msgs: "send_messages bs (diverging 0 (hs_items ?hs) (remote_hashes C a ?B dst))
      = concat (map block_message (sent_blocks bs src (differing C a ?B src dst)))"
    by (simp add: hs diverging_hash_items [OF assms(6)] send_messages_blocks)
  have acc: "length (send_messages bs (diverging 0 (hs_items ?hs) (remote_hashes C a ?B dst))) \<le> accepts ws"
    unfolding msgs using sent_blocks_ok(5) [OF ok refl, of C a dst] assms(9) by linarith
  have bytes: "bytes_of es = concat (map string_message (remote_hashes C a ?B dst))"
    using assms(7) by (simp add: hash_messages_items)
  note run = client_loop_total [OF remote items(2) _ remote_hashes_acceptable [OF assms(1)] bytes hs(2) assms(8) acc,
      unfolded msgs, of "word_of_nat (length src)" ts _ out]
  let ?m0 = "Suc (ticks ts + wr_waits ws + Suc (waits es + length (bytes_of es)) + hs_waits ?hs + 2 * length (hs_items ?hs))"
  from run nb items(1) show ?thesis by (intro exI [of _ ?m0]) simp
qed


text \<open>The whole client: the handshake and the loop.\<close>

lemma new_process_side:
  assumes be: "tokio_big_endian C" and hex: "hex_documented C" and "length (opt_secret options) \<le> 255"
    and "utf8_valid (opt_dest options)" and "fls (opt_src_path options) = Some src" and "src \<noteq> []"
    and "open_src (opt_src_path options) = Ok src"
    and adm: "admissible (length src) (opt_block_size options) (opt_workers options)" and "length dst = length src"
    and "bytes_of (rx cc) = [0, 0, 0]
      @ hash_messages (hash_items C (opt_hash_algorithm options) (unat (opt_block_size options)) dst)"
    and "can_send (length (handshake_message (opt_secret options) (session_of options src) (opt_force_truncate options))
      + div_ceil (length src) (unat (opt_block_size options)) * (unat (opt_block_size options) + 8)) cc"
  shows "\<exists>m0. \<forall>m\<ge>m0. \<exists>cc'. new_process C open_src (hashing fls) m ts options cc
      = (if hash_stream_drop 3 left = None then Pending else Ready (Ok ()), cc')
    \<and> tx_out cc' = tx_out cc @ handshake_message (opt_secret options) (session_of options src) (opt_force_truncate options)
      @ concat (map block_message (sent_blocks (opt_block_size options) src
          (differing C (opt_hash_algorithm options) (unat (opt_block_size options)) src dst)))"
proof -
  let ?bs = "opt_block_size options" and ?a = "opt_hash_algorithm options"
  let ?msg = "handshake_message (opt_secret options) (session_of options src) (opt_force_truncate options)"
  let ?blocks = "concat (map block_message (sent_blocks ?bs src (differing C ?a (unat ?bs) src dst)))"
  have len: "length src < 2 ^ 64" and bs: "?bs \<noteq> 0" using sizes [OF adm] by (auto simp: sizes_ok_def)
  from client_handshake_exchanges [where open_src = open_src, OF be assms(3,4,7,6) len] assms(10,11)
  obtain c1 where 1: "client_handshake C open_src options cc = (Ready (Ok (word_of_nat (length src))), c1)"
    "bytes_of (rx c1) = hash_messages (hash_items C ?a (unat ?bs) dst)" "tx_out c1 = tx_out cc @ ?msg"
    "can_send (div_ceil (length src) (unat ?bs) * (unat ?bs + 8)) c1"
    unfolding exchanges_def by metis
  from yields [of fls "opt_src_path options" src, OF assms(5) adm, of ?a] obtain hs where
    hs: "hashing fls (opt_src_path options) ?bs (opt_workers options) ?a = Ok hs" "hs_left hs = left" by blast
  have drop: "after_drop hs x = (if hash_stream_drop 3 left = None then Pending else x)" for x :: "unit result poll"
    using hs(2) by (auto simp: after_drop_def split: option.split)
  have tx: "sound_sched (tx_sched c1)" "div_ceil (length src) (unat ?bs) * (unat ?bs + 8) \<le> accepts (tx_sched c1)"
    using 1(4) by (simp_all add: can_send_def)
  from client_side [of fls "opt_src_path options" src, OF hex assms(5,6) adm hs(1) assms(9) 1(2) tx, of ts "tx_out c1"]
  obtain m0 where m0: "\<And>m. m \<ge> m0 \<Longrightarrow> \<exists>s'. client_run m (client_loop_start ?bs (word_of_nat (length src)) ts (rx c1)
      (tx_sched c1, tx_out c1) (hs_events hs)) = (Some (Ok ()), s') \<and> snd (cl_tx s') = tx_out c1 @ ?blocks" by blast
  have "\<exists>cc'. new_process C open_src (hashing fls) m ts options cc = (if hash_stream_drop 3 left = None then Pending else Ready (Ok ()), cc')
      \<and> tx_out cc' = tx_out cc @ ?msg @ ?blocks" if "m \<ge> m0" for m
  proof -
    from m0 [OF that] obtain s' where "client_run m (client_loop_start ?bs (word_of_nat (length src)) ts (rx c1)
      (tx_sched c1, tx_out c1) (hs_events hs)) = (Some (Ok ()), s')" "snd (cl_tx s') = tx_out c1 @ ?blocks" by blast
    then show ?thesis using 1(1,3) hs(1) bs by (simp add: new_process_def drop)
  qed
  then show ?thesis by blast
qed

text \<open>
  The server writes the blocks that arrive complete, even if the stream ends within a further one, and then answers
  \<open>Ack\<close>, unless a hash is queued when it drops the stream.
\<close>

lemma server_applies:
  assumes "tokio_big_endian C" and "length secret \<le> 255" and "valid_session ses"
    and "ses_filesize ses = word_of_nat (length src)"
    and "admissible (length src) (ses_block_size ses) w"
    and "no_faults (disk c) (ses_path ses)" and "\<not> size_refused (disk c) ses force"
    and dst: "dst = resize (dest_before (disk c) (ses_path ses)) (length src)"
    and blocks: "blocks = sent_blocks (ses_block_size ses) src (differing C (ses_algorithm ses) (unat (ses_block_size ses)) src dst)"
    and bytes: "bytes_of (rx c) = handshake_message secret ses force @ concat (map block_message (take j blocks)) @ tail"
    and tail: "no_block (ses_block_size ses) (ses_filesize ses) tail"
    and "can_send 3 c" and "end_of (rx c) \<noteq> StillOpen" and "sound_sched (de_sched de)"
    and acc: "div_ceil (length src) (unat (ses_block_size ses)) * unat (ses_block_size ses) \<le> accepts (de_sched de)"
    and "\<not> de_flush_fault de" and "\<not> de_sync_fault de" and given: "given_back work left"
  shows "\<exists>n0. \<forall>n\<ge>n0. \<exists>c'.
      process_new_client C (\<lambda>F. hashing (files F)) de n secret w c = (if queue left = [] then Ready (Ok Ack) else Pending, c')
    \<and> files (disk c') = (files (disk c))(ses_path ses \<mapsto> apply_blocks dst (positions (take j blocks)))"
proof -
  let ?bs = "ses_block_size ses" and ?a = "ses_algorithm ses" and ?taken = "take j blocks"
  note ok = sizes [OF assms(5)]
  have N: "unat (ses_filesize ses) = length src"
    unfolding assms(4) by (rule unat_small) (use ok in \<open>simp add: sizes_ok_def\<close>)
  have h: "\<exists>hs. hashing (files F) (ses_path ses) ?bs w ?a = Ok hs \<and> hs_no_error (hs_events hs) \<and> hs_left hs = left"
    if "files F (ses_path ses) = Some d" "length d = unat (ses_filesize ses)" for F d
    using yields [of "files F" "ses_path ses" d ?bs w ?a] that assms(5) N by auto
  note B = sent_blocks_ok [OF ok blocks, folded assms(4)]
  have fits: "list_all (block_fits ?bs (ses_filesize ses)) ?taken" "list_all seekable ?taken"
    using B(1,2) by (auto simp: list_all_iff dest: in_set_takeD)
  have "map (length \<circ> snd) blocks = map (length \<circ> snd) ?taken @ map (length \<circ> snd) (drop j blocks)"
    by (simp flip: map_append)
  then have "sum_list (map (length \<circ> snd) ?taken) \<le> sum_list (map (length \<circ> snd) blocks)"
    by (metis le_add1 sum_list.append)
  then have acc': "sum_list (map (length \<circ> snd) ?taken) \<le> accepts (de_sched de)" using B(4) acc by linarith
  have "\<exists>n0. \<forall>n\<ge>n0. \<exists>c'. process_new_client C (\<lambda>F. hashing (files F)) de n secret w c
        = (if queue left = [] then Ready (Ok Ack) else Pending, c')
      \<and> files (disk c') = (files (disk c))(ses_path ses \<mapsto> apply_blocks (resize (dest_before (disk c) (ses_path ses))
          (unat (ses_filesize ses))) (positions ?taken))"
    by (rule process_new_client_run [where hash_file = "\<lambda>F. hashing (files F)" and workers = w,
          OF assms(1-3,6,7) bytes assms(12,13) fits tail assms(14) acc' assms(16,17) h given])
  then show ?thesis unfolding N dst .
qed

text \<open>Fed with all that the client sent, it ends with a synchronised destination.\<close>

lemma server_side:
  assumes "tokio_big_endian C" and "length secret \<le> 255" and "valid_session ses"
    and "ses_filesize ses = word_of_nat (length src)"
    and "admissible (length src) (ses_block_size ses) w"
    and "no_faults (disk c) (ses_path ses)" and "\<not> size_refused (disk c) ses force"
    and dst: "dst = resize (dest_before (disk c) (ses_path ses)) (length src)"
    and bytes: "bytes_of (rx c) = handshake_message secret ses force
      @ concat (map block_message (sent_blocks (ses_block_size ses) src
          (differing C (ses_algorithm ses) (unat (ses_block_size ses)) src dst)))"
    and "can_send 3 c" and "end_of (rx c) \<noteq> StillOpen" and "sound_sched (de_sched de)"
    and acc: "div_ceil (length src) (unat (ses_block_size ses)) * unat (ses_block_size ses) \<le> accepts (de_sched de)"
    and "\<not> de_flush_fault de" and "\<not> de_sync_fault de" and "given_back work left" and empty: "queue left = []"
  shows "\<exists>n0. \<forall>n\<ge>n0. \<exists>c' final.
      process_new_client C (\<lambda>F. hashing (files F)) de n secret w c = (Ready (Ok Ack), c')
    \<and> files (disk c') = (files (disk c))(ses_path ses \<mapsto> final)
    \<and> synced C (ses_algorithm ses) (unat (ses_block_size ses)) src dst final"
proof -
  let ?blocks = "sent_blocks (ses_block_size ses) src (differing C (ses_algorithm ses) (unat (ses_block_size ses)) src dst)"
  have "bytes_of (rx c) = handshake_message secret ses force @ concat (map block_message (take (length ?blocks) ?blocks)) @ []"
    using bytes by simp
  from server_applies [OF assms(1-8) refl this no_block_Nil assms(10-16)]
    apply_sent_blocks [OF sizes [OF assms(5)], of dst C "ses_algorithm ses"] dst
  show ?thesis using empty by (simp only: take_all length_resize if_True simp_thms) blast
qed

end

interpretation hashing: hash_source "hash_file n C (reliable_env delays left)" C left
    "\<lambda>len bs w. sizes_ok len bs w \<and> div_ceil len (unat bs) < n"
  for n C delays left
  by unfold_locales (use hash_file_ok in auto)

end
