(* ===== verification/Interleaving.thy ===== *)
theory Interleaving
  imports Sync_Session
begin

text \<open>
  The session as a concurrent system. While the workers of the server still hash the destination,
  the client already sends blocks and the server already overwrites the same file. Here the four
  activities are steps that interleave freely: a worker reads a piece of a block of the file as it
  is at that moment (\<open>hash_file.rs\<close>), the server sends the next hash (\<open>server.rs\<close>), the client
  compares the next block (\<open>client.rs\<close>), the server writes a piece of a received block
  (\<open>server.rs\<close>). The result: no interleaving lets a worker see a byte the session has written, every
  run ends, and it ends with a synchronised file. This is why the sequential account of a session,
  with the hashes of the destination as the server found it, is the right one.
\<close>

section \<open>The system\<close>

record inter =
  in_file :: "u8 list"                      \<comment> \<open>the destination\<close>
  in_seen :: "nat \<Rightarrow> u8 list"              \<comment> \<open>what the workers have read of each block\<close>
  in_hashes :: nat                          \<comment> \<open>number of hashes sent by the server\<close>
  in_compared :: nat                        \<comment> \<open>\<open>block_idx\<close> of the client\<close>
  in_outgoing :: "(nat \<times> u8 list) list"   \<comment> \<open>blocks queued, in transit or partly written\<close>

definition inter_start :: "u8 list \<Rightarrow> inter" where
  "inter_start dst = \<lparr>in_file = dst, in_seen = \<lambda>_. [], in_hashes = 0, in_compared = 0, in_outgoing = []\<rparr>"

text \<open>\<open>file.read_exact(buf)\<close> of a worker, a piece at a time, from the file as it is now.\<close>

definition worker_reads :: "nat \<Rightarrow> nat \<Rightarrow> nat \<Rightarrow> inter \<Rightarrow> inter" where
  "worker_reads B k n s =
     s\<lparr>in_seen := (in_seen s)(k := in_seen s k
         @ take n (drop (length (in_seen s k)) (block_at B (in_file s) k)))\<rparr>"

text \<open>The hasher arm of the server: the next hash in order goes out.\<close>

definition sends_hash :: "inter \<Rightarrow> inter" where
  "sends_hash s = s\<lparr>in_hashes := Suc (in_hashes s)\<rparr>"

text \<open>The hasher arm of the client: the hash of its own next block against the received one.\<close>

definition compares_block :: "crates \<Rightarrow> HashAlgorithm \<Rightarrow> nat \<Rightarrow> u8 list \<Rightarrow> inter \<Rightarrow> inter" where
  "compares_block C a B src s =
     (let k = in_compared s in
      s\<lparr>in_compared := Suc k,
        in_outgoing := in_outgoing s @
          (if hash_data C (block_at B src k) a \<noteq> hash_data C (in_seen s k) a
           then [(k * B, block_at B src k)] else [])\<rparr>)"

text \<open>The disk arm of the server: some bytes of the block being written reach the file.\<close>

definition writes_piece :: "nat \<Rightarrow> inter \<Rightarrow> inter" where
  "writes_piece n s =
     (case in_outgoing s of
        [] \<Rightarrow> s
      | (pos, d) # rest \<Rightarrow>
          s\<lparr>in_file := file_write (in_file s) pos (take n d),
            in_outgoing := (if n < length d then (pos + n, drop n d) # rest else rest)\<rparr>)"

inductive inter_step :: "crates \<Rightarrow> HashAlgorithm \<Rightarrow> nat \<Rightarrow> u8 list \<Rightarrow> inter \<Rightarrow> inter \<Rightarrow> bool" for C a B src where
  reads: "k < div_ceil (length src) B \<Longrightarrow> length (in_seen s k) < length (block_at B src k) \<Longrightarrow> 0 < n \<Longrightarrow>
    inter_step C a B src s (worker_reads B k n s)"
| hash: "in_hashes s < div_ceil (length src) B \<Longrightarrow>
    length (in_seen s (in_hashes s)) = length (block_at B src (in_hashes s)) \<Longrightarrow>
    inter_step C a B src s (sends_hash s)"
| compare: "in_compared s < in_hashes s \<Longrightarrow> inter_step C a B src s (compares_block C a B src s)"
| writes: "in_outgoing s \<noteq> [] \<Longrightarrow> 0 < n \<Longrightarrow> inter_step C a B src s (writes_piece n s)"

inductive_cases inter_stepE: "inter_step C a B src s s'"

definition inter_done :: "nat \<Rightarrow> u8 list \<Rightarrow> inter \<Rightarrow> bool" where
  "inter_done B src s \<longleftrightarrow> in_compared s = div_ceil (length src) B \<and> in_outgoing s = []"

section \<open>The invariant\<close>

text \<open>A queued piece lies within a block that the client has already compared.\<close>

definition piece_ok :: "nat \<Rightarrow> u8 list \<Rightarrow> nat \<Rightarrow> nat \<times> u8 list \<Rightarrow> bool" where
  "piece_ok B src m p \<longleftrightarrow> snd p \<noteq> [] \<and> fst p + length (snd p) \<le> length src
     \<and> (\<exists>j < m. j * B \<le> fst p \<and> fst p + length (snd p) \<le> j * B + B)"

definition inter_inv :: "crates \<Rightarrow> HashAlgorithm \<Rightarrow> nat \<Rightarrow> u8 list \<Rightarrow> u8 list \<Rightarrow> inter \<Rightarrow> bool" where
  "inter_inv C a B src dst s \<longleftrightarrow>
     length (in_file s) = length src \<and> length dst = length src
     \<and> in_compared s \<le> in_hashes s \<and> in_hashes s \<le> div_ceil (length src) B
     \<and> (\<forall>k. prefix (in_seen s k) (block_at B dst k))
     \<and> (\<forall>k < in_hashes s. in_seen s k = block_at B dst k)
     \<and> (\<forall>k \<ge> in_compared s. block_at B (in_file s) k = block_at B dst k)
     \<and> list_all (piece_ok B src (in_compared s)) (in_outgoing s)
     \<and> apply_blocks (in_file s) (in_outgoing s) = apply_blocks dst (map (\<lambda>k. (k * B, block_at B src k))
         (filter (\<lambda>k. hash_data C (block_at B src k) a \<noteq> hash_data C (block_at B dst k) a) [0..<in_compared s]))"

lemma inter_inv_start: "length dst = length src \<Longrightarrow> inter_inv C a B src dst (inter_start dst)"
  by (simp add: inter_inv_def inter_start_def)

lemma piece_ok_mono: "piece_ok B src m p \<Longrightarrow> m \<le> m' \<Longrightarrow> piece_ok B src m' p"
  unfolding piece_ok_def by (meson less_le_trans)

lemma block_piece_ok:
  assumes "0 < B" and "k < div_ceil (length src) B"
  shows "piece_ok B src (Suc k) (k * B, block_at B src k)"
proof -
  have "k * B < length src" using assms by (simp add: div_ceil_iff)
  then show ?thesis using assms(1) by (auto simp: piece_ok_def length_block_at block_at_def min_def intro: exI [of _ k])
qed

lemma inter_inv_block:
  assumes "inter_inv C a B src dst s"
  shows "length (block_at B dst k) = length (block_at B src k)"
    and "length (block_at B (in_file s) k) = length (block_at B src k)"
    and "prefix (in_seen s k) (block_at B dst k)"
  using assms by (simp_all add: inter_inv_def length_block_at)

lemma prefix_read_on: "prefix xs ys \<Longrightarrow> prefix (xs @ take n (drop (length xs) ys)) ys"
  by (auto simp: prefix_def) (metis append_take_drop_id)

lemma inter_inv_reads:
  assumes inv: "inter_inv C a B src dst s" and "length (in_seen s k) < length (block_at B src k)"
  shows "inter_inv C a B src dst (worker_reads B k n s)"
proof -
  have k: "\<not> k < in_hashes s"
    using inv assms(2) inter_inv_block(1) [OF inv, of k] by (auto simp: inter_inv_def)
  then have "block_at B (in_file s) k = block_at B dst k" using inv by (simp add: inter_inv_def)
  then have "prefix (in_seen (worker_reads B k n s) k) (block_at B dst k)"
    using inter_inv_block(3) [OF inv, of k] by (simp add: worker_reads_def prefix_read_on)
  moreover have "in_seen (worker_reads B k n s) i = in_seen s i" if "i \<noteq> k" for i
    using that by (simp add: worker_reads_def)
  ultimately have "prefix (in_seen (worker_reads B k n s) i) (block_at B dst i)" for i
    using inter_inv_block(3) [OF inv, of i] by (cases "i = k") simp_all
  with inv k show ?thesis unfolding inter_inv_def by (auto simp: worker_reads_def)
qed

lemma inter_inv_hash:
  assumes inv: "inter_inv C a B src dst s" and "in_hashes s < div_ceil (length src) B"
    and "length (in_seen s (in_hashes s)) = length (block_at B src (in_hashes s))"
  shows "inter_inv C a B src dst (sends_hash s)"
proof -
  have "in_seen s (in_hashes s) = block_at B dst (in_hashes s)"
    using assms(3) inter_inv_block(1,3) [OF inv, of "in_hashes s"] by (auto simp: prefix_def)
  with inv assms(2) show ?thesis by (auto simp: inter_inv_def sends_hash_def less_Suc_eq)
qed

lemma inter_inv_compare:
  assumes B: "0 < B" and inv: "inter_inv C a B src dst s" and "in_compared s < in_hashes s"
  shows "inter_inv C a B src dst (compares_block C a B src s)"
proof -
  let ?k = "in_compared s"
  have seen: "in_seen s ?k = block_at B dst ?k" and nb: "?k < div_ceil (length src) B"
    using inv assms(3) by (auto simp: inter_inv_def)
  have pieces: "list_all (piece_ok B src (Suc ?k)) (in_outgoing s)"
    using inv by (auto simp: inter_inv_def list_all_iff intro: piece_ok_mono)
  show ?thesis
    using inv assms(3) seen pieces block_piece_ok [OF B nb]
    by (auto simp: inter_inv_def compares_block_def Let_def)
qed

lemma inter_inv_writes:
  assumes inv: "inter_inv C a B src dst s" and "in_outgoing s \<noteq> []"
  shows "inter_inv C a B src dst (writes_piece n s)"
proof -
  obtain pos d rest where out: "in_outgoing s = (pos, d) # rest" using assms(2) by (metis list.exhaust surj_pair)
  let ?f = "in_file s" and ?g = "file_write (in_file s) pos (take n d)"
  from inv out have ok: "piece_ok B src (in_compared s) (pos, d)" by (simp add: inter_inv_def)
  then obtain j where j: "j < in_compared s" "j * B \<le> pos" "pos + length d \<le> j * B + B" "pos + length d \<le> length ?f"
    using inv by (auto simp: piece_ok_def inter_inv_def)
  have "block_at B ?g k = block_at B ?f k" if "in_compared s \<le> k" for k
    by (rule block_at_write_inside [of j]) (use j that in auto)
  moreover have "length ?g = length ?f" using j(4) by (auto simp: length_file_write)
  moreover have "piece_ok B src (in_compared s) (pos + n, drop n d)" if "n < length d"
    using ok that j by (auto simp: piece_ok_def intro!: exI [of _ j])
  moreover have "file_write ?g (pos + n) (drop n d) = file_write ?f pos d" if "n < length d"
    using file_write_append [of ?f pos "take n d" "drop n d"] that by simp
  moreover have "file_write ?g pos' [] = file_write ?f pos d" if "\<not> n < length d" for pos'
    using that by simp
  ultimately show ?thesis using inv out unfolding inter_inv_def by (auto simp: writes_piece_def)
qed

lemma inter_inv_step:
  "0 < B \<Longrightarrow> inter_step C a B src s s' \<Longrightarrow> inter_inv C a B src dst s \<Longrightarrow> inter_inv C a B src dst s'"
  by (erule inter_stepE) (simp_all add: inter_inv_reads inter_inv_hash inter_inv_compare inter_inv_writes)

lemma inter_inv_steps:
  "(inter_step C a B src)\<^sup>*\<^sup>* s s' \<Longrightarrow> 0 < B \<Longrightarrow> inter_inv C a B src dst s \<Longrightarrow> inter_inv C a B src dst s'"
  by (induction rule: rtranclp_induct) (blast intro: inter_inv_step)+

lemma inter_done_synced:
  assumes "0 < B" and inv: "inter_inv C a B src dst s" and "inter_done B src s"
  shows "synced C a B src dst (in_file s)"
proof -
  from inv assms(3) have "in_file s = apply_blocks dst (map (\<lambda>k. (k * B, block_at B src k)) (differing C a B src dst))"
    by (simp add: inter_inv_def inter_done_def differing_def)
  moreover have "length dst = length src" using inv by (simp add: inter_inv_def)
  ultimately show ?thesis using apply_differing_blocks [OF assms(1)] by simp
qed

section \<open>Every run ends\<close>

text \<open>A system that is not done can take a step.\<close>

lemma inter_progress:
  assumes inv: "inter_inv C a B src dst s" and "\<not> inter_done B src s"
  shows "\<exists>s'. inter_step C a B src s s'"
proof (cases "in_outgoing s = [] \<and> in_compared s = in_hashes s")
  case False
  with inv consider "in_outgoing s \<noteq> []" | "in_compared s < in_hashes s" by (auto simp: inter_inv_def)
  then show ?thesis by cases (blast intro: inter_step.writes [of _ 1] inter_step.compare)+
next
  case True
  let ?k = "in_hashes s"
  have k: "?k < div_ceil (length src) B" using True inv assms(2) by (auto simp: inter_inv_def inter_done_def)
  have "length (in_seen s ?k) \<le> length (block_at B src ?k)"
    using inter_inv_block(1,3) [OF inv, of ?k] by (metis prefix_length_le)
  then show ?thesis
    using k inter_step.reads [of ?k src B s 1 C a] inter_step.hash [of s src B C a] by force
qed

text \<open>What is left to do: bytes to read, hashes to send, blocks to compare, bytes to write.\<close>

definition inter_todo :: "nat \<Rightarrow> u8 list \<Rightarrow> inter \<Rightarrow> nat" where
  "inter_todo B src s =
     (\<Sum>k < div_ceil (length src) B. B - length (in_seen s k))
     + (div_ceil (length src) B - in_hashes s) + (div_ceil (length src) B - in_compared s) * (B + 1)
     + sum_list (map (length \<circ> snd) (in_outgoing s))"

lemma inter_todo_reads:
  assumes inv: "inter_inv C a B src dst s" and k: "k < div_ceil (length src) B"
    and less: "length (in_seen s k) < length (block_at B src k)" and "0 < n"
  shows "inter_todo B src (worker_reads B k n s) < inter_todo B src s"
proof -
  let ?s = "worker_reads B k n s"
  note inter_inv_block(2) [OF inv, of k]
  with less assms(4) have "length (in_seen s k) < length (in_seen ?s k)" by (simp add: worker_reads_def)
  moreover have "length (in_seen s k) < B" using less by (simp add: length_block_at)
  ultimately have lt: "B - length (in_seen ?s k) < B - length (in_seen s k)" by simp
  have "(\<Sum>i < div_ceil (length src) B. B - length (in_seen ?s i)) < (\<Sum>i < div_ceil (length src) B. B - length (in_seen s i))"
  proof (rule sum_strict_mono_ex1)
    show "\<forall>i \<in> {..<div_ceil (length src) B}. B - length (in_seen ?s i) \<le> B - length (in_seen s i)"
      by (auto simp: worker_reads_def)
    show "\<exists>i \<in> {..<div_ceil (length src) B}. B - length (in_seen ?s i) < B - length (in_seen s i)"
      using k lt by blast
  qed simp
  then show ?thesis by (simp add: inter_todo_def worker_reads_def)
qed

lemma inter_todo_compare:
  assumes inv: "inter_inv C a B src dst s" and "in_compared s < in_hashes s"
  shows "inter_todo B src (compares_block C a B src s) < inter_todo B src s"
proof -
  let ?nb = "div_ceil (length src) B"
  have "?nb - in_compared s = Suc (?nb - Suc (in_compared s))"
    using inv assms(2) unfolding inter_inv_def by linarith
  then have "(?nb - in_compared s) * (B + 1) = (?nb - Suc (in_compared s)) * (B + 1) + (B + 1)" by simp
  moreover have "length (block_at B src (in_compared s)) \<le> B" by (simp add: length_block_at)
  ultimately show ?thesis by (simp add: inter_todo_def compares_block_def Let_def)
qed

lemma inter_todo_writes:
  assumes inv: "inter_inv C a B src dst s" and "in_outgoing s \<noteq> []" and "0 < n"
  shows "inter_todo B src (writes_piece n s) < inter_todo B src s"
proof -
  obtain pos d rest where out: "in_outgoing s = (pos, d) # rest" using assms(2) by (metis list.exhaust surj_pair)
  with inv have "d \<noteq> []" by (simp add: inter_inv_def piece_ok_def)
  with out assms(3) show ?thesis by (simp add: inter_todo_def writes_piece_def)
qed

lemma inter_todo_step:
  "inter_inv C a B src dst s \<Longrightarrow> inter_step C a B src s s' \<Longrightarrow> inter_todo B src s' < inter_todo B src s"
  by (erule inter_stepE)
    (auto simp: inter_todo_reads inter_todo_compare inter_todo_writes, simp add: inter_todo_def sends_hash_def)

section \<open>Properties\<close>

text \<open>
  Overwriting the destination while it is still being hashed is harmless. However the reads of
  the workers, the hashes, the comparisons and the writes interleave, every byte a worker has
  read is the byte the destination had at the start. A session that is not done can go on, every step
  brings it nearer to its end, and when all blocks are compared and written the file is synchronised.
\<close>

theorem interleaving_is_harmless:
  assumes "0 < B" and "length dst = length src"
    and "(inter_step C a B src)\<^sup>*\<^sup>* (inter_start dst) s"
  shows "prefix (in_seen s k) (block_at B dst k)
    \<and> (inter_step C a B src s s' \<longrightarrow> inter_todo B src s' < inter_todo B src s)
    \<and> (\<not> inter_done B src s \<longrightarrow> (\<exists>s''. inter_step C a B src s s''))
    \<and> (inter_done B src s \<longrightarrow> synced C a B src dst (in_file s))"
proof -
  have inv: "inter_inv C a B src dst s"
    using inter_inv_steps [OF assms(3,1)] inter_inv_start [OF assms(2)] by blast
  show ?thesis
    using inter_inv_block(3) [OF inv] inter_todo_step [OF inv] inter_progress [OF inv]
      inter_done_synced [OF assms(1) inv] by blast
qed

text \<open>A session on one-byte files, up to the moment when the only block is being written.\<close>

abbreviation sample_run :: inter where
  "sample_run \<equiv> compares_block sample_crates MD5 1 [7] (sends_hash (worker_reads 1 0 1 (inter_start [5])))"

lemma sample_run_reached: "(inter_step sample_crates MD5 1 [7])\<^sup>*\<^sup>* (inter_start [5]) (writes_piece 1 sample_run)"
proof -
  let ?r = "inter_step sample_crates MD5 1 [7]" and ?s1 = "worker_reads 1 0 1 (inter_start [5])"
  have "?r (inter_start [5]) ?s1"
    by (rule inter_step.reads) (simp_all add: inter_start_def div_ceil_def block_at_def)
  moreover have "?r ?s1 (sends_hash ?s1)"
    by (rule inter_step.hash) (simp_all add: inter_start_def worker_reads_def div_ceil_def block_at_def)
  moreover have "?r (sends_hash ?s1) sample_run"
    by (rule inter_step.compare) (simp add: inter_start_def worker_reads_def sends_hash_def)
  moreover have "hash_data sample_crates [7] MD5 \<noteq> hash_data sample_crates [5] MD5"
  proof
    assume "hash_data sample_crates [7] MD5 = hash_data sample_crates [5] MD5"
    from arg_cong [OF this, of "\<lambda>hash. hash ! 1"] show False
      by (simp add: resize_def hex_of_def hex_digit_def)
  qed
  then have "?r sample_run (writes_piece 1 sample_run)"
    by (intro inter_step.writes)
      (simp_all add: inter_start_def worker_reads_def sends_hash_def compares_block_def block_at_def Let_def)
  ultimately show ?thesis by (meson converse_rtranclp_into_rtranclp rtranclp.rtrancl_refl)
qed

theorem interleaving_is_harmless_witness:
  "in_seen (writes_piece 1 sample_run) 0 = [5] \<and> inter_done 1 [7] (writes_piece 1 sample_run)
     \<and> synced sample_crates MD5 1 [7] [5] (in_file (writes_piece 1 sample_run))"
proof -
  have "in_seen (writes_piece 1 sample_run) 0 = [5]" "inter_done 1 [7] (writes_piece 1 sample_run)"
    by (simp_all add: inter_start_def worker_reads_def sends_hash_def compares_block_def writes_piece_def
        inter_done_def div_ceil_def block_at_def Let_def)
  with interleaving_is_harmless [OF _ _ sample_run_reached] show ?thesis by simp
qed

end
