(* ===== verification/Live_Server.thy ===== *)
theory Live_Server
  imports Interleaving
begin

text \<open>
  The server's event loop while the client and the hash workers are still at work: blocks arrive bit by
  bit, the socket and the disk take what they are granted in an iteration, and the hash stream holds
  the blocks pushed so far. \<open>server_live\<close> is the invariant of one iteration in such an environment; it
  also keeps the blocks that are not hashed yet as they were, which is what the workers rely on. The
  loop of \<open>server.rs\<close> is an instance of \<open>live_loop\<close>.
\<close>

section \<open>The hash stream while it grows\<close>

definition hs_script :: "hs_item list \<Rightarrow> bool \<Rightarrow> hs_event list" where
  "hs_script its ended = map (\<lambda>(i, h, d). HsItem i h d) its @ (if ended then [HsEnd] else [])"

lemma hs_script_simps [simp]:
  "hs_script ((i, h, d) # its) ended = HsItem i h d # hs_script its ended"
  "hs_script [] True = [HsEnd]" "hs_script [] False = []"
  by (simp_all add: hs_script_def)

lemma hs_items_script [simp]: "hs_items (hs_script its ended) = its"
  by (induction its) (auto simp: hs_script_def)

lemma hs_script_push:
  "hs_script its False @ [HsItem i h d] = hs_script (its @ [(i, h, d)]) False"
  "hs_script its False @ [HsEnd] = hs_script its True"
  by (simp_all add: hs_script_def)

section \<open>The invariant\<close>

record live_env =
  le_block_size :: usize
  le_filesize :: usize
  le_dst :: "u8 list"             \<comment> \<open>the file as the session found it\<close>
  le_final :: "u8 list"           \<comment> \<open>what the file becomes\<close>
  le_msgs :: "u8 list"            \<comment> \<open>all the server ever sends\<close>
  le_blocks :: "(usize \<times> u8 list) list"  \<comment> \<open>all the client ever sends\<close>
  le_eof :: bool                  \<comment> \<open>has the client closed the connection?\<close>

definition server_receives :: "live_env \<Rightarrow> u8 list \<Rightarrow> (usize \<times> u8 list) list \<Rightarrow> server_loop \<Rightarrow> bool" where
  "server_receives E ahead rest s \<longleftrightarrow> rrfb_inv (le_block_size E) (le_filesize E) (sl_reader s)
     \<and> waits (sl_rx s) = 0 \<and> end_of (sl_rx s) = (if le_eof E then AtEof else StillOpen) \<and> (le_eof E \<longrightarrow> ahead = [])
     \<and> list_all (block_fits (le_block_size E) (le_filesize E)) rest \<and> list_all seekable rest \<and> suffix rest (le_blocks E)
     \<and> rrfb_got (sl_reader s) @ bytes_of (sl_rx s) @ ahead = concat (map block_message rest)"

text \<open>A block that has arrived completely lies within the first \<open>p\<close> blocks of the file.\<close>

definition arrived_inside :: "nat \<Rightarrow> u8 list \<Rightarrow> nat \<Rightarrow> u8 list \<Rightarrow> (usize \<times> u8 list) list \<Rightarrow> bool" where
  "arrived_inside B dst p ahead rest \<longleftrightarrow>
     (\<forall>before b after. rest = before @ b # after \<longrightarrow> length ahead \<le> length (concat (map block_message after)) \<longrightarrow>
        piece_ok B dst p (unat (fst b), snd b))"

text \<open>
  The disk: a pending write lies within the first \<open>p\<close> blocks, the blocks from \<open>p\<close> on are still those of
  \<open>dst\<close>, and the blocks still to come turn the file into \<open>final\<close>.
\<close>

definition server_stores :: "nat \<Rightarrow> u8 list \<Rightarrow> nat \<Rightarrow> u8 list \<Rightarrow> (usize \<times> u8 list) list \<Rightarrow> server_loop \<Rightarrow> bool" where
  "server_stores B dst p final rest s \<longleftrightarrow>
     sound_sched (sl_disk_sched s) \<and> wr_waits (sl_disk_sched s) = 0
     \<and> (case sl_write_disk s of
          None \<Rightarrow> True
        | Some rwa \<Rightarrow> rwa_inv (sl_write_buffer s) rwa
            \<and> piece_ok B dst p (sl_pos s, rwa_remaining (sl_write_buffer s) rwa))
     \<and> length (sl_file s) = length dst \<and> (\<forall>k \<ge> p. block_at B (sl_file s) k = block_at B dst k)
     \<and> apply_blocks (server_target s) (positions rest) = final"

definition hash_pending :: "server_loop \<Rightarrow> u8 list" where
  "hash_pending s = (case sl_write_hash s of None \<Rightarrow> [] | Some rws \<Rightarrow> rws_remaining rws)"

text \<open>The hashes: what was sent, what is being sent, what is queued, and \<open>later\<close>, what is not pushed yet.\<close>

definition server_hashes :: "nat \<times> nat \<Rightarrow> u8 list \<Rightarrow> u8 list \<Rightarrow> bool \<Rightarrow> server_loop \<Rightarrow> bool" where
  "server_hashes room msgs later ended s \<longleftrightarrow>
     sound_sched (fst (sl_tx s)) \<and> wr_waits (fst (sl_tx s)) = 0
     \<and> fst room \<le> length (snd (sl_tx s)) \<and> length (snd (sl_tx s)) + granted (fst (sl_tx s)) \<le> snd room
     \<and> (\<forall>rws. sl_write_hash s = Some rws \<longrightarrow> rws_inv rws \<and> rws_remaining rws \<noteq> [])
     \<and> sl_hasher s = hs_script (hs_items (sl_hasher s)) ended
     \<and> (sl_hashing_done s \<longrightarrow> ended \<and> hs_items (sl_hasher s) = [])
     \<and> snd (sl_tx s) @ hash_pending s @ hash_messages (hs_items (sl_hasher s)) @ later = msgs"

definition server_live :: "live_env \<Rightarrow> nat \<times> nat \<Rightarrow> nat \<Rightarrow> u8 list \<Rightarrow> u8 list \<Rightarrow> bool \<Rightarrow> (usize \<times> u8 list) list \<Rightarrow>
    server_loop \<Rightarrow> bool" where
  "server_live E room p ahead later ended rest s \<longleftrightarrow>
     server_receives E ahead rest s
     \<and> arrived_inside (unat (le_block_size E)) (le_dst E) p ahead rest
     \<and> server_stores (unat (le_block_size E)) (le_dst E) p (le_final E) rest s
     \<and> server_hashes room (le_msgs E) later ended s"

definition server_stored_all :: "live_env \<Rightarrow> nat \<times> nat \<Rightarrow> server_loop \<Rightarrow> bool" where
  "server_stored_all E room s \<longleftrightarrow> le_eof E \<and> sl_file s = le_final E \<and> fst room \<le> length (snd (sl_tx s)) \<and> length (snd (sl_tx s)) \<le> snd room"

definition server_work :: "live_env \<Rightarrow> server_loop \<Rightarrow> nat" where
  "server_work E s = (length (le_msgs E) - length (snd (sl_tx s))) + length (hs_items (sl_hasher s))
     + (if sl_hashing_done s then 0 else 1) + Suc (unat (le_block_size E)) * length (bytes_of (sl_rx s))
     + length (server_pending s)"

section \<open>The arms\<close>

text \<open>Which fields the parts of the invariant depend on.\<close>

lemma server_receives_frame:
  "sl_reader t = sl_reader s \<Longrightarrow> sl_rx t = sl_rx s \<Longrightarrow> server_receives E ahead rest t = server_receives E ahead rest s"
  by (simp add: server_receives_def)

lemma server_stores_frame:
  "sl_disk_sched t = sl_disk_sched s \<Longrightarrow> sl_write_disk t = sl_write_disk s \<Longrightarrow> sl_write_buffer t = sl_write_buffer s \<Longrightarrow>
   sl_pos t = sl_pos s \<Longrightarrow> sl_file t = sl_file s \<Longrightarrow> server_stores B dst p final rest t = server_stores B dst p final rest s"
  by (simp add: server_stores_def server_target_def cong: option.case_cong)

lemma server_pending_frame:
  "sl_write_disk t = sl_write_disk s \<Longrightarrow> sl_write_buffer t = sl_write_buffer s \<Longrightarrow> server_pending t = server_pending s"
  by (simp add: server_pending_def cong: option.case_cong)

lemma server_hashes_frame:
  "sl_tx t = sl_tx s \<Longrightarrow> sl_write_hash t = sl_write_hash s \<Longrightarrow> sl_hasher t = sl_hasher s \<Longrightarrow> sl_hashing_done t = sl_hashing_done s \<Longrightarrow>
   server_hashes room msgs later ended t = server_hashes room msgs later ended s"
  by (simp add: server_hashes_def hash_pending_def)

text \<open>Some bytes of the pending write reach the file.\<close>

lemma piece_written:
  assumes "piece_ok B dst p (pos, out @ d)" and "length f = length dst" and "\<forall>k \<ge> p. block_at B f k = block_at B dst k"
  shows "length (file_write f pos out) = length dst \<and> (\<forall>k \<ge> p. block_at B (file_write f pos out) k = block_at B dst k)"
    and "d \<noteq> [] \<Longrightarrow> piece_ok B dst p (pos + length out, d)"
proof -
  from assms(1) obtain j where j: "j < p" "j * B \<le> pos" "pos + length (out @ d) \<le> j * B + B"
    and le: "pos + length (out @ d) \<le> length dst" by (auto simp: piece_ok_def)
  show "d \<noteq> [] \<Longrightarrow> piece_ok B dst p (pos + length out, d)" using j le by (auto simp: piece_ok_def intro!: exI [of _ j])
  have "block_at B (file_write f pos out) k = block_at B f k" if "p \<le> k" for k
    by (rule block_at_write_inside [of j]) (use j le assms(2) that in simp_all)
  moreover have "length (file_write f pos out) = length dst" using le assms(2) by (auto simp: length_file_write)
  ultimately show "length (file_write f pos out) = length dst \<and> (\<forall>k \<ge> p. block_at B (file_write f pos out) k = block_at B dst k)"
    using assms(3) by simp
qed

text \<open>The state after a poll of the pending write: more of it is in the file, and if that was all, nothing is pending.\<close>

lemma disk_written:
  assumes live: "server_live E room p ahead later ended rest s" and some: "sl_write_disk s = Some rwa"
    and w: "rwa_write_all (sl_write_buffer s) rwa (sl_disk_sched s, []) = (q, rwa', ds, out)"
    and d: "d = (if rwa_remaining (sl_write_buffer s) rwa' = [] then None else Some rwa')"
    and t: "t = s\<lparr>sl_disk_sched := ds, sl_file := file_write (sl_file s) (sl_pos s) out, sl_pos := sl_pos s + length out, sl_write_disk := d\<rparr>"
  shows "server_live E room p ahead later ended rest t" and "server_work E t + length out = server_work E s"
    and "0 < accepts (sl_disk_sched s) \<longrightarrow> 0 < length out"
    and "d \<noteq> None \<and> q = Pending \<or> d = None \<and> q = Ready (Ok ()) \<and> 0 < length out"
proof -
  let ?B = "unat (le_block_size E)" and ?rem = "rwa_remaining (sl_write_buffer s)"
  have S: "server_stores ?B (le_dst E) p (le_final E) rest s" using live by (simp add: server_live_def)
  have I: "rwa_inv (sl_write_buffer s) rwa" "piece_ok ?B (le_dst E) p (sl_pos s, ?rem rwa)"
    "sound_sched (sl_disk_sched s)" "wr_waits (sl_disk_sched s) = 0"
    using S some by (simp_all add: server_stores_def)
  then have "?rem rwa \<noteq> []" by (simp add: piece_ok_def)
  note W = rwa.stream_write [OF I(1) this I(3,4) w]
  have eq: "out @ ?rem rwa' = ?rem rwa" using W by simp
  note P = piece_written [of ?B "le_dst E" p "sl_pos s" out "?rem rwa'" "sl_file s", unfolded eq, OF I(2)]
  have tgt: "file_write (file_write (sl_file s) (sl_pos s) out) (sl_pos s + length out) (?rem rwa') = server_target s"
    using some eq by (simp add: file_write_append server_target_def)
  have "server_target t = server_target s" unfolding tgt [symmetric] using d t by (simp add: server_target_def)
  then have "server_stores ?B (le_dst E) p (le_final E) rest t"
    using P S W d unfolding server_stores_def by (simp add: t)
  moreover have "server_receives E ahead rest t" "server_hashes room (le_msgs E) later ended t"
    using live server_receives_frame [of t s] server_hashes_frame [of t s] by (simp_all add: server_live_def t)
  ultimately show "server_live E room p ahead later ended rest t" using live by (simp add: server_live_def)
  show "server_work E t + length out = server_work E s"
    using some d arg_cong [OF eq, of length] by (auto simp: server_work_def server_pending_def t)
  show "0 < accepts (sl_disk_sched s) \<longrightarrow> 0 < length out" using W by simp
  show "d \<noteq> None \<and> q = Pending \<or> d = None \<and> q = Ready (Ok ()) \<and> 0 < length out" using W d by auto
qed

lemma live_disk:
  assumes live: "server_live E room p ahead later ended rest s"
  shows "case server_arm_disk s of
      Off \<Rightarrow> sl_write_disk s = None
    | Waiting s' \<Rightarrow> server_live E room p ahead later ended rest s' \<and> server_work E s' \<le> server_work E s
        \<and> (0 < accepts (sl_disk_sched s) \<longrightarrow> server_work E s' < server_work E s)
        \<and> sl_tx s' = sl_tx s \<and> sl_write_hash s' = sl_write_hash s \<and> sl_hasher s' = sl_hasher s
    | Fired c s' \<Rightarrow> c = Continue \<and> server_live E room p ahead later ended rest s' \<and> server_work E s' < server_work E s"
proof (cases "sl_write_disk s")
  case None
  then show ?thesis by (simp add: server_arm_disk_def)
next
  case (Some rwa)
  obtain q rwa' ds out where w: "rwa_write_all (sl_write_buffer s) rwa (sl_disk_sched s, []) = (q, rwa', ds, out)"
    by (metis prod_cases4)
  let ?d = "if rwa_remaining (sl_write_buffer s) rwa' = [] then None else Some rwa'"
  let ?t = "s\<lparr>sl_disk_sched := ds, sl_file := file_write (sl_file s) (sl_pos s) out,
      sl_pos := sl_pos s + length out, sl_write_disk := ?d\<rparr>"
  note D = disk_written [OF live Some w refl refl]
  show ?thesis
  proof (cases "rwa_remaining (sl_write_buffer s) rwa' = []")
    case True
    then have "server_arm_disk s = Fired Continue ?t" using Some w D(4) by (auto simp: server_arm_disk_def)
    moreover have "server_work E ?t < server_work E s" using D(2,4) True by (metis less_add_same_cancel1)
    ultimately show ?thesis using D(1) by simp
  next
    case False
    then have "server_arm_disk s = Waiting ?t" using Some w D(4) by (auto simp: server_arm_disk_def)
    moreover have "0 < accepts (sl_disk_sched s) \<longrightarrow> server_work E ?t < server_work E s" "server_work E ?t \<le> server_work E s"
      using D(2,3) by linarith+
    ultimately show ?thesis using D(1) by simp
  qed
qed

lemma live_read_block:
  assumes live: "server_live E room p ahead later ended rest s" and idle: "sl_write_disk s = None"
    and rest: "rest = (offset, buf) # rest'" and reader: "rrfb_inv (le_block_size E) (le_filesize E) (rb, buf)"
    "rrfb_got (rb, buf) = []" "bytes_of es @ ahead = concat (map block_message rest')"
    and stream: "waits es = 0" "end_of es = end_of (sl_rx s)" "length (bytes_of es) < length (bytes_of (sl_rx s))"
    and t: "t = s\<lparr>sl_rx := es, sl_read_block := rb, sl_receive_buffer := sl_write_buffer s, sl_write_buffer := buf,
      sl_pos := unat offset, sl_write_disk := Some rwa_new\<rparr>"
  shows "server_live E room p ahead later ended rest' t" and "server_work E t < server_work E s"
proof -
  let ?B = "unat (le_block_size E)"
  have L: "server_receives E ahead rest s" "arrived_inside ?B (le_dst E) p ahead rest"
    "server_stores ?B (le_dst E) p (le_final E) rest s" "server_hashes room (le_msgs E) later ended s"
    using live by (simp_all add: server_live_def)
  have "length ahead \<le> length (concat (map block_message rest'))" using arg_cong [OF reader(3), of length] by simp
  then have piece: "piece_ok ?B (le_dst E) p (unat offset, buf)" using L(2) rest by (fastforce simp: arrived_inside_def)
  have inside: "arrived_inside ?B (le_dst E) p ahead rest'"
    unfolding arrived_inside_def
  proof (intro allI impI)
    fix before b after
    assume "rest' = before @ b # after" "length ahead \<le> length (concat (map block_message after))"
    with L(2) rest show "piece_ok ?B (le_dst E) p (unat (fst b), snd b)"
      unfolding arrived_inside_def by (metis append_Cons)
  qed
  have "rrfb_inv (le_block_size E) (le_filesize E) (rb, sl_write_buffer s)" "rrfb_got (rb, sl_write_buffer s) = []"
    using rrfb_after_ready [OF reader(1,2)] by simp_all
  then have recv: "server_receives E ahead rest' t"
    using L(1) rest reader(3) stream suffix_ConsD [of _ rest' "le_blocks E"] by (auto simp: t server_receives_def)
  have "server_target t = file_write (sl_file s) (unat offset) buf"
    using rwa_new_message by (simp add: t server_target_def)
  then have "apply_blocks (server_target t) (positions rest') = le_final E"
    using L(3) rest idle by (simp add: server_stores_def server_target_def)
  then have store: "server_stores ?B (le_dst E) p (le_final E) rest' t"
    using L(3) piece rwa_new_message unfolding server_stores_def by (simp add: t)
  have "server_hashes room (le_msgs E) later ended t" using L(4) server_hashes_frame [of t s] by (simp add: t)
  with recv inside store show "server_live E room p ahead later ended rest' t" by (simp add: server_live_def)
  have "length buf \<le> ?B" using piece by (auto simp: piece_ok_def)
  moreover have "Suc ?B * Suc (length (bytes_of es)) \<le> Suc ?B * length (bytes_of (sl_rx s))"
    using stream(3) by (intro mult_le_mono2) simp
  ultimately show "server_work E t < server_work E s"
    using idle rwa_new_message by (simp add: t server_work_def server_pending_def)
qed

lemma live_receive:
  assumes live: "server_live E room p ahead later ended rest s"
  shows "case server_arm_read s of
      Off \<Rightarrow> sl_write_disk s \<noteq> None
    | Waiting s' \<Rightarrow> server_live E room p ahead later ended rest s' \<and> server_work E s' \<le> server_work E s
        \<and> end_of (sl_rx s) = StillOpen \<and> (bytes_of (sl_rx s) \<noteq> [] \<longrightarrow> server_work E s' < server_work E s)
        \<and> sl_tx s' = sl_tx s \<and> sl_write_hash s' = sl_write_hash s \<and> sl_hasher s' = sl_hasher s
    | Fired c s' \<Rightarrow> c = Break \<and> server_stored_all E room s'
        \<or> c = Continue \<and> (\<exists>rest'. server_live E room p ahead later ended rest' s') \<and> server_work E s' < server_work E s
          \<and> bytes_of (sl_rx s) \<noteq> []"
proof (cases "sl_write_disk s")
  case (Some rwa)
  then show ?thesis by (simp add: server_arm_read_def)
next
  case None
  let ?bs = "le_block_size E" and ?fsz = "le_filesize E"
  obtain q rb buf es where r: "rrfb_read_on (sl_reader s) (sl_rx s) = (q, (rb, buf), es)" by (metis prod.exhaust)
  have R: "rrfb_inv ?bs ?fsz (sl_reader s)" "list_all (block_fits ?bs ?fsz) rest" "list_all seekable rest" "waits (sl_rx s) = 0"
    "end_of (sl_rx s) = StillOpen \<or> end_of (sl_rx s) = AtEof \<and> ahead = []"
    "rrfb_got (sl_reader s) @ bytes_of (sl_rx s) @ ahead = concat (map block_message rest)"
    using live by (simp_all add: server_live_def server_receives_def)
  have fit0: "block_fits ?bs ?fsz (0, replicate (unat (current_block_size ?bs ?fsz 0)) 0)" by (simp add: block_fits_def)
  from R(1,2) fit0 R(6,4,5) r show ?thesis
  proof (cases rule: rrfb.stream_read)
    case wait
    let ?t = "s\<lparr>sl_rx := es, sl_read_block := rb, sl_receive_buffer := buf\<rparr>"
    have arm: "server_arm_read s = Waiting ?t" using None r wait by (simp add: server_arm_read_def)
    have "server_receives E ahead rest ?t"
      using wait live by (simp add: server_live_def server_receives_def split: if_splits)
    then have "server_live E room p ahead later ended rest ?t"
      using live server_stores_frame [of ?t s] server_hashes_frame [of ?t s] by (simp add: server_live_def)
    moreover have "server_work E ?t + Suc (unat ?bs) * length (bytes_of (sl_rx s)) = server_work E s"
      using wait server_pending_frame [of ?t s] by (simp add: server_work_def)
    ultimately show ?thesis using arm wait by (cases "bytes_of (sl_rx s)") auto
  next
    case (message offset rest')
    let ?t = "s\<lparr>sl_rx := es, sl_read_block := rb, sl_receive_buffer := sl_write_buffer s, sl_write_buffer := buf,
      sl_pos := unat offset, sl_write_disk := Some rwa_new\<rparr>"
    have "rest = (offset, buf) # rest'" using message by simp
    moreover from this R(3) have "unat offset < 2 ^ 63" by (simp add: seekable_def)
    then have "server_arm_read s = Fired Continue ?t" using None r message by (simp add: server_arm_read_def Let_def)
    ultimately show ?thesis using live_read_block [OF live None _ _ _ _ _ _ _ refl, of offset buf rest' rb es] message by auto
  next
    case (over e)
    then have "server_stored_all E room (s\<lparr>sl_rx := es, sl_read_block := rb, sl_receive_buffer := buf\<rparr>)"
      using live None
      by (simp add: server_live_def server_receives_def server_stores_def server_target_def server_hashes_def server_stored_all_def
          split: if_splits)
    then show ?thesis using over None r by (simp add: server_arm_read_def)
  qed
qed

lemma live_write_hash:
  assumes live: "server_live E room p ahead later ended rest s"
  shows "case server_arm_write_hash s of
      Off \<Rightarrow> sl_write_hash s = None
    | Waiting s' \<Rightarrow> server_live E room p ahead later ended rest s' \<and> server_work E s' \<le> server_work E s
        \<and> (0 < accepts (fst (sl_tx s)) \<longrightarrow> server_work E s' < server_work E s)
        \<and> sl_write_hash s' \<noteq> None
    | Fired c s' \<Rightarrow> c = Continue \<and> server_live E room p ahead later ended rest s' \<and> server_work E s' < server_work E s"
proof (cases "sl_write_hash s")
  case None
  then show ?thesis by (simp add: server_arm_write_hash_def)
next
  case (Some rws)
  obtain es o1 where w: "sl_tx s = (es, o1)" by fastforce
  obtain q rws' es' o2 where r: "rws_write_to rws (es, o1) = (q, rws', es', o2)" by (metis prod_cases4)
  have H: "server_hashes room (le_msgs E) later ended s" using live by (simp add: server_live_def)
  have I: "rws_inv rws" "rws_remaining rws \<noteq> []" "sound_sched es" "wr_waits es = 0" "fst room \<le> length o1 \<and> length o1 + granted es \<le> snd room"
    using H Some w by (simp_all add: server_hashes_def)
  note W = rws.stream_write [OF I(1-4) r]
  let ?t = "\<lambda>h. s\<lparr>sl_tx := (es', o2), sl_write_hash := h\<rparr>"
  have out: "o1 @ rws_remaining rws @ x = o2 @ rws_remaining rws' @ x" for x using W by (metis append_assoc)
  have eq: "o2 @ rws_remaining rws' @ hash_messages (hs_items (sl_hasher s)) @ later = le_msgs E"
    using H Some w out by (simp add: server_hashes_def hash_pending_def)
  have hashes: "server_hashes room (le_msgs E) later ended (?t h)"
    if "h = (if rws_remaining rws' = [] then None else Some rws')" for h
    using H W I(5) eq that unfolding server_hashes_def by (auto simp: hash_pending_def)
  have live': "server_live E room p ahead later ended rest (?t h)"
    if "h = (if rws_remaining rws' = [] then None else Some rws')" for h
    using live hashes [OF that] server_receives_frame [of "?t h" s] server_stores_frame [of "?t h" s]
    by (simp add: server_live_def)
  have "length o2 \<le> length (le_msgs E)" using arg_cong [OF eq, of length] by simp
  then have work: "server_work E (?t h) + (length o2 - length o1) = server_work E s" for h
    using W w server_pending_frame [of "?t h" s] by (simp add: server_work_def)
  show ?thesis
  proof (cases "rws_remaining rws' = []")
    case True
    then have "server_arm_write_hash s = Fired Continue (?t None)" "length o1 < length o2"
      using Some w r W by (auto simp: server_arm_write_hash_def)
    moreover from this(2) have "server_work E (?t None) < server_work E s" using work [of None] by linarith
    ultimately show ?thesis using live' [of None] True by simp
  next
    case False
    then have "server_arm_write_hash s = Waiting (?t (Some rws'))" using Some w r W by (auto simp: server_arm_write_hash_def)
    moreover have "0 < accepts es \<longrightarrow> length o1 < length o2" using W by simp
    ultimately show ?thesis using live' [of "Some rws'"] work [of "Some rws'"] False w by auto
  qed
qed

lemma live_hash_stream:
  assumes live: "server_live E room p ahead later ended rest s"
  shows "case server_arm_hasher s of
      Off \<Rightarrow> sl_write_hash s \<noteq> None \<or> hs_items (sl_hasher s) = []
    | Waiting s' \<Rightarrow> server_live E room p ahead later ended rest s' \<and> server_work E s' = server_work E s
        \<and> hs_items (sl_hasher s) = []
    | Fired c s' \<Rightarrow> c = Continue \<and> server_live E room p ahead later ended rest s' \<and> server_work E s' < server_work E s"
proof (cases "sl_write_hash s \<noteq> None \<or> sl_hashing_done s")
  case True
  with live show ?thesis by (auto simp: server_arm_hasher_def server_live_def server_hashes_def)
next
  case False
  have H: "server_hashes room (le_msgs E) later ended s" using live by (simp add: server_live_def)
  then have script: "sl_hasher s = hs_script (hs_items (sl_hasher s)) ended" by (simp add: server_hashes_def)
  have keep: "server_live E room p ahead later ended rest t"
    if "server_hashes room (le_msgs E) later ended t" "server_frame s t" for t
    using live that server_receives_frame [of t s] server_stores_frame [of t s] by (simp add: server_live_def server_frame_def)
  show ?thesis
  proof (cases "hs_items (sl_hasher s)")
    case Nil
    show ?thesis
    proof (cases ended)
      case True
      then have h: "sl_hasher s = [HsEnd]" using script Nil by simp
      have "server_live E room p ahead later ended rest (s\<lparr>sl_hasher := [HsEnd], sl_hashing_done := True\<rparr>)"
        using H h True by (intro keep) (simp_all add: server_hashes_def hash_pending_def server_frame_def)
      then show ?thesis using False h by (simp add: server_arm_hasher_def server_work_def server_pending_def cong: option.case_cong)
    next
      case no: False
      then have h: "sl_hasher s = []" using script Nil by simp
      then have e: "s\<lparr>sl_hasher := []\<rparr> = s" by (cases s) simp
      have "server_arm_hasher s = Waiting (s\<lparr>sl_hasher := []\<rparr>)" using False h by (simp add: server_arm_hasher_def)
      then have "server_arm_hasher s = Waiting s" unfolding e .
      then show ?thesis using live Nil by simp
    qed
  next
    case (Cons x its)
    obtain i h d where x: "x = (i, h, d)" by (cases x) auto
    then have e: "sl_hasher s = HsItem i h d # hs_script its ended" using script Cons by simp
    let ?t = "s\<lparr>sl_hasher := hs_script its ended, sl_write_hash := Some (rws_new h)\<rparr>"
    have "server_live E room p ahead later ended rest ?t"
      using H False e by (intro keep)
        (auto simp: server_hashes_def hash_pending_def server_frame_def hash_messages_def rws_new_message string_message_def)
    then show ?thesis using False e server_pending_frame [of ?t s] by (simp add: server_arm_hasher_def server_work_def)
  qed
qed

section \<open>One iteration\<close>

interpretation live_server: live_loop "[server_arm_disk, server_arm_read, server_arm_write_hash, server_arm_hasher]"
    "\<lambda>s. \<exists>rest. server_live E room p ahead later ended rest s" "server_work E" "server_stored_all E room"
  for E room p ahead later ended
proof unfold_locales
  fix a s
  assume a: "a \<in> set [server_arm_disk, server_arm_read, server_arm_write_hash, server_arm_hasher]"
    and "\<exists>rest. server_live E room p ahead later ended rest s"
  then obtain rest where live: "server_live E room p ahead later ended rest s" by blast
  from a live_disk [OF live] live_receive [OF live] live_write_hash [OF live] live_hash_stream [OF live]
  show "case a s of
      Off \<Rightarrow> True
    | Waiting s' \<Rightarrow> (\<exists>rest. server_live E room p ahead later ended rest s') \<and> server_work E s' \<le> server_work E s
    | Fired c s' \<Rightarrow> c = Break \<and> server_stored_all E room s'
        \<or> c = Continue \<and> (\<exists>rest. server_live E room p ahead later ended rest s') \<and> server_work E s' < server_work E s"
    by (cases "a s") auto
next
  fix s assume "\<exists>rest. server_live E room p ahead later ended rest s"
  then obtain rest where live: "server_live E room p ahead later ended rest s" by blast
  have "server_arm_disk s \<noteq> Off \<or> server_arm_read s \<noteq> Off" using live_disk [OF live] live_receive [OF live] by auto
  then show "\<exists>a \<in> set [server_arm_disk, server_arm_read, server_arm_write_hash, server_arm_hasher]. a s \<noteq> Off" by auto
qed

text \<open>The arms of the disk and of the incoming blocks leave the hashes alone when they wait.\<close>

lemma server_early_arms:
  assumes "server_live E room p ahead later ended rest s" and "b = server_arm_disk \<or> b = server_arm_read" and "b s = Waiting s'"
  shows "sl_tx s' = sl_tx s \<and> sl_write_hash s' = sl_write_hash s \<and> sl_hasher s' = sl_hasher s"
  using assms live_disk [OF assms(1)] live_receive [OF assms(1)] by auto

text \<open>
  The server makes progress when the disk takes a byte, when bytes have arrived and no write is pending,
  when the socket takes a byte of a hash, and when a hash can be taken from the stream.
\<close>

lemma disk_progress:
  assumes live: "server_live E room p ahead later ended rest s"
    and ready: "sl_write_disk s \<noteq> None \<and> 0 < accepts (sl_disk_sched s)" and sel: "server_select s = (c, s')"
  shows "server_work E s' < server_work E s \<or> c = Break"
proof -
  have inv: "\<exists>rest. server_live E room p ahead later ended rest s" using live by blast
  show ?thesis
  proof (rule live_server.iteration_progress [where s = s and w = False and c = c and s' = s'
        and bs = "[]" and a = server_arm_disk and bs' = "[server_arm_read, server_arm_write_hash, server_arm_hasher]"
        and ready = "\<lambda>s. sl_write_disk s \<noteq> None \<and> 0 < accepts (sl_disk_sched s)", OF _ inv ready])
    show "server_arm_disk t \<noteq> Off \<and> (\<forall>t'. server_arm_disk t = Waiting t' \<longrightarrow> server_work E t' < server_work E t)"
      if "\<exists>rest. server_live E room p ahead later ended rest t" "sl_write_disk t \<noteq> None \<and> 0 < accepts (sl_disk_sched t)" for t
      using that live_disk [of E room p ahead later ended _ t] by fastforce
  qed (use sel in \<open>simp_all add: server_select_def\<close>)
qed

lemma receive_progress:
  assumes live: "server_live E room p ahead later ended rest s"
    and ready: "sl_write_disk s = None \<and> bytes_of (sl_rx s) \<noteq> []" and sel: "server_select s = (c, s')"
  shows "server_work E s' < server_work E s \<or> c = Break"
proof -
  have inv: "\<exists>rest. server_live E room p ahead later ended rest s" using live by blast
  have off: "server_arm_disk s = Off" using ready by (simp add: server_arm_disk_def)
  show ?thesis
  proof (rule live_server.iteration_progress [where s = s and w = False and c = c and s' = s'
        and bs = "[]" and a = server_arm_read and bs' = "[server_arm_write_hash, server_arm_hasher]"
        and ready = "\<lambda>s. sl_write_disk s = None \<and> bytes_of (sl_rx s) \<noteq> []", OF _ inv ready])
    show "server_arm_read t \<noteq> Off \<and> (\<forall>t'. server_arm_read t = Waiting t' \<longrightarrow> server_work E t' < server_work E t)"
      if "\<exists>rest. server_live E room p ahead later ended rest t" "sl_write_disk t = None \<and> bytes_of (sl_rx t) \<noteq> []" for t
      using that live_receive [of E room p ahead later ended _ t] by fastforce
  qed (use sel off in \<open>simp_all add: server_select_def\<close>)
qed

lemma write_hash_progress:
  assumes live: "server_live E room p ahead later ended rest s"
    and ready: "sl_write_hash s \<noteq> None \<and> 0 < accepts (fst (sl_tx s))" and sel: "server_select s = (c, s')"
  shows "server_work E s' < server_work E s \<or> c = Break"
proof -
  have inv: "\<exists>rest. server_live E room p ahead later ended rest s" using live by blast
  show ?thesis
  proof (rule live_server.iteration_progress [where s = s and w = False and c = c and s' = s'
        and bs = "[server_arm_disk, server_arm_read]" and a = server_arm_write_hash and bs' = "[server_arm_hasher]"
        and ready = "\<lambda>s. sl_write_hash s \<noteq> None \<and> 0 < accepts (fst (sl_tx s))", OF _ inv ready])
    show "server_arm_write_hash t \<noteq> Off \<and> (\<forall>t'. server_arm_write_hash t = Waiting t' \<longrightarrow> server_work E t' < server_work E t)"
      if "\<exists>rest. server_live E room p ahead later ended rest t" "sl_write_hash t \<noteq> None \<and> 0 < accepts (fst (sl_tx t))" for t
      using that live_write_hash [of E room p ahead later ended _ t] by fastforce
    show "sl_write_hash t' \<noteq> None \<and> 0 < accepts (fst (sl_tx t'))"
      if "b \<in> set [server_arm_disk, server_arm_read]" "\<exists>rest. server_live E room p ahead later ended rest t"
        "sl_write_hash t \<noteq> None \<and> 0 < accepts (fst (sl_tx t))" "b t = Waiting t'" for b t t'
      using that server_early_arms [of E room p ahead later ended _ t b t'] by auto
  qed (use sel in \<open>simp_all add: server_select_def\<close>)
qed

lemma hash_stream_progress:
  assumes live: "server_live E room p ahead later ended rest s"
    and ready: "sl_write_hash s = None \<and> hs_items (sl_hasher s) \<noteq> []" and sel: "server_select s = (c, s')"
  shows "server_work E s' < server_work E s \<or> c = Break"
proof -
  have inv: "\<exists>rest. server_live E room p ahead later ended rest s" using live by blast
  show ?thesis
  proof (rule live_server.iteration_progress [where s = s and w = False and c = c and s' = s'
        and bs = "[server_arm_disk, server_arm_read, server_arm_write_hash]" and a = server_arm_hasher and bs' = "[]"
        and ready = "\<lambda>s. sl_write_hash s = None \<and> hs_items (sl_hasher s) \<noteq> []", OF _ inv ready])
    show "server_arm_hasher t \<noteq> Off \<and> (\<forall>t'. server_arm_hasher t = Waiting t' \<longrightarrow> server_work E t' < server_work E t)"
      if "\<exists>rest. server_live E room p ahead later ended rest t" "sl_write_hash t = None \<and> hs_items (sl_hasher t) \<noteq> []" for t
      using that live_hash_stream [of E room p ahead later ended _ t] by fastforce
    show "sl_write_hash t' = None \<and> hs_items (sl_hasher t') \<noteq> []"
      if "b \<in> set [server_arm_disk, server_arm_read, server_arm_write_hash]" "\<exists>rest. server_live E room p ahead later ended rest t"
        "sl_write_hash t = None \<and> hs_items (sl_hasher t) \<noteq> []" "b t = Waiting t'" for b t t'
      using that server_early_arms [of E room p ahead later ended _ t b t'] by (auto simp: server_arm_write_hash_def)
  qed (use sel in \<open>simp_all add: server_select_def\<close>)
qed

lemmas server_progress = disk_progress receive_progress write_hash_progress hash_stream_progress

text \<open>When the client is gone and everything is written, the loop is left.\<close>

lemma server_leaves:
  assumes live: "server_live E room p ahead later ended rest s" and "sl_write_disk s = None"
    and "bytes_of (sl_rx s) = []" and "end_of (sl_rx s) = AtEof" and sel: "server_select s = (c, s')"
  shows "c = Break"
proof -
  have "server_arm_disk s = Off" using assms(2) by (simp add: server_arm_disk_def)
  with live_receive [OF live] assms show ?thesis by (cases "server_arm_read s") (auto simp: server_select_def)
qed

end
