(* ===== verification/Joint_System.thy ===== *)
theory Joint_System
  imports Live_Client Live_Server
begin

text \<open>
  Client and server at work together. The event loops of \<open>client.rs\<close> and \<open>server.rs\<close>, the workers that
  hash the destination and the connection between the two interleave freely (\<open>joint_step\<close>): an iteration of a loop
  writes what the socket takes at that moment, bytes travel in pieces of any size, at most \<open>tf_capacity\<close> bytes
  are buffered in each direction, and the workers read the file while the server overwrites it. The theory holds the
  system, what the two sides exchange in a session, the invariant \<open>joint_inv\<close> and the measure \<open>joint_todo\<close>, and what
  one iteration of either loop does to them.
\<close>

section \<open>The system\<close>

record transfer =
  tf_crates :: crates
  tf_options :: ClientProcessOptions
  tf_workers :: u8                 \<comment> \<open>the workers of the server; those of the client are an option of it\<close>
  tf_src :: "u8 list"              \<comment> \<open>the source\<close>
  tf_dst :: "u8 list"              \<comment> \<open>the destination as the handshake left it\<close>
  tf_capacity :: nat               \<comment> \<open>bytes buffered by the connection, each way\<close>

abbreviation tf_size :: "transfer \<Rightarrow> usize" where
  "tf_size T \<equiv> opt_block_size (tf_options T)"

abbreviation tf_algorithm :: "transfer \<Rightarrow> HashAlgorithm" where
  "tf_algorithm T \<equiv> opt_hash_algorithm (tf_options T)"

abbreviation tf_count :: "transfer \<Rightarrow> nat" where
  "tf_count T \<equiv> div_ceil (length (tf_dst T)) (unat (tf_size T))"

record joint =
  jt_client :: client_loop
  jt_client_end :: "unit result option"    \<comment> \<open>how the client's loop was left\<close>
  jt_server :: server_loop
  jt_server_end :: "unit result option"
  jt_to_client :: nat                      \<comment> \<open>how many of the bytes the server wrote have arrived\<close>
  jt_to_server :: nat
  jt_eof :: bool                           \<comment> \<open>has the client closed the connection?\<close>
  jt_seen :: "nat \<Rightarrow> u8 list"             \<comment> \<open>what the workers have read of each block\<close>
  jt_pushed :: nat                         \<comment> \<open>blocks handed to the ordered channel\<close>
  jt_ended :: bool                         \<comment> \<open>are all senders of the channel dropped?\<close>

text \<open>Both loops as they start after the handshake; \<open>hs\<close> is what the client's own hash stream will give.\<close>

definition joint_start :: "transfer \<Rightarrow> hs_event list \<Rightarrow> joint" where
  "joint_start T hs =
     \<lparr>jt_client = client_loop_start (tf_size T) (word_of_nat (length (tf_src T))) [] [] ([], []) hs, jt_client_end = None,
      jt_server = server_loop_start (session_of (tf_options T) (tf_src T)) (tf_dst T) [] ([], []) [] [], jt_server_end = None,
      jt_to_client = 0, jt_to_server = 0, jt_eof = False, jt_seen = \<lambda>_. [], jt_pushed = 0, jt_ended = False\<rparr>"

definition loop_result :: "ctl \<Rightarrow> unit result option" where
  "loop_result c = (case c of Break \<Rightarrow> Some (Ok ()) | Return e \<Rightarrow> Some (Err e) | _ \<Rightarrow> None)"

text \<open>What timer, sockets and disk are ready for in the next iteration.\<close>

definition client_granted :: "bool list \<Rightarrow> nat list \<Rightarrow> client_loop \<Rightarrow> client_loop" where
  "client_granted ts gs s = s\<lparr>cl_timer := ts, cl_tx := (map Accept gs, snd (cl_tx s))\<rparr>"

definition server_granted :: "nat list \<Rightarrow> nat list \<Rightarrow> server_loop \<Rightarrow> server_loop" where
  "server_granted gs ds s = s\<lparr>sl_tx := (map Accept gs, snd (sl_tx s)), sl_disk_sched := map Accept ds\<rparr>"

text \<open>One iteration of the client's loop, and one of the server's.\<close>

definition client_turn :: "bool \<Rightarrow> nat list \<Rightarrow> joint \<Rightarrow> joint" where
  "client_turn t gs j =
     (case client_select (client_granted [t] gs (jt_client j)) of
        (c, s) \<Rightarrow> j\<lparr>jt_client := client_granted [] [] s, jt_client_end := loop_result c\<rparr>)"

definition server_turn :: "nat list \<Rightarrow> nat list \<Rightarrow> joint \<Rightarrow> joint" where
  "server_turn gs ds j =
     (case server_select (server_granted gs ds (jt_server j)) of
        (c, s) \<Rightarrow> j\<lparr>jt_server := server_granted [] [] s, jt_server_end := loop_result c\<rparr>)"

text \<open>The connection: bytes arrive; the stream is dropped at the end of \<open>new_process\<close>, which the server sees as its end.\<close>

definition deliver_to_client :: "nat \<Rightarrow> joint \<Rightarrow> joint" where
  "deliver_to_client n j =
     j\<lparr>jt_client := (jt_client j)\<lparr>cl_rx := cl_rx (jt_client j)
         @ [Chunk (take n (drop (jt_to_client j) (snd (sl_tx (jt_server j)))))]\<rparr>,
       jt_to_client := jt_to_client j + n\<rparr>"

definition deliver_to_server :: "nat \<Rightarrow> joint \<Rightarrow> joint" where
  "deliver_to_server n j =
     j\<lparr>jt_server := (jt_server j)\<lparr>sl_rx := sl_rx (jt_server j)
         @ [Chunk (take n (drop (jt_to_server j) (snd (cl_tx (jt_client j)))))]\<rparr>,
       jt_to_server := jt_to_server j + n\<rparr>"

definition client_closes :: "joint \<Rightarrow> joint" where
  "client_closes j = j\<lparr>jt_server := (jt_server j)\<lparr>sl_rx := sl_rx (jt_server j) @ [Eof]\<rparr>, jt_eof := True\<rparr>"

text \<open>The workers of the server: reading a piece of a block, pushing the next block, dropping the last sender.\<close>

definition worker_turn :: "nat \<Rightarrow> nat \<Rightarrow> nat \<Rightarrow> joint \<Rightarrow> joint" where
  "worker_turn B k n j =
     j\<lparr>jt_seen := (jt_seen j)(k := jt_seen j k
         @ take n (drop (length (jt_seen j k)) (block_at B (sl_file (jt_server j)) k)))\<rparr>"

definition worker_pushes :: "crates \<Rightarrow> HashAlgorithm \<Rightarrow> joint \<Rightarrow> joint" where
  "worker_pushes C a j =
     (let k = jt_pushed j; data = jt_seen j k in
      j\<lparr>jt_server := (jt_server j)\<lparr>sl_hasher := sl_hasher (jt_server j) @ [HsItem (word_of_nat k) (hash_data C data a) data]\<rparr>,
        jt_pushed := Suc k\<rparr>)"

definition workers_finish :: "joint \<Rightarrow> joint" where
  "workers_finish j = j\<lparr>jt_server := (jt_server j)\<lparr>sl_hasher := sl_hasher (jt_server j) @ [HsEnd]\<rparr>, jt_ended := True\<rparr>"

text \<open>Bytes in the buffers of the connection: written by one side and not yet read by the other.\<close>

definition client_backlog :: "joint \<Rightarrow> nat" where
  "client_backlog j = (length (snd (cl_tx (jt_client j))) - jt_to_server j) + length (bytes_of (sl_rx (jt_server j)))"

definition server_backlog :: "joint \<Rightarrow> nat" where
  "server_backlog j = (length (snd (sl_tx (jt_server j))) - jt_to_client j) + length (bytes_of (cl_rx (jt_client j)))"

text \<open>A step of the connection.\<close>

inductive wire_step :: "joint \<Rightarrow> joint \<Rightarrow> bool" where
  down: "0 < n \<Longrightarrow> jt_to_client j + n \<le> length (snd (sl_tx (jt_server j))) \<Longrightarrow> wire_step j (deliver_to_client n j)"
| up: "0 < n \<Longrightarrow> jt_to_server j + n \<le> length (snd (cl_tx (jt_client j))) \<Longrightarrow> wire_step j (deliver_to_server n j)"
| close: "jt_client_end j \<noteq> None \<Longrightarrow> jt_to_server j = length (snd (cl_tx (jt_client j))) \<Longrightarrow> \<not> jt_eof j \<Longrightarrow>
    wire_step j (client_closes j)"

text \<open>What an iteration of the client's loop may be granted, and one of the server's.\<close>

definition client_may :: "transfer \<Rightarrow> joint \<Rightarrow> nat list \<Rightarrow> bool" where
  "client_may T j gs \<longleftrightarrow> jt_client_end j = None \<and> list_all ((<) 0) gs \<and> sum_list gs \<le> tf_capacity T - client_backlog j"

definition server_may :: "transfer \<Rightarrow> joint \<Rightarrow> nat list \<Rightarrow> nat list \<Rightarrow> bool" where
  "server_may T j gs ds \<longleftrightarrow> jt_server_end j = None \<and> list_all ((<) 0) gs \<and> list_all ((<) 0) ds
     \<and> sum_list gs \<le> tf_capacity T - server_backlog j"

inductive joint_step :: "transfer \<Rightarrow> joint \<Rightarrow> joint \<Rightarrow> bool" for T where
  client: "client_may T j gs \<Longrightarrow> joint_step T j (client_turn t gs j)"
| wire: "wire_step j j' \<Longrightarrow> joint_step T j j'"
| server: "server_may T j gs ds \<Longrightarrow> joint_step T j (server_turn gs ds j)"
| reads: "jt_server_end j = None \<Longrightarrow> k < tf_count T \<Longrightarrow>
    length (jt_seen j k) < length (block_at (unat (tf_size T)) (tf_dst T) k) \<Longrightarrow> 0 < n \<Longrightarrow>
    joint_step T j (worker_turn (unat (tf_size T)) k n j)"
| push: "jt_server_end j = None \<Longrightarrow> jt_pushed j < tf_count T \<Longrightarrow>
    length (jt_seen j (jt_pushed j)) = length (block_at (unat (tf_size T)) (tf_dst T) (jt_pushed j)) \<Longrightarrow>
    joint_step T j (worker_pushes (tf_crates T) (tf_algorithm T) j)"
| finish: "jt_server_end j = None \<Longrightarrow> jt_pushed j = tf_count T \<Longrightarrow> \<not> jt_ended j \<Longrightarrow> joint_step T j (workers_finish j)"

definition joint_done :: "joint \<Rightarrow> bool" where
  "joint_done j \<longleftrightarrow> jt_client_end j \<noteq> None \<and> jt_server_end j \<noteq> None"

section \<open>What the two sides exchange\<close>

definition tf_differs :: "transfer \<Rightarrow> nat \<Rightarrow> bool" where
  "tf_differs T k \<longleftrightarrow> hash_data (tf_crates T) (block_at (unat (tf_size T)) (tf_src T) k) (tf_algorithm T)
     \<noteq> hash_data (tf_crates T) (block_at (unat (tf_size T)) (tf_dst T) k) (tf_algorithm T)"

definition tf_items :: "transfer \<Rightarrow> hs_item list" where
  "tf_items T = hash_items (tf_crates T) (tf_algorithm T) (unat (tf_size T)) (tf_src T)"

definition tf_hashes :: "transfer \<Rightarrow> rstring list" where
  "tf_hashes T = remote_hashes (tf_crates T) (tf_algorithm T) (unat (tf_size T)) (tf_dst T)"

text \<open>The hashes from block \<open>k\<close> on, and the differing blocks from block \<open>k\<close> on.\<close>

definition tf_down :: "transfer \<Rightarrow> nat \<Rightarrow> u8 list" where
  "tf_down T k = concat (map string_message (drop k (tf_hashes T)))"

definition tf_blocks :: "transfer \<Rightarrow> nat \<Rightarrow> (usize \<times> u8 list) list" where
  "tf_blocks T k = sent_blocks (tf_size T) (tf_src T) (filter (tf_differs T) [k..<tf_count T])"

definition tf_up :: "transfer \<Rightarrow> nat \<Rightarrow> u8 list" where
  "tf_up T k = concat (map block_message (tf_blocks T k))"

text \<open>A session that passed the handshake: sizes agree, and the connection buffers at least a byte each way.\<close>

definition tf_ok :: "transfer \<Rightarrow> bool" where
  "tf_ok T \<longleftrightarrow> sizes_ok (length (tf_src T)) (tf_size T) (opt_workers (tf_options T))
     \<and> sizes_ok (length (tf_src T)) (tf_size T) (tf_workers T) \<and> tf_src T \<noteq> []
     \<and> length (tf_dst T) = length (tf_src T) \<and> hex_documented (tf_crates T) \<and> 0 < tf_capacity T"

lemma tf_ok_size:
  assumes "tf_ok T"
  shows "0 < unat (tf_size T)" "div_ceil (length (tf_src T)) (unat (tf_size T)) = tf_count T"
    "length (block_at (unat (tf_size T)) (tf_src T) k) = length (block_at (unat (tf_size T)) (tf_dst T) k)"
  using assms by (simp_all add: tf_ok_def sizes_ok_def word_less_nat_alt length_block_at)

lemma length_tf: "length (tf_hashes T) = tf_count T" "tf_ok T \<Longrightarrow> length (tf_items T) = tf_count T"
  by (simp_all add: tf_hashes_def tf_items_def remote_hashes_def hash_items_def tf_ok_size)

lemma string_message_length: "length (string_message h) = 8 + length h"
  by (simp add: string_message_def)

lemma tf_down_step:
  assumes "k < tf_count T"
  shows "tf_down T k = string_message (hash_data (tf_crates T) (block_at (unat (tf_size T)) (tf_dst T) k) (tf_algorithm T))
    @ tf_down T (Suc k)"
proof -
  have "drop k (tf_hashes T) = tf_hashes T ! k # drop (Suc k) (tf_hashes T)"
    using assms by (simp add: Cons_nth_drop_Suc length_tf)
  then show ?thesis using assms by (simp add: tf_down_def tf_hashes_def remote_hashes_def)
qed

lemma tf_down_over [simp]: "tf_down T (tf_count T) = []"
  by (simp add: tf_down_def length_tf)

text \<open>Fewer hashes take fewer bytes.\<close>

lemma tf_down_less: "i < k \<Longrightarrow> k \<le> tf_count T \<Longrightarrow> length (tf_down T k) < length (tf_down T i)"
proof (induction "k - Suc i" arbitrary: i)
  case 0
  then have "k = Suc i" by simp
  with 0 tf_down_step [of i T] show ?case by (simp add: string_message_length)
next
  case (Suc d)
  then have "d = k - Suc (Suc i)" "Suc i < k" by simp_all
  with Suc.hyps(1) [of "Suc i"] Suc.prems tf_down_step [of i T] show ?case by simp
qed

text \<open>What the client sends from block \<open>k\<close> on.\<close>

lemma client_out_tf:
  assumes "tf_ok T"
  shows "client_out (tf_size T) (tf_items T) (tf_hashes T) k = tf_up T k"
proof -
  have "drop k (tf_items T) = map (hash_item (tf_crates T) (tf_algorithm T) (unat (tf_size T)) (tf_src T)) [k..<tf_count T]"
    using assms by (simp add: tf_items_def hash_items_def drop_map tf_ok_size)
  moreover have "drop k (tf_hashes T)
      = map (\<lambda>k. hash_data (tf_crates T) (block_at (unat (tf_size T)) (tf_dst T) k) (tf_algorithm T)) [k..<tf_count T]"
    by (simp add: tf_hashes_def remote_hashes_def drop_map)
  ultimately show ?thesis
    using send_messages_blocks
    by (simp add: client_out_def diverging_from tf_up_def tf_blocks_def tf_differs_def [abs_def])
qed

lemma tf_blocks_all:
  assumes "tf_ok T"
  shows "tf_blocks T 0 = sent_blocks (tf_size T) (tf_src T)
    (differing (tf_crates T) (tf_algorithm T) (unat (tf_size T)) (tf_src T) (tf_dst T))"
  using assms by (simp add: tf_blocks_def differing_def tf_ok_size flip: tf_differs_def)

text \<open>A block that still has to come, with everything that comes after it, is sent from its own index on.\<close>

lemma tf_blocks_split:
  assumes "suffix (b # after) (tf_blocks T 0)"
  obtains i where "i < tf_count T" "b = (word_of_nat i * tf_size T, block_at (unat (tf_size T)) (tf_src T) i)"
    "tf_blocks T i = b # after"
proof -
  let ?f = "\<lambda>k. (word_of_nat k * tf_size T, block_at (unat (tf_size T)) (tf_src T) k)" and ?D = "filter (tf_differs T)"
  from assms obtain pre where "map ?f (?D [0..<tf_count T]) = pre @ b # after"
    by (auto simp: suffix_def tf_blocks_def sent_blocks_def)
  then obtain ps i qs where l: "?D [0..<tf_count T] = ps @ i # qs" "?f i = b" "map ?f qs = after"
    by (auto simp: map_eq_append_conv map_eq_Cons_conv)
  have "i \<in> set (?D [0..<tf_count T])" unfolding l(1) by simp
  then have i: "i < tf_count T" "tf_differs T i" by simp_all
  have "[0..<tf_count T] = [0..<i] @ i # [Suc i..<tf_count T]"
    using i(1) upt_add_eq_append [of 0 i "tf_count T - i"] upt_conv_Cons [of i "tf_count T"] by simp
  then have "ps @ i # qs = ?D [0..<i] @ i # ?D [Suc i..<tf_count T]" using l(1) i(2) by simp
  moreover have "distinct (ps @ i # qs)" unfolding l(1) [symmetric] by simp
  then have "i \<notin> set ps" "i \<notin> set qs" by auto
  ultimately have "qs = ?D [Suc i..<tf_count T]" by (metis append_Cons_eq_iff)
  then have "tf_blocks T i = b # after"
    using l i upt_conv_Cons [of i "tf_count T"] by (auto simp: tf_blocks_def sent_blocks_def)
  with i(1) l(2) show thesis using that by simp
qed

lemma block_message_length: "length (block_message b) = 8 + length (snd b)"
  by (cases b) (simp add: block_message_def)

lemma tf_up_mono: "k \<le> i \<Longrightarrow> length (tf_up T i) \<le> length (tf_up T k)"
proof -
  assume k: "k \<le> i"
  show ?thesis
  proof (cases "i \<le> tf_count T")
    case True
    then have "[k..<tf_count T] = [k..<i] @ [i..<tf_count T]"
      using k upt_add_eq_append [of k i "tf_count T - i"] by simp
    then show ?thesis by (simp add: tf_up_def tf_blocks_def sent_blocks_def)
  qed (simp add: tf_up_def tf_blocks_def sent_blocks_def)
qed

text \<open>
  Blocks arrive behind the comparison: as long as the client has sent no block from \<open>k\<close> on, all that has arrived
  completely lies before \<open>k\<close>.
\<close>

lemma arrived_behind:
  assumes ok: "tf_ok T" and rest: "suffix rest (tf_blocks T 0)" and len: "length (tf_up T k) \<le> length ahead" and k: "k \<le> p"
  shows "arrived_inside (unat (tf_size T)) (tf_dst T) p ahead rest"
  unfolding arrived_inside_def
proof (intro allI impI)
  fix before b after
  assume r: "rest = before @ b # after" and le: "length ahead \<le> length (concat (map block_message after))"
  have "suffix (b # after) rest" unfolding r by (simp add: suffix_def)
  then have "suffix (b # after) (tf_blocks T 0)" using rest by (rule suffix_order.trans)
  then obtain i where i: "i < tf_count T" "b = (word_of_nat i * tf_size T, block_at (unat (tf_size T)) (tf_src T) i)"
    "tf_blocks T i = b # after" by (rule tf_blocks_split)
  have "\<not> k \<le> i"
  proof
    assume "k \<le> i"
    from tf_up_mono [OF this, of T] i(3) len le show False by (simp add: tf_up_def block_message_length)
  qed
  then have p: "Suc i \<le> p" using k by simp
  have B: "0 < unat (tf_size T)" by (rule tf_ok_size(1) [OF ok])
  have size: "sizes_ok (length (tf_src T)) (tf_size T) (opt_workers (tf_options T))" "length (tf_dst T) = length (tf_src T)"
    using ok by (simp_all add: tf_ok_def)
  have nb: "i < div_ceil (length (tf_src T)) (unat (tf_size T))" using i(1) size by simp
  then have "i * unat (tf_size T) < length (tf_src T)" using B by (simp add: div_ceil_iff)
  from sent_offset [OF size(1) this] have "(unat (fst b), snd b) = (i * unat (tf_size T), block_at (unat (tf_size T)) (tf_src T) i)"
    using i(2) by simp
  moreover have "piece_ok (unat (tf_size T)) (tf_src T) p (i * unat (tf_size T), block_at (unat (tf_size T)) (tf_src T) i)"
    by (rule piece_ok_mono [OF block_piece_ok [OF B nb] p])
  ultimately show "piece_ok (unat (tf_size T)) (tf_dst T) p (unat (fst b), snd b)"
    using size(2) by (simp add: piece_ok_def)
qed

section \<open>The invariant\<close>

definition joint_env :: "transfer \<Rightarrow> bool \<Rightarrow> live_env" where
  "joint_env T eof = \<lparr>le_block_size = tf_size T, le_filesize = word_of_nat (length (tf_src T)), le_dst = tf_dst T,
     le_final = apply_blocks (tf_dst T) (positions (tf_blocks T 0)), le_msgs = tf_down T 0, le_blocks = tf_blocks T 0, le_eof = eof\<rparr>"

definition client_ok :: "transfer \<Rightarrow> joint \<Rightarrow> bool" where
  "client_ok T j \<longleftrightarrow>
     (let s = jt_client j; n = length (snd (cl_tx s)); ahead = drop (jt_to_client j) (tf_down T 0) in
      case jt_client_end j of
        None \<Rightarrow> \<exists>rest. client_live (n, n) ahead (tf_size T) (tf_items T) (tf_hashes T) rest s
      | Some r \<Rightarrow> r = Ok () \<and> client_sent_all (n, n) ahead (tf_size T) (tf_items T) (tf_hashes T) s)"

definition server_ok :: "transfer \<Rightarrow> joint \<Rightarrow> bool" where
  "server_ok T j \<longleftrightarrow>
     (let s = jt_server j; n = length (snd (sl_tx s)); E = joint_env T (jt_eof j) in
      case jt_server_end j of
        None \<Rightarrow> \<exists>rest. server_live E (n, n) (jt_pushed j) (drop (jt_to_server j) (tf_up T 0)) (tf_down T (jt_pushed j))
          (jt_ended j) rest s
      | Some r \<Rightarrow> r = Ok () \<and> server_stored_all E (n, n) s)"

definition workers_ok :: "transfer \<Rightarrow> joint \<Rightarrow> bool" where
  "workers_ok T j \<longleftrightarrow> jt_pushed j \<le> tf_count T \<and> (jt_ended j \<longrightarrow> jt_pushed j = tf_count T)
     \<and> (\<forall>k. prefix (jt_seen j k) (block_at (unat (tf_size T)) (tf_dst T) k))
     \<and> (\<forall>k < jt_pushed j. jt_seen j k = block_at (unat (tf_size T)) (tf_dst T) k)"

definition wires_ok :: "transfer \<Rightarrow> joint \<Rightarrow> bool" where
  "wires_ok T j \<longleftrightarrow> jt_to_client j \<le> length (snd (sl_tx (jt_server j))) \<and> jt_to_server j \<le> length (snd (cl_tx (jt_client j)))
     \<and> (jt_eof j \<longrightarrow> jt_client_end j \<noteq> None)"

definition joint_inv :: "transfer \<Rightarrow> joint \<Rightarrow> bool" where
  "joint_inv T j \<longleftrightarrow> client_ok T j \<and> server_ok T j \<and> workers_ok T j \<and> wires_ok T j"

text \<open>What is left to do.\<close>

definition client_left :: "transfer \<Rightarrow> joint \<Rightarrow> nat" where
  "client_left T j = (if jt_client_end j = None then Suc (client_work (length (tf_up T 0)) (client_granted [] [] (jt_client j))) else 0)"

definition server_left :: "transfer \<Rightarrow> joint \<Rightarrow> nat" where
  "server_left T j = (if jt_server_end j = None then Suc (server_work (joint_env T (jt_eof j)) (jt_server j)) else 0)"

definition wires_left :: "transfer \<Rightarrow> joint \<Rightarrow> nat" where
  "wires_left T j = 2 * (length (tf_down T 0) - jt_to_client j) + (unat (tf_size T) + 2) * (length (tf_up T 0) - jt_to_server j)
     + (if jt_eof j then 0 else 1)"

definition workers_left :: "transfer \<Rightarrow> joint \<Rightarrow> nat" where
  "workers_left T j = (\<Sum>k < tf_count T. unat (tf_size T) - length (jt_seen j k)) + 2 * (tf_count T - jt_pushed j)
     + (if jt_ended j then 0 else 1)"

definition joint_todo :: "transfer \<Rightarrow> joint \<Rightarrow> nat" where
  "joint_todo T j = client_left T j + server_left T j + wires_left T j + workers_left T j"

lemmas joint_left = joint_todo_def client_left_def server_left_def wires_left_def workers_left_def

lemma server_work_env [simp]: "server_work (joint_env T True) s = server_work (joint_env T False) s"
  by (simp add: server_work_def joint_env_def)

lemma accept_script [simp]:
  "sound_sched (map Accept gs) \<longleftrightarrow> list_all ((<) 0) gs" "wr_waits (map Accept gs) = 0" "granted (map Accept gs) = sum_list gs"
  "accepts (map Accept gs) = length gs"
  by (induction gs) auto

text \<open>Granting the loops something leaves them in order.\<close>

lemma client_live_granted:
  assumes "client_live room ahead bs items hashes rest s" and "list_all ((<) 0) gs"
  shows "client_live (length (snd (cl_tx s)), length (snd (cl_tx s)) + sum_list gs) ahead bs items hashes rest (client_granted ts gs s)"
  using assms by (auto simp: client_live_parts client_granted_def client_pending_def cong: option.case_cong)

lemma server_live_granted:
  assumes "server_live E room p ahead later ended rest s" and "list_all ((<) 0) gs" and "list_all ((<) 0) ds"
  shows "server_live E (length (snd (sl_tx s)), length (snd (sl_tx s)) + sum_list gs) p ahead later ended rest (server_granted gs ds s)"
proof -
  let ?t = "server_granted gs ds s"
  have "server_target ?t = server_target s" by (simp add: server_target_def server_granted_def cong: option.case_cong)
  with assms show ?thesis
    by (simp add: server_live_def server_receives_def server_stores_def server_hashes_def hash_pending_def server_granted_def
        cong: option.case_cong)
qed

lemma client_work_granted [simp]:
  "client_work m (client_granted [False] gs s) = client_work m (client_granted [] [] s)"
  "client_work m (client_granted [] [] (client_granted ts gs s)) = client_work m (client_granted [] [] s)"
  by (simp_all add: client_work_def client_granted_def ticks_def)

lemma server_work_granted [simp]: "server_work E (server_granted gs ds s) = server_work E s"
  by (simp add: server_work_def server_granted_def server_pending_def cong: option.case_cong)

section \<open>One iteration of a loop\<close>

text \<open>A tick of the timer only prints.\<close>

lemma client_select_tick:
  "\<exists>ps. client_select (client_granted [True] gs s) = (Continue, (client_granted [] gs s)\<lparr>cl_progress := ps\<rparr>)"
proof -
  let ?ps = "(cl_block_idx s, cl_end_block_idx s,
    if cl_end_block_idx s = 0 then 0 else cl_block_idx s * 100 div cl_end_block_idx s) # cl_progress s"
  have "client_select (client_granted [True] gs s) = (Continue, (client_granted [] gs s)\<lparr>cl_progress := ?ps\<rparr>)"
    by (cases s) (simp add: client_select_def client_arm_timer_def client_granted_def)
  then show ?thesis by blast
qed

lemma client_live_progress [simp]:
  "client_live room ahead bs items hashes rest (s\<lparr>cl_progress := ps\<rparr>) = client_live room ahead bs items hashes rest s"
  by (simp add: client_live_parts client_pending_def cong: option.case_cong)

lemma client_iteration:
  assumes live: "client_live room ahead bs items hashes rest s" and gs: "list_all ((<) 0) gs"
    and sel: "client_select (client_granted [t] gs s) = (c, s')"
    and room': "room' = (length (snd (cl_tx s)), length (snd (cl_tx s)) + sum_list gs)" and m: "m = client_total bs items hashes"
  shows "c = Break \<and> client_sent_all room' ahead bs items hashes s'
      \<or> (c = Continue \<or> c = Blocked) \<and> (\<exists>rest. client_live room' ahead bs items hashes rest s')
        \<and> client_work m (client_granted [] [] s') \<le> client_work m (client_granted [] [] s)"
    and "\<not> t \<Longrightarrow> cl_write_block s \<noteq> None \<and> gs \<noteq> [] \<or> bytes_of (cl_rx s) \<noteq> []
        \<or> cl_remote_hashes s \<noteq> [] \<and> \<not> cl_hash_comparison_over s \<Longrightarrow>
      c = Break \<or> client_work m (client_granted [] [] s') < client_work m (client_granted [] [] s)"
proof -
  let ?g = "client_granted [False] gs s"
  have live': "client_live room' ahead bs items hashes rest (client_granted ts gs s)" for ts
    unfolding room' by (rule client_live_granted [OF live gs])
  have le: "client_work m (client_granted [] [] s') \<le> client_work m s'"
    by (simp add: client_work_def client_granted_def ticks_def)
  show "c = Break \<and> client_sent_all room' ahead bs items hashes s'
      \<or> (c = Continue \<or> c = Blocked) \<and> (\<exists>rest. client_live room' ahead bs items hashes rest s')
        \<and> client_work m (client_granted [] [] s') \<le> client_work m (client_granted [] [] s)"
  proof (cases t)
    case True
    with client_select_tick [of gs s] sel obtain ps where "c = Continue" "s' = (client_granted [] gs s)\<lparr>cl_progress := ps\<rparr>" by auto
    moreover from this(2) have "client_work m (client_granted [] [] s') = client_work m (client_granted [] [] s)"
      by (simp add: client_work_def client_granted_def)
    ultimately show ?thesis using live' [of "[]"] by auto
  next
    case False
    then have "client_select ?g = (c, s')" using sel by simp
    from live_client.iteration_safe [OF _ this [unfolded client_select_def]] live' [of "[False]"] le
    show ?thesis unfolding m by fastforce
  qed
  assume "\<not> t" and ready: "cl_write_block s \<noteq> None \<and> gs \<noteq> [] \<or> bytes_of (cl_rx s) \<noteq> []
        \<or> cl_remote_hashes s \<noteq> [] \<and> \<not> cl_hash_comparison_over s"
  then have sel': "client_select ?g = (c, s')" using sel by simp
  have "cl_write_block ?g \<noteq> None \<and> 0 < accepts (fst (cl_tx ?g)) \<or> bytes_of (cl_rx ?g) \<noteq> []
      \<or> cl_remote_hashes ?g \<noteq> [] \<and> \<not> cl_hash_comparison_over ?g"
    using ready by (simp add: client_granted_def)
  then have "client_work m s' < client_work m ?g \<or> c = Break" using client_progress [OF live' _ sel'] unfolding m by blast
  with le show "c = Break \<or> client_work m (client_granted [] [] s') < client_work m (client_granted [] [] s)" by auto
qed

lemma server_iteration:
  assumes live: "server_live E room p ahead later ended rest s" and gs: "list_all ((<) 0) gs" "list_all ((<) 0) ds"
    and sel: "server_select (server_granted gs ds s) = (c, s')"
    and room': "room' = (length (snd (sl_tx s)), length (snd (sl_tx s)) + sum_list gs)"
  shows "c = Break \<and> server_stored_all E room' s'
      \<or> (c = Continue \<or> c = Blocked) \<and> (\<exists>rest. server_live E room' p ahead later ended rest s') \<and> server_work E s' \<le> server_work E s"
    and "sl_write_disk s \<noteq> None \<and> ds \<noteq> [] \<or> sl_write_disk s = None \<and> bytes_of (sl_rx s) \<noteq> []
        \<or> sl_write_hash s \<noteq> None \<and> gs \<noteq> [] \<or> sl_write_hash s = None \<and> hs_items (sl_hasher s) \<noteq> [] \<Longrightarrow>
      c = Break \<or> server_work E s' < server_work E s"
    and "sl_write_disk s = None \<Longrightarrow> bytes_of (sl_rx s) = [] \<Longrightarrow> le_eof E \<Longrightarrow> c = Break"
proof -
  let ?g = "server_granted gs ds s"
  have live': "server_live E room' p ahead later ended rest ?g" unfolding room' by (rule server_live_granted [OF live gs])
  from live_server.iteration_safe [OF _ sel [unfolded server_select_def]] live'
  show "c = Break \<and> server_stored_all E room' s'
      \<or> (c = Continue \<or> c = Blocked) \<and> (\<exists>rest. server_live E room' p ahead later ended rest s') \<and> server_work E s' \<le> server_work E s"
    by fastforce
  have fields: "sl_write_disk ?g = sl_write_disk s" "sl_rx ?g = sl_rx s" "sl_write_hash ?g = sl_write_hash s" "sl_hasher ?g = sl_hasher s"
    "accepts (fst (sl_tx ?g)) = length gs" "accepts (sl_disk_sched ?g) = length ds" by (simp_all add: server_granted_def)
  note P = server_progress [OF live' _ sel, unfolded fields]
  show "sl_write_disk s \<noteq> None \<and> ds \<noteq> [] \<or> sl_write_disk s = None \<and> bytes_of (sl_rx s) \<noteq> []
        \<or> sl_write_hash s \<noteq> None \<and> gs \<noteq> [] \<or> sl_write_hash s = None \<and> hs_items (sl_hasher s) \<noteq> [] \<Longrightarrow>
      c = Break \<or> server_work E s' < server_work E s" using P by auto
  have "le_eof E \<Longrightarrow> end_of (sl_rx s) = AtEof" using live by (simp add: server_live_def server_receives_def)
  with server_leaves [OF live' _ _ _ sel, unfolded fields]
  show "sl_write_disk s = None \<Longrightarrow> bytes_of (sl_rx s) = [] \<Longrightarrow> le_eof E \<Longrightarrow> c = Break" by blast
qed

end
