(* ===== verification/Joint_Steps.thy ===== *)
theory Joint_Steps
  imports Joint_System
begin

text \<open>
  Every step of the joint system keeps the invariant and never adds to what is left to do; the lemmas also say which
  steps bring the session closer to its end. The heart is \<open>compared_behind\<close>: the client compares a block only after the
  server has hashed its own, so that a block of the destination is never overwritten before it was read.
\<close>

section \<open>The steps\<close>

text \<open>Which parts of the state the parts of the invariant depend on.\<close>

lemma joint_frame:
  "jt_client j' = jt_client j \<Longrightarrow> jt_client_end j' = jt_client_end j \<Longrightarrow> jt_to_client j' = jt_to_client j \<Longrightarrow> client_ok T j' = client_ok T j"
  "jt_server j' = jt_server j \<Longrightarrow> jt_server_end j' = jt_server_end j \<Longrightarrow> jt_to_server j' = jt_to_server j \<Longrightarrow> jt_eof j' = jt_eof j \<Longrightarrow>
     jt_pushed j' = jt_pushed j \<Longrightarrow> jt_ended j' = jt_ended j \<Longrightarrow> server_ok T j' = server_ok T j"
  "jt_pushed j' = jt_pushed j \<Longrightarrow> jt_ended j' = jt_ended j \<Longrightarrow> jt_seen j' = jt_seen j \<Longrightarrow> workers_ok T j' = workers_ok T j"
  by (simp_all add: client_ok_def server_ok_def workers_ok_def Let_def cong: option.case_cong)

lemma joint_client:
  assumes ok: "tf_ok T" and inv: "joint_inv T j" and run: "jt_client_end j = None" and gs: "list_all ((<) 0) gs"
  shows "joint_inv T (client_turn t gs j)" and "joint_todo T (client_turn t gs j) \<le> joint_todo T j"
    and "\<not> t \<Longrightarrow> cl_write_block (jt_client j) \<noteq> None \<and> gs \<noteq> [] \<or> bytes_of (cl_rx (jt_client j)) \<noteq> []
        \<or> cl_remote_hashes (jt_client j) \<noteq> [] \<and> \<not> cl_hash_comparison_over (jt_client j) \<Longrightarrow>
      joint_todo T (client_turn t gs j) < joint_todo T j"
proof -
  let ?s = "jt_client j" and ?ahead = "drop (jt_to_client j) (tf_down T 0)"
  let ?room = "(length (snd (cl_tx ?s)), length (snd (cl_tx ?s)) + sum_list gs)"
  obtain c s' where sel: "client_select (client_granted [t] gs ?s) = (c, s')" by fastforce
  have j': "client_turn t gs j = j\<lparr>jt_client := client_granted [] [] s', jt_client_end := loop_result c\<rparr>" (is "_ = ?j")
    using sel by (simp add: client_turn_def)
  from inv run obtain rest where live: "client_live (length (snd (cl_tx ?s)), length (snd (cl_tx ?s))) ?ahead
      (tf_size T) (tf_items T) (tf_hashes T) rest ?s"
    by (auto simp: joint_inv_def client_ok_def Let_def)
  have m: "length (tf_up T 0) = client_total (tf_size T) (tf_items T) (tf_hashes T)" using client_out_tf [OF ok] by simp
  note I = client_iteration [OF live gs sel refl m]
  have tx: "snd (cl_tx (client_granted [] [] s')) = snd (cl_tx s')" by (simp add: client_granted_def)
  have live': "\<exists>rest. client_live (length (snd (cl_tx s')), length (snd (cl_tx s'))) ?ahead (tf_size T) (tf_items T) (tf_hashes T) rest
      (client_granted [] [] s')"
    if "client_live ?room ?ahead (tf_size T) (tf_items T) (tf_hashes T) rest s'" for rest
    using client_live_granted [OF that, of "[]" "[]"] by auto
  have low: "length (snd (cl_tx ?s)) \<le> length (snd (cl_tx s'))"
    using I(1) by (auto simp: client_live_def client_writes_def client_sent_all_def)
  have "client_ok T ?j"
    using I(1) live' by (auto simp: client_ok_def loop_result_def client_sent_all_def tx client_granted_def)
  moreover have "server_ok T ?j" "workers_ok T ?j" "wires_ok T ?j"
    using inv run low tx joint_frame(2,3) [of ?j j] by (auto simp: joint_inv_def wires_ok_def)
  ultimately show "joint_inv T (client_turn t gs j)" unfolding j' by (simp add: joint_inv_def)
  show "joint_todo T (client_turn t gs j) \<le> joint_todo T j"
    using I(1) run unfolding j' by (auto simp: joint_left loop_result_def client_granted_def)
  assume "\<not> t" "cl_write_block (jt_client j) \<noteq> None \<and> gs \<noteq> [] \<or> bytes_of (cl_rx (jt_client j)) \<noteq> []
        \<or> cl_remote_hashes (jt_client j) \<noteq> [] \<and> \<not> cl_hash_comparison_over (jt_client j)"
  from I(2) [OF this] I(1) run
  show "joint_todo T (client_turn t gs j) < joint_todo T j"
    unfolding j' by (auto simp: joint_left loop_result_def client_granted_def)
qed

lemma joint_server:
  assumes ok: "tf_ok T" and inv: "joint_inv T j" and run: "jt_server_end j = None" and gs: "list_all ((<) 0) gs" "list_all ((<) 0) ds"
  shows "joint_inv T (server_turn gs ds j)" and "joint_todo T (server_turn gs ds j) \<le> joint_todo T j"
    and "sl_write_disk (jt_server j) \<noteq> None \<and> ds \<noteq> [] \<or> sl_write_disk (jt_server j) = None \<and> bytes_of (sl_rx (jt_server j)) \<noteq> []
        \<or> sl_write_hash (jt_server j) \<noteq> None \<and> gs \<noteq> [] \<or> sl_write_hash (jt_server j) = None \<and> hs_items (sl_hasher (jt_server j)) \<noteq> []
        \<or> sl_write_disk (jt_server j) = None \<and> bytes_of (sl_rx (jt_server j)) = [] \<and> jt_eof j \<Longrightarrow>
      joint_todo T (server_turn gs ds j) < joint_todo T j"
proof -
  let ?s = "jt_server j" and ?E = "joint_env T (jt_eof j)" and ?ahead = "drop (jt_to_server j) (tf_up T 0)" and ?p = "jt_pushed j"
  let ?later = "tf_down T ?p"
  let ?room = "(length (snd (sl_tx ?s)), length (snd (sl_tx ?s)) + sum_list gs)"
  obtain c s' where sel: "server_select (server_granted gs ds ?s) = (c, s')" by fastforce
  have j': "server_turn gs ds j = j\<lparr>jt_server := server_granted [] [] s', jt_server_end := loop_result c\<rparr>" (is "_ = ?j")
    using sel by (simp add: server_turn_def)
  from inv run obtain rest where live: "server_live ?E (length (snd (sl_tx ?s)), length (snd (sl_tx ?s))) ?p ?ahead ?later
      (jt_ended j) rest ?s"
    by (auto simp: joint_inv_def server_ok_def Let_def)
  note I = server_iteration [OF live gs sel refl]
  have tx: "snd (sl_tx (server_granted [] [] s')) = snd (sl_tx s')" "sl_file (server_granted [] [] s') = sl_file s'"
    by (simp_all add: server_granted_def)
  have live': "\<exists>rest. server_live ?E (length (snd (sl_tx s')), length (snd (sl_tx s'))) ?p ?ahead ?later (jt_ended j) rest
      (server_granted [] [] s')"
    if "server_live ?E ?room ?p ?ahead ?later (jt_ended j) rest s'" for rest
    using server_live_granted [OF that, of "[]" "[]"] by auto
  have low: "length (snd (sl_tx ?s)) \<le> length (snd (sl_tx s'))"
    using I(1) by (auto simp: server_live_def server_hashes_def server_stored_all_def)
  have "server_ok T ?j"
    using I(1) live' by (auto simp: server_ok_def loop_result_def server_stored_all_def tx)
  moreover have "client_ok T ?j" "workers_ok T ?j" "wires_ok T ?j"
    using inv low tx joint_frame(1,3) [of ?j j] by (auto simp: joint_inv_def wires_ok_def)
  ultimately show "joint_inv T (server_turn gs ds j)" unfolding j' by (simp add: joint_inv_def)
  show "joint_todo T (server_turn gs ds j) \<le> joint_todo T j"
    using I(1) run unfolding j' by (auto simp: joint_left loop_result_def)
  assume "sl_write_disk (jt_server j) \<noteq> None \<and> ds \<noteq> [] \<or> sl_write_disk (jt_server j) = None \<and> bytes_of (sl_rx (jt_server j)) \<noteq> []
        \<or> sl_write_hash (jt_server j) \<noteq> None \<and> gs \<noteq> [] \<or> sl_write_hash (jt_server j) = None \<and> hs_items (sl_hasher (jt_server j)) \<noteq> []
        \<or> sl_write_disk (jt_server j) = None \<and> bytes_of (sl_rx (jt_server j)) = [] \<and> jt_eof j"
  then have "c = Break \<or> server_work ?E s' < server_work ?E ?s" using I(2,3) by (auto simp: joint_env_def)
  with I(1) run show "joint_todo T (server_turn gs ds j) < joint_todo T j"
    unfolding j' by (auto simp: joint_left loop_result_def)
qed

text \<open>Bytes that arrive come at the end of the stream.\<close>

lemma arrives:
  assumes "end_of es = StillOpen"
  shows "bytes_of (es @ [Chunk bs]) = bytes_of es @ bs" "end_of (es @ [Chunk bs]) = StillOpen" "waits (es @ [Chunk bs]) = waits es"
    "bytes_of (es @ [Eof]) = bytes_of es" "end_of (es @ [Eof]) = AtEof" "waits (es @ [Eof]) = waits es"
  using assms by (induction es rule: bytes_of.induct) auto

lemma in_transit:
  assumes "prefix out msgs" and "n + k \<le> length out"
  shows "take k (drop n out) @ drop (n + k) msgs = drop n msgs"
proof -
  from assms(1) obtain more where "msgs = out @ more" by (auto simp: prefix_def)
  with assms(2) have "drop n msgs = drop n out @ more" "drop (n + k) msgs = drop (k + n) out @ more" by (simp_all add: add.commute)
  then show ?thesis using append_take_drop_id [of k "drop n out"] by (metis append_assoc drop_drop)
qed

lemma joint_roles:
  assumes inv: "joint_inv T j"
  shows "jt_server_end j \<noteq> None \<Longrightarrow> jt_eof j" "jt_eof j \<Longrightarrow> jt_client_end j \<noteq> None"
    "jt_client_end j \<noteq> None \<Longrightarrow> jt_client_end j = Some (Ok ()) \<and> snd (cl_tx (jt_client j)) = client_out (tf_size T) (tf_items T) (tf_hashes T) 0
      \<and> drop (jt_to_client j) (tf_down T 0) = []"
    "jt_server_end j \<noteq> None \<Longrightarrow> jt_server_end j = Some (Ok ()) \<and> sl_file (jt_server j) = le_final (joint_env T (jt_eof j))"
  using inv
  by (auto simp: joint_inv_def server_ok_def client_ok_def wires_ok_def Let_def server_stored_all_def client_sent_all_def joint_env_def
      split: option.splits)

lemma joint_down:
  assumes inv: "joint_inv T j" and n: "0 < n" "jt_to_client j + n \<le> length (snd (sl_tx (jt_server j)))"
  shows "joint_inv T (deliver_to_client n j)" and "joint_todo T (deliver_to_client n j) \<le> joint_todo T j"
    and "jt_client_end j = None \<Longrightarrow> joint_todo T (deliver_to_client n j) < joint_todo T j"
proof -
  let ?s = "jt_client j" and ?j = "deliver_to_client n j" and ?out = "snd (sl_tx (jt_server j))"
  have rest: "server_ok T ?j" "workers_ok T ?j" "wires_ok T ?j"
    using inv n joint_frame(2,3) [of ?j j] by (auto simp: joint_inv_def wires_ok_def deliver_to_client_def)
  consider (gone) "jt_client_end j = Some (Ok ())" "drop (jt_to_client j) (tf_down T 0) = []" | (here) "jt_client_end j = None"
    using joint_roles(3) [OF inv] by blast
  then have "joint_inv T ?j \<and> joint_todo T ?j \<le> joint_todo T j \<and> (jt_client_end j = None \<longrightarrow> joint_todo T ?j < joint_todo T j)"
  proof cases
    case gone
    then have "client_ok T ?j"
      using inv by (auto simp: joint_inv_def client_ok_def client_sent_all_def deliver_to_client_def Let_def)
    moreover have "joint_todo T ?j \<le> joint_todo T j" using gone by (simp add: joint_left deliver_to_client_def)
    ultimately show ?thesis using rest gone by (simp add: joint_inv_def)
  next
    case here
    with inv obtain rs where live: "client_live (length (snd (cl_tx ?s)), length (snd (cl_tx ?s))) (drop (jt_to_client j) (tf_down T 0))
        (tf_size T) (tf_items T) (tf_hashes T) rs ?s"
      by (auto simp: joint_inv_def client_ok_def Let_def)
    have "jt_server_end j = None" using here joint_roles(1,2) [OF inv] by blast
    with inv have "prefix ?out (tf_down T 0)"
      by (auto simp: joint_inv_def server_ok_def Let_def server_live_def server_hashes_def joint_env_def prefix_def intro: sym)
    note transit = in_transit [OF this n(2)]
    let ?t = "?s\<lparr>cl_rx := cl_rx ?s @ [Chunk (take n (drop (jt_to_client j) ?out))]\<rparr>"
    have "end_of (cl_rx ?s) = StillOpen" using live by (simp add: client_live_def client_listens_def)
    note arr = arrives [OF this]
    have "client_live (length (snd (cl_tx ?s)), length (snd (cl_tx ?s))) (drop (jt_to_client j + n) (tf_down T 0))
        (tf_size T) (tf_items T) (tf_hashes T) rs ?t"
      using live arr transit by (simp add: client_live_def client_listens_def client_counts_def)
    then have "client_ok T ?j" using here by (auto simp: client_ok_def deliver_to_client_def Let_def)
    moreover have "jt_to_client j + n \<le> length (tf_down T 0)"
      using n(2) prefix_length_le [OF \<open>prefix ?out (tf_down T 0)\<close>] by simp
    then have "n + 2 * (length (tf_down T 0) - (jt_to_client j + n)) < 2 * (length (tf_down T 0) - jt_to_client j)"
      using n(1) by linarith
    then have "joint_todo T ?j < joint_todo T j"
      using here n arr by (simp add: joint_left deliver_to_client_def client_work_def client_granted_def)
    ultimately show ?thesis using rest by (simp add: joint_inv_def)
  qed
  then show "joint_inv T ?j" "joint_todo T ?j \<le> joint_todo T j" "jt_client_end j = None \<Longrightarrow> joint_todo T ?j < joint_todo T j"
    by simp_all
qed

lemma hs_items_push:
  assumes "evs = hs_script (hs_items evs) False"
  shows "hs_items (evs @ [HsItem i h d]) = hs_items evs @ [(i, h, d)]" "hs_items (evs @ [HsEnd]) = hs_items evs"
  using hs_items_script hs_script_push [of "hs_items evs"] assms by metis+

text \<open>The server's invariant when bytes arrive, when a block is pushed, when the hashing is over.\<close>

lemma server_live_arrives:
  assumes "server_live E room p ahead later ended rest s" and "\<not> le_eof E" and "bs @ ahead' = ahead"
    and "arrived_inside (unat (le_block_size E)) (le_dst E) p ahead' rest"
  shows "server_live E room p ahead' later ended rest (s\<lparr>sl_rx := sl_rx s @ [Chunk bs]\<rparr>)"
proof -
  let ?t = "s\<lparr>sl_rx := sl_rx s @ [Chunk bs]\<rparr>"
  have "end_of (sl_rx s) = StillOpen" using assms(1,2) by (simp add: server_live_def server_receives_def)
  note arr = arrives [OF this]
  have "server_receives E ahead' rest ?t" using assms(1,2,3) arr by (auto simp: server_live_def server_receives_def)
  then show ?thesis
    using assms(1,4) server_stores_frame [of ?t s] server_hashes_frame [of ?t s] by (simp add: server_live_def)
qed

lemma server_live_closes:
  assumes "server_live E room p [] later ended rest s" and "\<not> le_eof E"
  shows "server_live (E\<lparr>le_eof := True\<rparr>) room p [] later ended rest (s\<lparr>sl_rx := sl_rx s @ [Eof]\<rparr>)"
proof -
  let ?t = "s\<lparr>sl_rx := sl_rx s @ [Eof]\<rparr>"
  have "end_of (sl_rx s) = StillOpen" using assms(1,2) by (simp add: server_live_def server_receives_def)
  note arr = arrives [OF this]
  have "server_receives (E\<lparr>le_eof := True\<rparr>) [] rest ?t" using assms(1,2) arr by (auto simp: server_live_def server_receives_def)
  then show ?thesis
    using assms(1) server_stores_frame [of ?t s] server_hashes_frame [of ?t s] by (simp add: server_live_def)
qed

lemma server_live_pushes:
  assumes "server_live E room p ahead (string_message h @ later) False rest s"
  shows "server_live E room (Suc p) ahead later False rest (s\<lparr>sl_hasher := sl_hasher s @ [HsItem i h d]\<rparr>)"
proof -
  let ?t = "s\<lparr>sl_hasher := sl_hasher s @ [HsItem i h d]\<rparr>" and ?B = "unat (le_block_size E)"
  have L: "server_receives E ahead rest s" "arrived_inside ?B (le_dst E) p ahead rest"
    "server_stores ?B (le_dst E) p (le_final E) rest s" "server_hashes room (le_msgs E) (string_message h @ later) False s"
    using assms by (simp_all add: server_live_def)
  have mono: "piece_ok B dst p x \<Longrightarrow> piece_ok B dst (Suc p) x" for B dst x
    using piece_ok_mono [of B dst p x "Suc p"] by simp
  have "server_receives E ahead rest ?t" using L(1) server_receives_frame [of ?t s] by simp
  moreover have "arrived_inside ?B (le_dst E) (Suc p) ahead rest" using L(2) mono unfolding arrived_inside_def by blast
  moreover have "server_stores ?B (le_dst E) (Suc p) (le_final E) rest s"
    using L(3) mono unfolding server_stores_def by (auto split: option.splits)
  then have "server_stores ?B (le_dst E) (Suc p) (le_final E) rest ?t" using server_stores_frame [of ?t s] by simp
  note parts = calculation this
  have script: "sl_hasher s = hs_script (hs_items (sl_hasher s)) False" using L(4) by (simp add: server_hashes_def)
  then have "sl_hasher ?t = hs_script (hs_items (sl_hasher s) @ [(i, h, d)]) False" by simp (metis hs_script_push(1))
  moreover have "hs_items (sl_hasher ?t) = hs_items (sl_hasher s) @ [(i, h, d)]" using script by (simp add: hs_items_push)
  ultimately have "server_hashes room (le_msgs E) later False ?t"
    using L(4) unfolding server_hashes_def by (simp add: hash_pending_def hash_messages_def)
  with parts show ?thesis by (simp add: server_live_def)
qed

lemma server_live_finishes:
  assumes "server_live E room p ahead later False rest s"
  shows "server_live E room p ahead later True rest (s\<lparr>sl_hasher := sl_hasher s @ [HsEnd]\<rparr>)"
proof -
  let ?t = "s\<lparr>sl_hasher := sl_hasher s @ [HsEnd]\<rparr>"
  have H: "server_hashes room (le_msgs E) later False s" using assms by (simp add: server_live_def)
  then have script: "sl_hasher s = hs_script (hs_items (sl_hasher s)) False" by (simp add: server_hashes_def)
  then have finish: "sl_hasher s @ [HsEnd] = hs_script (hs_items (sl_hasher s)) True" by (metis hs_script_push(2))
  have "server_hashes room (le_msgs E) later True ?t"
    using H unfolding server_hashes_def by (simp add: finish hash_pending_def)
  then show ?thesis
    using assms server_stores_frame [of ?t s] server_receives_frame [of ?t s] by (simp add: server_live_def)
qed

lemma server_running:
  assumes "joint_inv T j" and "jt_server_end j = None"
  obtains rest where "server_live (joint_env T (jt_eof j)) (length (snd (sl_tx (jt_server j))), length (snd (sl_tx (jt_server j))))
      (jt_pushed j) (drop (jt_to_server j) (tf_up T 0)) (tf_down T (jt_pushed j)) (jt_ended j) rest (jt_server j)"
  using assms by (auto simp: joint_inv_def server_ok_def Let_def)

lemma client_running:
  assumes "joint_inv T j" and "jt_client_end j = None"
  obtains rest where "client_live (length (snd (cl_tx (jt_client j))), length (snd (cl_tx (jt_client j))))
      (drop (jt_to_client j) (tf_down T 0)) (tf_size T) (tf_items T) (tf_hashes T) rest (jt_client j)"
  using assms by (auto simp: joint_inv_def client_ok_def Let_def)

text \<open>The hashes the client has not got are no fewer than those that are not pushed.\<close>

lemma hashes_behind:
  assumes inv: "joint_inv T j" and "jt_server_end j = None"
  shows "length (tf_down T (jt_pushed j)) \<le> length (drop (jt_to_client j) (tf_down T 0))"
proof -
  from server_running [OF assms] have "snd (sl_tx (jt_server j)) @ hash_pending (jt_server j)
      @ hash_messages (hs_items (sl_hasher (jt_server j))) @ tf_down T (jt_pushed j) = tf_down T 0" 
    by (auto simp: server_live_def server_hashes_def joint_env_def)
  from arg_cong [OF this, of length]
  have "length (snd (sl_tx (jt_server j))) + length (tf_down T (jt_pushed j)) \<le> length (tf_down T 0)" by simp
  moreover have "jt_to_client j \<le> length (snd (sl_tx (jt_server j)))" using inv by (simp add: joint_inv_def wires_ok_def)
  ultimately show ?thesis by simp
qed

text \<open>The client does not get ahead of the hashing.\<close>

lemma compared_behind:
  assumes ok: "tf_ok T" and inv: "joint_inv T j" and run: "jt_server_end j = None"
  obtains k where "k \<le> jt_pushed j" "length (tf_up T k) + length (snd (cl_tx (jt_client j))) \<le> length (tf_up T 0)"
proof (cases "jt_client_end j")
  case (Some r)
  note D = joint_roles(3) [OF inv] client_out_tf [OF ok, of 0] hashes_behind [OF inv run]
  have "\<not> jt_pushed j < tf_count T"
  proof
    assume "jt_pushed j < tf_count T"
    from tf_down_less [OF this le_refl] D Some show False by simp
  qed
  moreover have "tf_up T (tf_count T) = []" by (simp add: tf_up_def tf_blocks_def sent_blocks_def)
  ultimately show thesis using D Some by (intro that [of "tf_count T"]) auto
next
  case None
  with inv obtain rest where live: "client_live (length (snd (cl_tx (jt_client j))), length (snd (cl_tx (jt_client j))))
      (drop (jt_to_client j) (tf_down T 0)) (tf_size T) (tf_items T) (tf_hashes T) rest (jt_client j)"
    by (rule client_running)
  let ?s = "jt_client j" and ?k = "unat (cl_block_idx (jt_client j))" and ?r = "length (cl_remote_hashes (jt_client j))"
  have L: "cl_remote_hashes ?s @ rest = drop ?k (tf_hashes T)"
    "rrs_got (cl_read_string ?s) @ bytes_of (cl_rx ?s) @ drop (jt_to_client j) (tf_down T 0) = concat (map string_message rest)"
    "snd (cl_tx ?s) @ client_pending ?s @ tf_up T ?k = tf_up T 0" "?k \<le> tf_count T"
    using live client_out_tf [OF ok] length_tf(1) [of T] by (simp_all add: client_live_def client_listens_def client_counts_def)
  have "drop (?r + ?k) (tf_hashes T) = rest" using arg_cong [OF L(1), of "drop ?r"] by simp
  then have "concat (map string_message rest) = tf_down T (?r + ?k)" by (simp add: tf_down_def)
  then have "length (tf_down T (jt_pushed j)) \<le> length (tf_down T (?r + ?k))"
    using arg_cong [OF L(2), of length] hashes_behind [OF inv run] by simp
  moreover have "?r + ?k \<le> tf_count T" using arg_cong [OF L(1), of length] L(4) length_tf(1) [of T] by simp
  ultimately have "?r + ?k \<le> jt_pushed j" using tf_down_less [of "jt_pushed j" "?r + ?k" T] by linarith
  moreover have "length (tf_up T ?k) + length (snd (cl_tx ?s)) \<le> length (tf_up T 0)" using arg_cong [OF L(3), of length] by simp
  ultimately show thesis by (intro that [of ?k]) simp_all
qed

lemma client_output:
  assumes ok: "tf_ok T" and inv: "joint_inv T j"
  shows "prefix (snd (cl_tx (jt_client j))) (tf_up T 0)"
proof (cases "jt_client_end j")
  case None
  with inv client_out_tf [OF ok] show ?thesis
    by (auto simp: joint_inv_def client_ok_def Let_def client_live_def prefix_def intro: sym)
next
  case (Some r)
  with joint_roles(3) [OF inv] client_out_tf [OF ok, of 0] show ?thesis by simp
qed

text \<open>Bytes can only arrive before the client has closed the connection, and what arrives completely lies behind the hashing.\<close>

lemma arrival_in_order:
  assumes ok: "tf_ok T" and inv: "joint_inv T j" and run: "jt_server_end j = None"
    and n: "0 < n" "jt_to_server j + n \<le> length (snd (cl_tx (jt_client j)))"
    and live: "server_live (joint_env T (jt_eof j)) room (jt_pushed j) (drop (jt_to_server j) (tf_up T 0)) later ended rest (jt_server j)"
  shows "\<not> jt_eof j"
    and "arrived_inside (unat (tf_size T)) (tf_dst T) (jt_pushed j) (drop (jt_to_server j + n) (tf_up T 0)) rest"
proof -
  have le: "jt_to_server j + n \<le> length (tf_up T 0)" using n(2) prefix_length_le [OF client_output [OF ok inv]] by simp
  show "\<not> jt_eof j"
  proof
    assume "jt_eof j"
    then have "drop (jt_to_server j) (tf_up T 0) = []" using live by (simp add: server_live_def server_receives_def joint_env_def)
    with n(1) le show False by simp
  qed
  have suf: "suffix rest (tf_blocks T 0)" using live by (simp add: server_live_def server_receives_def joint_env_def)
  from compared_behind [OF ok inv run] obtain k where
    "k \<le> jt_pushed j" "length (tf_up T k) + length (snd (cl_tx (jt_client j))) \<le> length (tf_up T 0)" by blast
  with arrived_behind [OF ok suf, of k "drop (jt_to_server j + n) (tf_up T 0)" "jt_pushed j"] n(2)
  show "arrived_inside (unat (tf_size T)) (tf_dst T) (jt_pushed j) (drop (jt_to_server j + n) (tf_up T 0)) rest" by simp
qed

lemma deliver_up_todo:
  assumes n: "0 < n" "jt_to_server j + n \<le> length (snd (cl_tx (jt_client j)))" "jt_to_server j + n \<le> length (tf_up T 0)"
  shows "jt_server_end j \<noteq> None \<Longrightarrow> joint_todo T (deliver_to_server n j) \<le> joint_todo T j"
    and "jt_server_end j = None \<Longrightarrow> end_of (sl_rx (jt_server j)) = StillOpen \<Longrightarrow>
      joint_todo T (deliver_to_server n j) < joint_todo T j"
proof -
  let ?s = "jt_server j" and ?j = "deliver_to_server n j" and ?w = "unat (tf_size T) + 2"
  let ?t = "?s\<lparr>sl_rx := sl_rx ?s @ [Chunk (take n (drop (jt_to_server j) (snd (cl_tx (jt_client j)))))]\<rparr>"
  have "length (tf_up T 0) - jt_to_server j = (length (tf_up T 0) - (jt_to_server j + n)) + n" using n(3) by simp
  then have "?w * (length (tf_up T 0) - jt_to_server j) = ?w * (length (tf_up T 0) - (jt_to_server j + n)) + ?w * n"
    by (simp only: distrib_left)
  then have wires: "wires_left T j = wires_left T ?j + ?w * n"
    by (simp only: wires_left_def deliver_to_server_def) simp
  have others: "client_left T ?j = client_left T j" "workers_left T ?j = workers_left T j"
    by (simp_all add: client_left_def workers_left_def deliver_to_server_def)
  show "joint_todo T ?j \<le> joint_todo T j" if "jt_server_end j \<noteq> None"
  proof -
    have "server_left T ?j = 0" "server_left T j = 0" using that by (auto simp: server_left_def deliver_to_server_def)
    with wires others show ?thesis by (simp add: joint_todo_def)
  qed
  show "joint_todo T ?j < joint_todo T j" if "jt_server_end j = None" "end_of (sl_rx ?s) = StillOpen"
  proof -
    have "server_work (joint_env T (jt_eof j)) ?t = server_work (joint_env T (jt_eof j)) ?s + Suc (unat (tf_size T)) * n"
      using that(2) n(2) server_pending_frame [of ?t ?s] by (simp add: server_work_def arrives joint_env_def algebra_simps)
    then have "server_left T ?j = server_left T j + Suc (unat (tf_size T)) * n"
      using that(1) by (simp only: server_left_def deliver_to_server_def) simp
    with wires others n(1) show ?thesis by (simp add: joint_todo_def)
  qed
qed

lemma joint_up:
  assumes ok: "tf_ok T" and inv: "joint_inv T j" and n: "0 < n" "jt_to_server j + n \<le> length (snd (cl_tx (jt_client j)))"
  shows "joint_inv T (deliver_to_server n j)" and "joint_todo T (deliver_to_server n j) \<le> joint_todo T j"
    and "jt_server_end j = None \<Longrightarrow> joint_todo T (deliver_to_server n j) < joint_todo T j"
proof -
  let ?s = "jt_server j" and ?j = "deliver_to_server n j" and ?E = "joint_env T (jt_eof j)"
  have others: "client_ok T ?j" "workers_ok T ?j" "wires_ok T ?j"
    using inv n joint_frame(1,3) [of ?j j] by (auto simp: joint_inv_def wires_ok_def deliver_to_server_def)
  note pre = client_output [OF ok inv]
  have "jt_to_server j + n \<le> length (tf_up T 0)" using n(2) prefix_length_le [OF pre] by simp
  note todo = deliver_up_todo [OF n this]
  have "joint_inv T ?j \<and> joint_todo T ?j \<le> joint_todo T j \<and> (jt_server_end j = None \<longrightarrow> joint_todo T ?j < joint_todo T j)"
  proof (cases "jt_server_end j")
    case (Some r)
    then have "server_ok T ?j"
      using inv by (auto simp: joint_inv_def server_ok_def Let_def deliver_to_server_def server_stored_all_def)
    then show ?thesis using Some others todo(1) by (simp add: joint_inv_def)
  next
    case None
    with inv obtain rest where live: "server_live ?E (length (snd (sl_tx ?s)), length (snd (sl_tx ?s))) (jt_pushed j)
        (drop (jt_to_server j) (tf_up T 0)) (tf_down T (jt_pushed j)) (jt_ended j) rest ?s" by (rule server_running)
    note A = arrival_in_order [OF ok inv None n live]
    have E: "\<not> le_eof ?E" "le_block_size ?E = tf_size T" "le_dst ?E = tf_dst T" using A(1) by (simp_all add: joint_env_def)
    from server_live_arrives [OF live E(1) in_transit [OF pre n(2)]] A(2)
    have "server_ok T ?j" using None E by (auto simp: server_ok_def deliver_to_server_def Let_def)
    moreover have "end_of (sl_rx ?s) = StillOpen" using live E(1) by (simp add: server_live_def server_receives_def)
    ultimately show ?thesis using None others todo(2) by (simp add: joint_inv_def)
  qed
  then show "joint_inv T ?j" "joint_todo T ?j \<le> joint_todo T j" "jt_server_end j = None \<Longrightarrow> joint_todo T ?j < joint_todo T j"
    by simp_all
qed

lemma joint_close:
  assumes ok: "tf_ok T" and inv: "joint_inv T j" and over: "jt_client_end j \<noteq> None" "jt_to_server j = length (snd (cl_tx (jt_client j)))"
    and "\<not> jt_eof j"
  shows "joint_inv T (client_closes j)" and "joint_todo T (client_closes j) < joint_todo T j"
proof -
  let ?s = "jt_server j" and ?j = "client_closes j"
  have run: "jt_server_end j = None" using joint_roles(1) [OF inv] assms(5) by blast
  with inv obtain rest where live: "server_live (joint_env T (jt_eof j)) (length (snd (sl_tx ?s)), length (snd (sl_tx ?s))) (jt_pushed j)
      (drop (jt_to_server j) (tf_up T 0)) (tf_down T (jt_pushed j)) (jt_ended j) rest ?s" by (rule server_running)
  have "drop (jt_to_server j) (tf_up T 0) = []" using joint_roles(3) [OF inv over(1)] client_out_tf [OF ok, of 0] over(2) by simp
  moreover have "(joint_env T False)\<lparr>le_eof := True\<rparr> = joint_env T True" by (simp add: joint_env_def)
  moreover have "\<not> le_eof (joint_env T False)" by (simp add: joint_env_def)
  ultimately have "server_live (joint_env T True) (length (snd (sl_tx ?s)), length (snd (sl_tx ?s))) (jt_pushed j)
      (drop (jt_to_server j) (tf_up T 0)) (tf_down T (jt_pushed j)) (jt_ended j) rest (?s\<lparr>sl_rx := sl_rx ?s @ [Eof]\<rparr>)"
    using server_live_closes [of "joint_env T False"] live assms(5) by simp
  then have "server_ok T ?j" using run by (auto simp: server_ok_def client_closes_def Let_def)
  moreover have "client_ok T ?j" "workers_ok T ?j" "wires_ok T ?j"
    using inv over joint_frame(1,3) [of ?j j] by (auto simp: joint_inv_def wires_ok_def client_closes_def)
  ultimately show "joint_inv T ?j" by (simp add: joint_inv_def)
  have "end_of (sl_rx ?s) = StillOpen" using live assms(5) by (simp add: server_live_def server_receives_def joint_env_def)
  then have "server_work (joint_env T True) (?s\<lparr>sl_rx := sl_rx ?s @ [Eof]\<rparr>) = server_work (joint_env T False) ?s"
    using server_pending_frame [of "?s\<lparr>sl_rx := sl_rx ?s @ [Eof]\<rparr>" ?s] by (simp add: server_work_def arrives joint_env_def)
  then show "joint_todo T ?j < joint_todo T j" using run assms(5) by (simp add: joint_left client_closes_def)
qed

lemma joint_reads:
  assumes inv: "joint_inv T j" and run: "jt_server_end j = None" and k: "k < tf_count T"
    and less: "length (jt_seen j k) < length (block_at (unat (tf_size T)) (tf_dst T) k)" and n: "0 < n"
  shows "joint_inv T (worker_turn (unat (tf_size T)) k n j)" and "joint_todo T (worker_turn (unat (tf_size T)) k n j) < joint_todo T j"
proof -
  let ?B = "unat (tf_size T)"
  let ?j = "worker_turn ?B k n j" and ?seen = "jt_seen j"
  have W: "prefix (?seen i) (block_at ?B (tf_dst T) i)" "i < jt_pushed j \<Longrightarrow> ?seen i = block_at ?B (tf_dst T) i" for i
    using inv by (simp_all add: joint_inv_def workers_ok_def)
  have p: "jt_pushed j \<le> k" using W(2) [of k] less by (auto simp: not_less [symmetric])
  with server_running [OF inv run] have same: "block_at ?B (sl_file (jt_server j)) k = block_at ?B (tf_dst T) k"
    by (auto simp: server_live_def server_stores_def joint_env_def)
  have seen: "jt_seen ?j i = (if i = k then ?seen k @ take n (drop (length (?seen k)) (block_at ?B (tf_dst T) k)) else ?seen i)" for i
    using same by (simp add: worker_turn_def)
  have "prefix (jt_seen ?j i) (block_at ?B (tf_dst T) i)" for i using W(1) by (simp add: seen prefix_read_on)
  moreover have "jt_seen ?j i = block_at ?B (tf_dst T) i" if "i < jt_pushed j" for i using W(2) [OF that] p that by (simp add: seen)
  moreover have pe: "jt_pushed ?j = jt_pushed j" "jt_ended ?j = jt_ended j" by (simp_all add: worker_turn_def)
  ultimately have "workers_ok T ?j" using inv unfolding joint_inv_def workers_ok_def pe by blast
  moreover have "client_ok T ?j" "server_ok T ?j" "wires_ok T ?j"
    using inv joint_frame(1,2) [of ?j j] by (auto simp: joint_inv_def wires_ok_def worker_turn_def)
  ultimately show "joint_inv T ?j" by (simp add: joint_inv_def)
  have "length (?seen k) < ?B" using less by (simp add: length_block_at)
  then have lt: "?B - length (jt_seen ?j k) < ?B - length (?seen k)" using less n by (simp add: seen)
  have "(\<Sum>i < tf_count T. ?B - length (jt_seen ?j i)) < (\<Sum>i < tf_count T. ?B - length (?seen i))"
  proof (rule sum_strict_mono_ex1)
    show "\<forall>i \<in> {..<tf_count T}. ?B - length (jt_seen ?j i) \<le> ?B - length (?seen i)"
      by (auto simp: seen intro!: diff_le_mono2)
    show "\<exists>i \<in> {..<tf_count T}. ?B - length (jt_seen ?j i) < ?B - length (?seen i)" using k lt by blast
  qed simp
  then have "workers_left T ?j < workers_left T j" by (simp add: workers_left_def worker_turn_def)
  moreover have "client_left T ?j = client_left T j" "server_left T ?j = server_left T j" "wires_left T ?j = wires_left T j"
    by (simp_all add: client_left_def server_left_def wires_left_def worker_turn_def)
  ultimately show "joint_todo T ?j < joint_todo T j" by (simp add: joint_todo_def)
qed

lemma joint_push:
  assumes inv: "joint_inv T j" and run: "jt_server_end j = None" and p: "jt_pushed j < tf_count T"
    and full: "length (jt_seen j (jt_pushed j)) = length (block_at (unat (tf_size T)) (tf_dst T) (jt_pushed j))"
  shows "joint_inv T (worker_pushes (tf_crates T) (tf_algorithm T) j)"
    and "joint_todo T (worker_pushes (tf_crates T) (tf_algorithm T) j) < joint_todo T j"
proof -
  let ?s = "jt_server j" and ?k = "jt_pushed j" and ?j = "worker_pushes (tf_crates T) (tf_algorithm T) j"
  let ?d = "block_at (unat (tf_size T)) (tf_dst T) (jt_pushed j)"
  let ?t = "?s\<lparr>sl_hasher := sl_hasher ?s @ [HsItem (word_of_nat ?k) (hash_data (tf_crates T) ?d (tf_algorithm T)) ?d]\<rparr>"
  have seen: "jt_seen j ?k = ?d" using inv full by (auto simp: joint_inv_def workers_ok_def prefix_def dest!: spec [of _ ?k])
  then have j': "?j = j\<lparr>jt_server := ?t, jt_pushed := Suc ?k\<rparr>" by (simp add: worker_pushes_def Let_def)
  have e: "\<not> jt_ended j" using inv p by (auto simp: joint_inv_def workers_ok_def)
  obtain rest where "server_live (joint_env T (jt_eof j)) (length (snd (sl_tx ?s)), length (snd (sl_tx ?s))) ?k
      (drop (jt_to_server j) (tf_up T 0)) (tf_down T ?k) (jt_ended j) rest ?s" using inv run by (rule server_running)
  then have live: "server_live (joint_env T (jt_eof j)) (length (snd (sl_tx ?s)), length (snd (sl_tx ?s))) (Suc ?k)
      (drop (jt_to_server j) (tf_up T 0)) (tf_down T (Suc ?k)) False rest ?t"
    using e server_live_pushes unfolding tf_down_step [OF p] by simp
  then have "server_ok T ?j" using run e unfolding j' by (auto simp: server_ok_def Let_def)
  moreover have "client_ok T ?j" "wires_ok T ?j"
    using inv joint_frame(1) [of ?j j] unfolding j' by (auto simp: joint_inv_def wires_ok_def)
  moreover have "workers_ok T ?j"
    using inv p e seen unfolding j' by (auto simp: joint_inv_def workers_ok_def less_Suc_eq)
  ultimately show "joint_inv T ?j" by (simp add: joint_inv_def)
  have "sl_hasher ?s = hs_script (hs_items (sl_hasher ?s)) False"
    using server_running [OF inv run] e by (auto simp: server_live_def server_hashes_def)
  then have "length (hs_items (sl_hasher ?t)) = Suc (length (hs_items (sl_hasher ?s)))" by (simp add: hs_items_push)
  then have "server_left T ?j = Suc (server_left T j)"
    using run server_pending_frame [of ?t ?s] unfolding j' by (simp add: server_left_def server_work_def)
  moreover have "workers_left T j = Suc (Suc (workers_left T ?j))" using p unfolding j' by (simp add: workers_left_def)
  moreover have "client_left T ?j = client_left T j" "wires_left T ?j = wires_left T j"
    unfolding j' by (simp_all add: client_left_def wires_left_def)
  ultimately show "joint_todo T ?j < joint_todo T j" by (simp add: joint_todo_def)
qed

lemma joint_finish:
  assumes inv: "joint_inv T j" and run: "jt_server_end j = None" and p: "jt_pushed j = tf_count T" and e: "\<not> jt_ended j"
  shows "joint_inv T (workers_finish j)" and "joint_todo T (workers_finish j) < joint_todo T j"
proof -
  let ?s = "jt_server j" and ?j = "workers_finish j"
  let ?t = "?s\<lparr>sl_hasher := sl_hasher ?s @ [HsEnd]\<rparr>"
  obtain rest where "server_live (joint_env T (jt_eof j)) (length (snd (sl_tx ?s)), length (snd (sl_tx ?s))) (jt_pushed j)
      (drop (jt_to_server j) (tf_up T 0)) (tf_down T (jt_pushed j)) (jt_ended j) rest ?s" using inv run by (rule server_running)
  then have live: "server_live (joint_env T (jt_eof j)) (length (snd (sl_tx ?s)), length (snd (sl_tx ?s))) (jt_pushed j)
      (drop (jt_to_server j) (tf_up T 0)) (tf_down T (jt_pushed j)) False rest ?s" using e by simp
  have "server_ok T ?j" using run server_live_finishes [OF live] by (auto simp: server_ok_def workers_finish_def Let_def)
  moreover have "client_ok T ?j" "wires_ok T ?j" "workers_ok T ?j"
    using inv p joint_frame(1) [of ?j j] by (auto simp: joint_inv_def wires_ok_def workers_ok_def workers_finish_def)
  ultimately show "joint_inv T ?j" by (simp add: joint_inv_def)
  have "sl_hasher ?s = hs_script (hs_items (sl_hasher ?s)) False" using live by (simp add: server_live_def server_hashes_def)
  then have "hs_items (sl_hasher ?t) = hs_items (sl_hasher ?s)" by (simp add: hs_items_push)
  then have "server_left T ?j = server_left T j"
    using run server_pending_frame [of ?t ?s] by (simp add: server_left_def server_work_def workers_finish_def)
  moreover have "workers_left T ?j < workers_left T j" using e by (simp add: workers_left_def workers_finish_def)
  moreover have "client_left T ?j = client_left T j" "wires_left T ?j = wires_left T j"
    by (simp_all add: client_left_def wires_left_def workers_finish_def)
  ultimately show "joint_todo T ?j < joint_todo T j" by (simp add: joint_todo_def)
qed

lemma wire_step_keeps:
  assumes "wire_step j j'" and "tf_ok T" and "joint_inv T j"
  shows "joint_inv T j' \<and> joint_todo T j' \<le> joint_todo T j"
  using assms
  by (induction rule: wire_step.induct) (simp_all add: joint_down joint_up joint_close less_imp_le)

lemma joint_step_keeps:
  assumes "tf_ok T" and "joint_step T j j'" and "joint_inv T j"
  shows "joint_inv T j'" and "joint_todo T j' \<le> joint_todo T j"
  using assms(2,1,3)
  by (induction rule: joint_step.induct)
    (simp_all add: wire_step_keeps joint_client client_may_def joint_server server_may_def joint_reads joint_push joint_finish less_imp_le)

lemma joint_steps_keep:
  "(joint_step T)\<^sup>*\<^sup>* j j' \<Longrightarrow> tf_ok T \<Longrightarrow> joint_inv T j \<Longrightarrow> joint_inv T j' \<and> joint_todo T j' \<le> joint_todo T j"
  by (induction rule: rtranclp_induct) (use joint_step_keeps order_trans in blast)+

end
