(* ===== verification/Closed_Loop.thy ===== *)
theory Closed_Loop
  imports Joint_Steps
begin

text \<open>
  What the joint system guarantees: the two loops never wait for each other in a circle, every session can come to its end,
  whatever the interleaving and however little the connection buffers, and when both loops are left the destination is
  synchronised.
\<close>

section \<open>The system is never stuck\<close>

text \<open>
  Who goes on: the connection; the client, when it can write, read or compare; the server; or, when the server waits for
  the next hash with nothing else to do, a worker.
\<close>

definition wire_goes_on :: "transfer \<Rightarrow> joint \<Rightarrow> bool" where
  "wire_goes_on T j \<longleftrightarrow> (\<exists>j'. wire_step j j' \<and> joint_todo T j' < joint_todo T j)"

definition client_goes_on :: "transfer \<Rightarrow> joint \<Rightarrow> bool" where
  "client_goes_on T j \<longleftrightarrow> jt_client_end j = None \<and> client_backlog j < tf_capacity T
     \<and> (cl_write_block (jt_client j) \<noteq> None \<or> bytes_of (cl_rx (jt_client j)) \<noteq> []
       \<or> cl_remote_hashes (jt_client j) \<noteq> [] \<and> \<not> cl_hash_comparison_over (jt_client j))"

definition server_goes_on :: "transfer \<Rightarrow> joint \<Rightarrow> bool" where
  "server_goes_on T j \<longleftrightarrow> (\<exists>gs ds. server_may T j gs ds \<and> joint_todo T (server_turn gs ds j) < joint_todo T j)"

definition server_wants_hash :: "transfer \<Rightarrow> joint \<Rightarrow> bool" where
  "server_wants_hash T j \<longleftrightarrow> jt_server_end j = None \<and> jt_pushed j < tf_count T \<and> sl_write_disk (jt_server j) = None
     \<and> bytes_of (sl_rx (jt_server j)) = [] \<and> \<not> jt_eof j \<and> sl_write_hash (jt_server j) = None
     \<and> hs_items (sl_hasher (jt_server j)) = []"

text \<open>The server goes on when a block waits to be written or has arrived, or when the client is gone.\<close>

lemma server_ready:
  assumes ok: "tf_ok T" and inv: "joint_inv T j" and run: "jt_server_end j = None"
    and "sl_write_disk (jt_server j) \<noteq> None \<or> bytes_of (sl_rx (jt_server j)) \<noteq> [] \<or> jt_eof j
      \<or> sl_write_hash (jt_server j) \<noteq> None \<and> server_backlog j < tf_capacity T
      \<or> sl_write_hash (jt_server j) = None \<and> hs_items (sl_hasher (jt_server j)) \<noteq> []"
  shows "server_goes_on T j"
proof -
  let ?gs = "if server_backlog j < tf_capacity T then [1] else []"
  have "server_may T j ?gs [1]" using run by (auto simp: server_may_def)
  moreover have "joint_todo T (server_turn ?gs [1] j) < joint_todo T j"
    by (rule joint_server(3) [OF ok inv run]) (use assms(4) in auto)
  ultimately show ?thesis unfolding server_goes_on_def by blast
qed

lemma client_ready:
  assumes ok: "tf_ok T" and inv: "joint_inv T j" and on: "client_goes_on T j"
  shows "client_may T j [1]" and "joint_todo T (client_turn False [1] j) < joint_todo T j"
proof -
  have run: "jt_client_end j = None" using on by (simp add: client_goes_on_def)
  show "client_may T j [1]" using on by (auto simp: client_may_def client_goes_on_def)
  show "joint_todo T (client_turn False [1] j) < joint_todo T j"
    by (rule joint_client(3) [OF ok inv run]) (use on in \<open>auto simp: client_goes_on_def\<close>)
qed

lemma workers_go_on:
  assumes inv: "joint_inv T j" and run: "jt_server_end j = None" and p: "jt_pushed j < tf_count T"
  shows "\<exists>j'. joint_step T j j' \<and> joint_todo T j' < joint_todo T j"
proof -
  have "prefix (jt_seen j (jt_pushed j)) (block_at (unat (tf_size T)) (tf_dst T) (jt_pushed j))"
    using inv by (simp add: joint_inv_def workers_ok_def)
  from prefix_length_le [OF this] consider
      "length (jt_seen j (jt_pushed j)) < length (block_at (unat (tf_size T)) (tf_dst T) (jt_pushed j))"
    | "length (jt_seen j (jt_pushed j)) = length (block_at (unat (tf_size T)) (tf_dst T) (jt_pushed j))" by linarith
  then show ?thesis
  proof cases
    case 1
    from joint_step.reads [OF run p 1, of 1] joint_reads(2) [OF inv run p 1, of 1] show ?thesis by auto
  next
    case 2
    from joint_step.push [OF run p 2] joint_push(2) [OF inv run p 2] show ?thesis by blast
  qed
qed

text \<open>
  A client that has nothing to write, nothing to read and nothing to compare waits for a hash that is not pushed yet
  or that the server has not sent yet.
\<close>

lemma client_waits_for_hash:
  assumes ok: "tf_ok T" and inv: "joint_inv T j" and run: "jt_client_end j = None" "jt_server_end j = None"
    and idle: "cl_write_block (jt_client j) = None" "bytes_of (cl_rx (jt_client j)) = []" "cl_remote_hashes (jt_client j) = []"
    and wire: "jt_to_client j = length (snd (sl_tx (jt_server j)))"
    and served: "sl_write_hash (jt_server j) = None" "hs_items (sl_hasher (jt_server j)) = []"
  shows "jt_pushed j < tf_count T"
proof (rule ccontr)
  let ?s = "jt_client j"
  assume "\<not> jt_pushed j < tf_count T"
  moreover have "jt_pushed j \<le> tf_count T" using inv by (simp add: joint_inv_def workers_ok_def)
  ultimately have p: "jt_pushed j = tf_count T" by simp
  obtain rest where live: "client_live (length (snd (cl_tx ?s)), length (snd (cl_tx ?s))) (drop (jt_to_client j) (tf_down T 0))
      (tf_size T) (tf_items T) (tf_hashes T) rest ?s" using inv run(1) by (rule client_running)
  from server_running [OF inv run(2)] served p have "snd (sl_tx (jt_server j)) = tf_down T 0"
    by (auto simp: server_live_def server_hashes_def joint_env_def hash_pending_def hash_messages_def)
  then have got: "rrs_got (cl_read_string ?s) = concat (map string_message rest)"
    using live wire idle by (simp add: client_live_def client_listens_def)
  have "rest = drop (unat (cl_block_idx ?s)) (tf_hashes T)" "hs_items (cl_hasher ?s) = drop (unat (cl_block_idx ?s)) (tf_items T)"
    "hs_items (cl_hasher ?s) \<noteq> []"
    using live idle by (auto simp: client_live_def client_counts_def)
  then have "rest \<noteq> []" using length_tf(1) [of T] length_tf(2) [OF ok] by simp
  then obtain h more where "rest = h # more" by (cases rest) auto
  moreover have "rrs_inv 256 (cl_read_string ?s)" "list_all (acceptable 256) rest"
    using live by (simp_all add: client_live_def client_listens_def)
  ultimately show False using rrs.partial [of 256 "cl_read_string ?s" h "concat (map string_message more)"] got by simp
qed

text \<open>With nothing under way to the server, a client that has not ended can go on, or the server or its workers can.\<close>

lemma hashes_go_on:
  assumes ok: "tf_ok T" and inv: "joint_inv T j" and run: "jt_client_end j = None" "jt_server_end j = None"
    and quiet: "sl_write_disk (jt_server j) = None" "bytes_of (sl_rx (jt_server j)) = []" "\<not> jt_eof j"
    and room: "client_backlog j < tf_capacity T"
  shows "wire_goes_on T j \<or> client_goes_on T j \<or> server_goes_on T j \<or> server_wants_hash T j"
proof (cases "cl_write_block (jt_client j) = None \<and> bytes_of (cl_rx (jt_client j)) = []
    \<and> (cl_remote_hashes (jt_client j) = [] \<or> cl_hash_comparison_over (jt_client j))")
  case False
  then have "client_goes_on T j" using run(1) room unfolding client_goes_on_def by auto
  then show ?thesis by blast
next
  case True
  moreover have "cl_hash_comparison_over (jt_client j) \<longrightarrow> cl_write_block (jt_client j) \<noteq> None"
    using client_running [OF inv run(1)] by (auto simp: client_live_def client_counts_def)
  ultimately have idle: "cl_write_block (jt_client j) = None" "bytes_of (cl_rx (jt_client j)) = []"
    "cl_remote_hashes (jt_client j) = []" by auto
  have wire: "jt_to_client j \<le> length (snd (sl_tx (jt_server j)))" using inv by (simp add: joint_inv_def wires_ok_def)
  show ?thesis
  proof (cases "jt_to_client j = length (snd (sl_tx (jt_server j)))")
    case False
    then have "jt_to_client j + 1 \<le> length (snd (sl_tx (jt_server j)))" using wire by simp
    from wire_step.down [OF _ this] joint_down(3) [OF inv _ this run(1)] show ?thesis unfolding wire_goes_on_def by fastforce
  next
    case flushed: True
    then have "server_backlog j < tf_capacity T" using idle ok by (simp add: server_backlog_def tf_ok_def)
    then show ?thesis
      using server_ready [OF ok inv run(2)] client_waits_for_hash [OF ok inv run idle flushed] quiet run(2)
      unfolding server_wants_hash_def by argo
  qed
qed

lemma session_goes_on:
  assumes ok: "tf_ok T" and inv: "joint_inv T j" and run: "jt_server_end j = None"
  shows "wire_goes_on T j \<or> client_goes_on T j \<or> server_goes_on T j \<or> server_wants_hash T j"
proof -
  let ?c = "jt_client j" and ?s = "jt_server j"
  have wire: "jt_to_server j \<le> length (snd (cl_tx ?c))" using inv by (simp add: joint_inv_def wires_ok_def)
  consider (server) "sl_write_disk ?s \<noteq> None \<or> bytes_of (sl_rx ?s) \<noteq> [] \<or> jt_eof j"
    | (wire) "jt_to_server j \<noteq> length (snd (cl_tx ?c))"
    | (quiet) "sl_write_disk ?s = None" "bytes_of (sl_rx ?s) = []" "\<not> jt_eof j" "jt_to_server j = length (snd (cl_tx ?c))" by blast
  then show ?thesis
  proof cases
    case server
    then show ?thesis using server_ready [OF ok inv run] by blast
  next
    case wire
    then have "jt_to_server j + 1 \<le> length (snd (cl_tx ?c))" using \<open>jt_to_server j \<le> length (snd (cl_tx ?c))\<close> by simp
    from wire_step.up [OF _ this] joint_up(3) [OF ok inv _ this run] show ?thesis unfolding wire_goes_on_def by fastforce
  next
    case quiet
    show ?thesis
    proof (cases "jt_client_end j")
      case (Some r)
      then have over: "jt_client_end j \<noteq> None" by simp
      from wire_step.close [OF over quiet(4,3)] joint_close(2) [OF ok inv over quiet(4,3)] show ?thesis
        unfolding wire_goes_on_def by blast
    next
      case None
      have "client_backlog j < tf_capacity T" using quiet ok by (simp add: client_backlog_def tf_ok_def)
      then show ?thesis by (rule hashes_go_on [OF ok inv None run quiet(1-3)])
    qed
  qed
qed

lemma joint_progress:
  assumes ok: "tf_ok T" and inv: "joint_inv T j" and going: "\<not> joint_done j"
  shows "\<exists>j'. joint_step T j j' \<and> joint_todo T j' < joint_todo T j"
proof -
  have run: "jt_server_end j = None" using going joint_roles(1,2) [OF inv] unfolding joint_done_def by blast
  from session_goes_on [OF ok inv run] consider "wire_goes_on T j" | "client_goes_on T j" | "server_goes_on T j"
    | "server_wants_hash T j" by blast
  then show ?thesis
  proof cases
    case 2
    from joint_step.client [OF client_ready(1) [OF ok inv 2]] client_ready(2) [OF ok inv 2] show ?thesis by blast
  next
    case 3
    then show ?thesis unfolding server_goes_on_def by (blast intro: joint_step.server)
  qed (use workers_go_on [OF inv run] joint_step.wire in \<open>auto simp: wire_goes_on_def server_wants_hash_def\<close>)
qed

section \<open>From the start to the end\<close>

lemma joint_inv_start:
  assumes ok: "tf_ok T" and hs: "hs_items hs = tf_items T" "hs_no_error hs"
  shows "joint_inv T (joint_start T hs)"
proof -
  let ?n = "word_of_nat (length (tf_src T)) :: usize"
  let ?c = "client_loop_start (tf_size T) ?n [] [] ([], []) hs"
  let ?s = "server_loop_start (session_of (tf_options T) (tf_src T)) (tf_dst T) [] ([], []) [] []"
  have size: "sizes_ok (length (tf_src T)) (tf_size T) (opt_workers (tf_options T))" "tf_src T \<noteq> []"
    "length (tf_dst T) = length (tf_src T)" "hex_documented (tf_crates T)" using ok by (simp_all add: tf_ok_def)
  have "unat ?n = length (tf_src T)" by (rule unat_small) (use size(1) in \<open>simp add: sizes_ok_def\<close>)
  then have count: "unat (usize_div_ceil ?n (tf_size T)) = tf_count T"
    using unat_usize_div_ceil [of ?n "length (tf_src T)" "tf_size T"] size(1,3) by (simp add: sizes_ok_def)
  have "0 < tf_count T" using tf_ok_size(1) [OF ok] size(2,3) by (simp add: div_ceil_iff)
  then have items: "tf_items T \<noteq> []" using length_tf(2) [OF ok] by auto
  have "client_live (0, 0) (tf_down T 0) (tf_size T) (tf_items T) (tf_hashes T) (tf_hashes T) ?c"
    using hs items count length_tf(1) [of T] length_tf(2) [OF ok] remote_hashes_acceptable [OF size(4)]
    by (simp add: client_live_def client_writes_def client_listens_def client_counts_def client_loop_start_def client_pending_def
        tf_down_def rrs_inv_new tf_hashes_def)
  then have "client_ok T (joint_start T hs)" by (auto simp: client_ok_def joint_start_def client_loop_start_def Let_def)
  moreover have "server_live (joint_env T False) (0, 0) 0 (tf_up T 0) (tf_down T 0) False (tf_blocks T 0) ?s"
  proof -
    note B = sent_blocks_ok [OF size(1) tf_blocks_all [OF ok]]
    have "arrived_inside (unat (tf_size T)) (tf_dst T) 0 (tf_up T 0) (tf_blocks T 0)"
      by (rule arrived_behind [OF ok _ le_refl le_refl]) simp
    then show ?thesis
      using B(1,2) rrfb_inv_new [of "tf_size T" ?n]
      by (simp add: server_live_def server_receives_def server_stores_def server_hashes_def hash_pending_def server_target_def
          server_loop_start_def session_of_def joint_env_def tf_up_def hash_messages_def)
  qed
  then have "server_ok T (joint_start T hs)" by (auto simp: server_ok_def joint_start_def server_loop_start_def Let_def)
  moreover have "workers_ok T (joint_start T hs)" "wires_ok T (joint_start T hs)"
    by (simp_all add: workers_ok_def wires_ok_def joint_start_def)
  ultimately show ?thesis by (simp add: joint_inv_def)
qed

lemma joint_reachable:
  assumes "tf_ok T" and "hs_items hs = tf_items T" and "hs_no_error hs" and "(joint_step T)\<^sup>*\<^sup>* (joint_start T hs) j"
  shows "joint_inv T j"
  using joint_steps_keep [OF assms(4,1) joint_inv_start [OF assms(1-3)]] by simp

lemma joint_comes_to_end:
  assumes ok: "tf_ok T"
  shows "joint_inv T j \<Longrightarrow> \<exists>j'. (joint_step T)\<^sup>*\<^sup>* j j' \<and> joint_done j'"
proof (induction "joint_todo T j" arbitrary: j rule: less_induct)
  case less
  show ?case
  proof (cases "joint_done j")
    case True
    then show ?thesis by blast
  next
    case False
    from joint_progress [OF ok less.prems False] obtain j1 where j1: "joint_step T j j1" "joint_todo T j1 < joint_todo T j" by blast
    from less.hyps [OF j1(2) joint_step_keeps(1) [OF ok j1(1) less.prems]] obtain j' where
      "(joint_step T)\<^sup>*\<^sup>* j1 j'" "joint_done j'" by blast
    with j1(1) show ?thesis by (meson converse_rtranclp_into_rtranclp)
  qed
qed

section \<open>The session as a whole\<close>

lemma joint_end_synced:
  assumes "tf_ok T" and inv: "joint_inv T j" and "joint_done j"
  shows "jt_client_end j = Some (Ok ()) \<and> jt_server_end j = Some (Ok ())
    \<and> synced (tf_crates T) (tf_algorithm T) (unat (tf_size T)) (tf_src T) (tf_dst T) (sl_file (jt_server j))
    \<and> (collision_free (tf_crates T) (tf_algorithm T) (unat (tf_size T)) (tf_src T) (tf_dst T) \<longrightarrow> sl_file (jt_server j) = tf_src T)"
proof -
  have ends: "jt_client_end j = Some (Ok ())" "jt_server_end j = Some (Ok ())"
    "sl_file (jt_server j) = apply_blocks (tf_dst T) (positions (tf_blocks T 0))"
    using joint_roles(3,4) [OF inv] assms(3) by (simp_all add: joint_done_def joint_env_def)
  have "synced (tf_crates T) (tf_algorithm T) (unat (tf_size T)) (tf_src T) (tf_dst T) (sl_file (jt_server j))"
    using apply_sent_blocks [of "tf_src T" "tf_size T"] assms(1) unfolding ends(3) tf_blocks_all [OF assms(1)] tf_ok_def by blast
  with ends synced_exact [OF tf_ok_size(1) [OF assms(1)] this] show ?thesis by blast
qed

text \<open>
  C3: Client and server, run together over a connection that buffers few bytes and delivers them in pieces, end
  with a synchronised destination: whatever the interleaving of the two event loops, the hash workers and the
  connection, when both loops have been left, both have been left without an error and the destination is synchronised;
  it equals the source when no two different blocks collide.
\<close>

theorem closed_loop_syncs:
  assumes "tf_ok T" and "hs_items hs = tf_items T" and "hs_no_error hs"
    and "(joint_step T)\<^sup>*\<^sup>* (joint_start T hs) j" and "joint_done j"
  shows "jt_client_end j = Some (Ok ()) \<and> jt_server_end j = Some (Ok ())
    \<and> synced (tf_crates T) (tf_algorithm T) (unat (tf_size T)) (tf_src T) (tf_dst T) (sl_file (jt_server j))
    \<and> (collision_free (tf_crates T) (tf_algorithm T) (unat (tf_size T)) (tf_src T) (tf_dst T) \<longrightarrow> sl_file (jt_server j) = tf_src T)"
  by (rule joint_end_synced [OF assms(1) joint_reachable [OF assms(1-4)] assms(5)])

text \<open>A session with a source of three bytes and a connection that buffers a single byte each way.\<close>

abbreviation sample_transfer :: transfer where
  "sample_transfer \<equiv> \<lparr>tf_crates = sample_crates,
     tf_options = \<lparr>opt_address = [], opt_secret = [120, 121], opt_src_path = [115], opt_dest = [102],
       opt_force_truncate = True, opt_workers = 2, opt_block_size = 2, opt_hash_algorithm = MD5\<rparr>,
     tf_workers = 2, tf_src = [1, 7, 3], tf_dst = [1, 2, 0], tf_capacity = 1\<rparr>"

abbreviation sample_script :: "hs_event list" where
  "sample_script \<equiv> HsWait # hs_script (tf_items sample_transfer) True"

lemma sample_transfer_ok:
  "tf_ok sample_transfer" "hs_items sample_script = tf_items sample_transfer" "hs_no_error sample_script"
proof -
  show "tf_ok sample_transfer" by (simp add: tf_ok_def sizes_ok_def)
  show "hs_items sample_script = tf_items sample_transfer" by simp
  have "hs_no_error (hs_script its True)" for its by (induction its) (auto simp: hs_script_def)
  then show "hs_no_error sample_script" by simp
qed

theorem closed_loop_syncs_witness:
  "\<exists>j. (joint_step sample_transfer)\<^sup>*\<^sup>* (joint_start sample_transfer sample_script) j \<and> joint_done j
     \<and> jt_client_end j = Some (Ok ()) \<and> jt_server_end j = Some (Ok ())
     \<and> synced sample_crates MD5 2 [1, 7, 3] [1, 2, 0] (sl_file (jt_server j))"
proof -
  obtain j where "(joint_step sample_transfer)\<^sup>*\<^sup>* (joint_start sample_transfer sample_script) j" "joint_done j"
    using joint_comes_to_end [OF sample_transfer_ok(1) joint_inv_start [OF sample_transfer_ok]] by blast
  with closed_loop_syncs [OF sample_transfer_ok this] show ?thesis by auto
qed

text \<open>
  C4: Client and server never wait for each other in a circle, however little the connection buffers. In every state
  the system can get into: as long as a loop is still running, some step brings the session closer to its end; no step
  undoes progress; and the end, with both loops left, can be reached.
\<close>

theorem closed_loop_never_stuck:
  assumes "tf_ok T" and "hs_items hs = tf_items T" and "hs_no_error hs" and "(joint_step T)\<^sup>*\<^sup>* (joint_start T hs) j"
  shows "(\<not> joint_done j \<longrightarrow> (\<exists>j'. joint_step T j j' \<and> joint_todo T j' < joint_todo T j))
    \<and> (\<forall>j'. joint_step T j j' \<longrightarrow> joint_todo T j' \<le> joint_todo T j)
    \<and> (\<exists>j'. (joint_step T)\<^sup>*\<^sup>* j j' \<and> joint_done j')"
proof -
  have inv: "joint_inv T j" by (rule joint_reachable [OF assms])
  show ?thesis
    using joint_progress [OF assms(1) inv] joint_step_keeps(2) [OF assms(1) _ inv] joint_comes_to_end [OF assms(1) inv] by blast
qed

theorem closed_loop_never_stuck_witness:
  "\<exists>j. joint_step sample_transfer (joint_start sample_transfer sample_script) j
     \<and> joint_todo sample_transfer j < joint_todo sample_transfer (joint_start sample_transfer sample_script)"
proof -
  have "\<not> joint_done (joint_start sample_transfer sample_script)" by (simp add: joint_done_def joint_start_def)
  with closed_loop_never_stuck [OF sample_transfer_ok rtranclp.rtrancl_refl] show ?thesis by blast
qed

text \<open>
  C7: A block of the destination is overwritten only after it has been hashed: at every moment of a session, what the
  workers have read of any block is what was there at the start, every block handed to the channel was read completely, and the
  blocks not handed over yet are untouched in the file.
\<close>

theorem hashed_before_overwritten:
  assumes "tf_ok T" and "hs_items hs = tf_items T" and "hs_no_error hs" and "(joint_step T)\<^sup>*\<^sup>* (joint_start T hs) j"
  shows "prefix (jt_seen j k) (block_at (unat (tf_size T)) (tf_dst T) k)
    \<and> (k < jt_pushed j \<longrightarrow> jt_seen j k = block_at (unat (tf_size T)) (tf_dst T) k)
    \<and> (jt_server_end j = None \<longrightarrow> jt_pushed j \<le> k \<longrightarrow>
        block_at (unat (tf_size T)) (sl_file (jt_server j)) k = block_at (unat (tf_size T)) (tf_dst T) k)"
proof -
  have inv: "joint_inv T j" by (rule joint_reachable [OF assms])
  have "block_at (unat (tf_size T)) (sl_file (jt_server j)) k = block_at (unat (tf_size T)) (tf_dst T) k"
    if "jt_server_end j = None" "jt_pushed j \<le> k"
    using server_running [OF inv that(1)] that(2) by (auto simp: server_live_def server_stores_def joint_env_def)
  with inv show ?thesis by (simp add: joint_inv_def workers_ok_def)
qed

theorem hashed_before_overwritten_witness:
  "\<exists>j. (joint_step sample_transfer)\<^sup>*\<^sup>* (joint_start sample_transfer sample_script) j \<and> jt_seen j 1 = [0]
     \<and> prefix (jt_seen j 1) (block_at 2 [1, 2, 0] 1)"
proof -
  let ?start = "joint_start sample_transfer sample_script"
  let ?next = "worker_turn (unat (tf_size sample_transfer)) 1 5 ?start"
  have "joint_step sample_transfer ?start ?next"
    by (rule joint_step.reads) (simp_all add: joint_start_def div_ceil_def block_at_def)
  then have r: "(joint_step sample_transfer)\<^sup>*\<^sup>* ?start ?next" by (rule r_into_rtranclp)
  moreover have "jt_seen ?next 1 = [0]" by (simp add: worker_turn_def joint_start_def server_loop_start_def block_at_def)
  ultimately show ?thesis using hashed_before_overwritten [OF sample_transfer_ok r, of 1] by auto
qed

text \<open>
  Well-formed states: the resumable structures are in order, the client never counts past its last block and never
  holds more hashes than blocks to compare, a pending disk write stays within the file.
\<close>

definition client_well_formed :: "transfer \<Rightarrow> client_loop \<Rightarrow> bool" where
  "client_well_formed T s \<longleftrightarrow> rrs_inv 256 (cl_read_string s) \<and> list_all (acceptable 256) (cl_remote_hashes s)
     \<and> (case cl_write_block s of None \<Rightarrow> cl_blocks_idx_to_send s = [] | Some rwb \<Rightarrow> rwfb_inv rwb)
     \<and> unat (cl_end_block_idx s) = tf_count T
     \<and> unat (cl_block_idx s) + length (cl_remote_hashes s) \<le> tf_count T"

definition server_well_formed :: "transfer \<Rightarrow> server_loop \<Rightarrow> bool" where
  "server_well_formed T s \<longleftrightarrow> rrfb_inv (tf_size T) (word_of_nat (length (tf_src T))) (sl_reader s)
     \<and> (case sl_write_hash s of None \<Rightarrow> True | Some rws \<Rightarrow> rws_inv rws)
     \<and> length (sl_file s) = length (tf_src T)
     \<and> (case sl_write_disk s of None \<Rightarrow> True | Some rwa \<Rightarrow> rwa_inv (sl_write_buffer s) rwa
          \<and> sl_pos s + length (rwa_remaining (sl_write_buffer s) rwa) \<le> length (sl_file s))"

text \<open>
  C8: The state of a session is well-formed at every moment: in the client, the reader of hashes and the writer of blocks are in
  order, \<open>block_idx\<close> plus the hashes still to compare never exceeds \<open>end_block_idx\<close>, which is the number of blocks;
  in the server, the reader of blocks and the writer of hashes are in order, the file keeps its size, and the write to disk
  that is under way stays within it.
\<close>

theorem session_well_formed:
  assumes "tf_ok T" and "hs_items hs = tf_items T" and "hs_no_error hs" and "(joint_step T)\<^sup>*\<^sup>* (joint_start T hs) j"
  shows "(jt_client_end j = None \<longrightarrow> client_well_formed T (jt_client j))
    \<and> (jt_server_end j = None \<longrightarrow> server_well_formed T (jt_server j))"
proof (intro conjI impI)
  have inv: "joint_inv T j" by (rule joint_reachable [OF assms])
  have ok: "length (tf_dst T) = length (tf_src T)" "hex_documented (tf_crates T)" using assms(1) by (simp_all add: tf_ok_def)
  show "client_well_formed T (jt_client j)" if "jt_client_end j = None"
  proof -
    let ?s = "jt_client j" and ?k = "unat (cl_block_idx (jt_client j))"
    from client_running [OF inv that] obtain rest where
      live: "client_live (length (snd (cl_tx ?s)), length (snd (cl_tx ?s))) (drop (jt_to_client j) (tf_down T 0))
        (tf_size T) (tf_items T) (tf_hashes T) rest ?s" .
    then have L: "cl_remote_hashes ?s @ rest = drop ?k (tf_hashes T)" "?k \<le> unat (cl_end_block_idx ?s)"
      "unat (cl_end_block_idx ?s) = tf_count T"
      using length_tf(1) [of T] by (simp_all add: client_live_def client_counts_def)
    have "list_all (acceptable 256) (tf_hashes T)" unfolding tf_hashes_def by (rule remote_hashes_acceptable [OF ok(2)])
    then have "list_all (acceptable 256) (cl_remote_hashes ?s @ rest)"
      unfolding L(1) by (auto simp: list_all_iff dest: in_set_dropD)
    then have "list_all (acceptable 256) (cl_remote_hashes ?s)" by simp
    moreover have "length (cl_remote_hashes ?s) \<le> tf_count T - ?k"
      using arg_cong [OF L(1), of length] length_tf(1) [of T] by simp
    ultimately show ?thesis
      using live L by (auto simp: client_well_formed_def client_live_def client_writes_def client_listens_def split: option.splits)
  qed
  show "server_well_formed T (jt_server j)" if "jt_server_end j = None"
  proof -
    let ?s = "jt_server j"
    from server_running [OF inv that] obtain rest where
      live: "server_live (joint_env T (jt_eof j)) (length (snd (sl_tx ?s)), length (snd (sl_tx ?s))) (jt_pushed j)
        (drop (jt_to_server j) (tf_up T 0)) (tf_down T (jt_pushed j)) (jt_ended j) rest ?s" .
    then have reader: "rrfb_inv (tf_size T) (word_of_nat (length (tf_src T))) (sl_reader ?s)"
      and hash: "\<And>rws. sl_write_hash ?s = Some rws \<Longrightarrow> rws_inv rws"
      and stores: "server_stores (unat (tf_size T)) (tf_dst T) (jt_pushed j) (le_final (joint_env T (jt_eof j))) rest ?s"
      by (simp_all add: server_live_def server_receives_def server_hashes_def joint_env_def)
    have "length (sl_file ?s) = length (tf_src T)" using stores ok(1) by (simp add: server_stores_def)
    moreover have "rwa_inv (sl_write_buffer ?s) rwa \<and> sl_pos ?s + length (rwa_remaining (sl_write_buffer ?s) rwa) \<le> length (tf_src T)"
      if "sl_write_disk ?s = Some rwa" for rwa
      using stores that ok(1) by (simp add: server_stores_def piece_ok_def)
    ultimately show ?thesis using reader hash by (simp add: server_well_formed_def split: option.split)
  qed
qed

theorem session_well_formed_witness:
  "client_well_formed sample_transfer (jt_client (joint_start sample_transfer sample_script))
     \<and> server_well_formed sample_transfer (jt_server (joint_start sample_transfer sample_script))"
  using session_well_formed [OF sample_transfer_ok rtranclp.rtrancl_refl] by (simp add: joint_start_def)

end
