(* ===== verification/Shared_Work.thy ===== *)
theory Shared_Work
  imports Hash_File
begin

text \<open>
  The ordered channel under the work of a session: \<open>recv\<close> as an event loop polls it, the loans an event loop keeps, and
  blocks that are dealt out to the senders, each block to one of them and in increasing order.
\<close>

section \<open>Polling the receiver\<close>

text \<open>
  A poll of \<open>recv\<close>: the request, and then the queued value if there is one; otherwise the call is given up with the
  iteration of the loop that polled it.
\<close>

definition recv_poll :: "'v channel \<Rightarrow> 'v channel" where
  "recv_poll c =
     (let c = recv_request c in
      case queue c of
        [] \<Rightarrow> c\<lparr>receiver := Idle\<rparr>
      | x # q \<Rightarrow> recv_value x q c)"

text \<open>Of what was received, the loop keeps the loans of the blocks \<open>ks\<close> and drops the others.\<close>

definition drop_loans :: "nat list \<Rightarrow> 'v channel \<Rightarrow> 'v channel" where
  "drop_loans ks c = c\<lparr>lent := lent c \<inter> (fst ` set (queue c) \<union> set ks)\<rparr>"

definition all_exited :: "'v channel \<Rightarrow> bool" where
  "all_exited c \<longleftrightarrow> list_all (\<lambda>s. s_pc s = Exited) (senders c)"

lemma chan_reachable_steps: "chan_step\<^sup>*\<^sup>* c c' \<Longrightarrow> chan_reachable work c \<Longrightarrow> chan_reachable work c'"
  by (induction rule: rtranclp_induct) (simp, metis chan_reachable.step)

lemma recv_poll_steps:
  assumes "receiver c = Idle" and "unlocked c"
  shows "chan_step\<^sup>*\<^sup>* c (recv_poll c)"
proof -
  let ?r = "recv_request c"
  have r: "chan_step c ?r" by (rule chan_step.request [OF assms])
  have r': "receiver ?r = Receiving" "unlocked ?r"
    using assms(2) by (auto simp: recv_request_def unlocked_def notify_all_def)
  have "chan_step ?r (recv_poll c)"
    using chan_step.cancel [OF r'(1)] chan_step.deliver [OF r'(1) _ r'(2)]
    by (cases "queue ?r") (simp_all add: recv_poll_def)
  with r show ?thesis by (rule converse_rtranclp_into_rtranclp [OF _ r_into_rtranclp])
qed

lemma recv_poll_sel [simp]:
  "queue (recv_poll c) = tl (queue c)" "received (recv_poll c) = received c @ take 1 (queue c)"
  "lent (recv_poll c) = lent c" "receiver (recv_poll c) = Idle"
  "recv_closed (shared (recv_poll c)) = recv_closed (shared c)"
  "senders (recv_poll c) = (if receiving (shared c) then senders c else notify_all (senders c))"
  "queue c = [] \<Longrightarrow> receiving (shared (recv_poll c))"
  by (cases "queue c"; simp add: recv_poll_def recv_request_def recv_value_def Let_def)+

lemma drop_loans_sel [simp]:
  "queue (drop_loans ks c) = queue c" "received (drop_loans ks c) = received c"
  "lent (drop_loans ks c) = lent c \<inter> (fst ` set (queue c) \<union> set ks)" "receiver (drop_loans ks c) = receiver c"
  "shared (drop_loans ks c) = shared c" "senders (drop_loans ks c) = senders c" "inner_closed (drop_loans ks c) = inner_closed c"
  by (simp_all add: drop_loans_def)

lemma drop_loans_steps:
  assumes "finite D" and "D \<subseteq> fst ` set (received c)"
  shows "chan_step\<^sup>*\<^sup>* c (c\<lparr>lent := lent c - D\<rparr>)"
  using assms
proof (induction D rule: finite_induct)
  case (insert k D)
  let ?c = "c\<lparr>lent := lent c - D\<rparr>"
  from insert.prems obtain x where x: "x \<in> set (received ?c)" "fst x = k" by auto
  from chan_step.drop_loan [OF x(1)] x(2) have "chan_step ?c (c\<lparr>lent := lent c - insert k D\<rparr>)"
    by (simp add: insert_Diff_if Diff_insert [symmetric])
  with insert show ?case by (meson insert_subset rtranclp.rtrancl_into_rtrancl)
qed simp

lemma lent_sent:
  assumes "chan_reachable work c" and "distinct (map fst (concat work))"
  shows "lent c \<subseteq> sent_idx c"
proof
  fix i assume "i \<in> lent c"
  with lent_reclaiming [OF assms(1)] obtain j where j: "j < length (senders c)" "s_pc (senders c ! j) = Reclaiming i" by blast
  then show "i \<in> sent_idx c"
    using sender_ok_nth [OF chan_reachable_inv [OF assms] j(1)] by (simp add: sender_ok_def)
qed

lemma drop_loans_reachable:
  assumes c: "chan_reachable work c" and d: "distinct (map fst (concat work))"
  shows "chan_reachable work (drop_loans ks c)"
proof -
  let ?D = "lent c - (fst ` set (queue c) \<union> set ks)"
  have "finite ?D" using lent_card [OF c] by simp
  moreover have "?D \<subseteq> fst ` set (received c)" using lent_sent [OF c d] by (auto simp: sent_idx_def)
  ultimately have "chan_step\<^sup>*\<^sup>* c (c\<lparr>lent := lent c - ?D\<rparr>)" by (rule drop_loans_steps)
  moreover have "lent c - ?D = lent c \<inter> (fst ` set (queue c) \<union> set ks)" by blast
  ultimately show ?thesis using chan_reachable_steps [OF _ c] by (simp add: drop_loans_def)
qed

lemma all_exited_notify [simp]: "list_all (\<lambda>s. s_pc s = Exited) (notify_all ss) = list_all (\<lambda>s. s_pc s = Exited) ss"
  by (induction ss) (simp_all add: notify_all_def)

lemma set_pc_sel [simp]:
  "queue (set_pc i pc c) = queue c" "received (set_pc i pc c) = received c" "lent (set_pc i pc c) = lent c"
  "receiver (set_pc i pc c) = receiver c" "shared (set_pc i pc c) = shared c" "inner_closed (set_pc i pc c) = inner_closed c"
  "length (senders (set_pc i pc c)) = length (senders c)"
  by (simp_all add: set_pc_def)

text \<open>A step of a thread changes its program counter, or it puts the next value into the queue.\<close>

lemma thread_act_cases:
  assumes "thread_act i c = Some c'"
  obtains (move) pc where "c' = set_pc i pc c" "s_pc (senders c ! i) \<noteq> Exited"
      "pc = Checking \<Longrightarrow> s_pc (senders c ! i) = Running" "pc = Sleeping \<Longrightarrow> s_pc (senders c ! i) = Checking"
    | (push) idx v todo where "s_pc (senders c ! i) = Checking" "s_todo (senders c ! i) = (idx, v) # todo"
      "wanted_idx (shared c) = Some idx" "queue c = []"
      "c' = c\<lparr>queue := [(idx, v)], lent := insert idx (lent c),
         senders := (senders c)[i := \<lparr>s_pc = Reclaiming idx, s_todo = todo\<rparr>]\<rparr>"
proof -
  consider (pass) idx v todo where "s_pc (senders c ! i) = Checking" "s_todo (senders c ! i) = (idx, v) # todo"
      "c' = send_check i idx v todo c"
    | (other) pc where "c' = set_pc i pc c" "s_pc (senders c ! i) \<noteq> Exited" "pc = Checking \<Longrightarrow> s_pc (senders c ! i) = Running" "pc \<noteq> Sleeping"
    using assms by (auto simp: thread_act_def split: spc.splits if_splits list.splits)
  then show thesis
  proof cases
    case pass
    then show thesis using move [of Exited] move [of Blocked_Full] move [of Sleeping] push
      by (auto simp: send_check_def split: if_splits)
  next
    case other
    then show thesis using move by auto
  qed
qed

section \<open>Blocks dealt out to the senders\<close>

definition dealt :: "nat \<Rightarrow> (nat \<times> 'v) list list \<Rightarrow> bool" where
  "dealt n work \<longleftrightarrow> distinct (map fst (concat work)) \<and> fst ` set (concat work) = {..<n} \<and> list_all (\<lambda>w. sorted_wrt (<) (map fst w)) work"

lemma dealt_hash_work:
  assumes ok: "sizes_ok (length f) bs w" and n: "div_ceil (length f) (unat bs) < n"
  shows "dealt (div_ceil (length f) (unat bs)) (hash_work n C a f bs w)"
proof -
  have "0 < unat w" using ok by (simp add: sizes_ok_def word_less_nat_alt)
  then have "fst ` set (concat (hash_work n C a f bs w)) = {..<div_ceil (length f) (unat bs)}"
    unfolding hash_work_file [OF assms] by force
  moreover have "list_all (\<lambda>w. sorted_wrt (<) (map fst w)) (hash_work n C a f bs w)"
    unfolding hash_work_file [OF assms] by (simp add: list_all_iff o_def sorted_wrt_filter)
  ultimately show ?thesis using distinct_hash_work [OF assms] by (simp add: dealt_def)
qed

lemma dealt_inv: "dealt n work \<Longrightarrow> chan_reachable work c \<Longrightarrow> chan_inv work c"
  using chan_reachable_inv [of work c] unfolding dealt_def by blast

lemma dealt_unlocked:
  assumes "chan_inv work c"
  shows "unlocked c" "length (queue c) \<le> 1"
proof -
  have "s_pc s \<noteq> Blocked_Full" if "s \<in> set (senders c)" for s
    using that sender_ok_nth [OF assms] by (metis in_set_conv_nth sender_ok_def)
  then show "unlocked c" by (simp add: unlocked_def)
  show "length (queue c) \<le> 1" using assms by (auto simp: chan_inv_def)
qed

lemma sent_upto: "chan_inv work c \<Longrightarrow> sent_idx c = {..<length (received c) + length (queue c)}"
proof -
  assume inv: "chan_inv work c"
  then have "queue c = [] \<or> (\<exists>v. queue c = [(length (received c), v)])" by (auto simp: chan_inv_def)
  then show ?thesis using received_idx [OF inv] by (auto simp: sent_idx_def image_Un lessThan_Suc)
qed

lemma sent_bound:
  assumes "dealt n work" and inv: "chan_inv work c"
  shows "length (received c) + length (queue c) \<le> n"
proof -
  have "sent_idx c \<subseteq> fst ` set (concat work)" using inv by (auto simp: chan_inv_def sent_idx_def)
  also have "\<dots> = {..<n}" using assms(1) by (simp add: dealt_def)
  finally show ?thesis by (simp add: sent_upto [OF inv] lessThan_subset_iff)
qed

lemma todo_range:
  assumes d: "dealt n work" and inv: "chan_inv work c" and i: "i < length (senders c)" "x \<in> set (s_todo (senders c ! i))"
  shows "length (received c) + length (queue c) \<le> fst x \<and> fst x < n"
proof -
  have J: "i < length work" "sender_ok (shared c) (sent_idx c) (work ! i) (senders c ! i)"
    using sender_ok_nth [OF inv i(1)] by simp_all
  then have "x \<in> set (work ! i)" "fst x \<notin> sent_idx c" using i(2) by (auto simp: sender_ok_def dest: set_mono_suffix)
  moreover from this(1) have "x \<in> set (concat work)" using nth_mem [OF J(1)] by auto
  then have "fst x \<in> fst ` set (concat work)" by (rule imageI)
  with d have "fst x \<in> {..<n}" by (simp add: dealt_def)
  ultimately show ?thesis by (simp add: sent_upto [OF inv])
qed

text \<open>The next block is at the head of what its worker has to do.\<close>

lemma next_owner:
  assumes d: "dealt n work" and inv: "chan_inv work c" and n: "length (received c) + length (queue c) < n"
  obtains i v todo where "i < length (senders c)" "s_todo (senders c ! i) = (length (received c) + length (queue c), v) # todo"
proof -
  let ?n = "length (received c) + length (queue c)"
  have "?n \<in> fst ` set (concat work)" using n d by (simp add: dealt_def)
  then obtain v where "(?n, v) \<in> set (concat work)" by (metis imageE prod.collapse)
  then obtain w where "w \<in> set work" "(?n, v) \<in> set w" by auto
  then obtain i where i: "i < length work" "(?n, v) \<in> set (work ! i)" by (metis in_set_conv_nth)
  then have len: "i < length (senders c)" using inv by (auto simp: chan_inv_def dest: list_all2_lengthD)
  let ?s = "senders c ! i"
  have J: "sender_ok (shared c) (sent_idx c) (work ! i) ?s" using sender_ok_nth [OF inv len] by simp
  with i(2) have mem: "(?n, v) \<in> set (s_todo ?s)" by (auto simp: sender_ok_def sent_upto [OF inv])
  have "sorted_wrt (<) (map fst (work ! i))" using d nth_mem [OF i(1)] by (simp add: dealt_def list_all_iff)
  then have "sorted_wrt (<) (map fst (s_todo ?s))"
    using J by (auto simp: sender_ok_def suffix_def sorted_wrt_append)
  moreover obtain x todo where x: "s_todo ?s = x # todo" using mem by (cases "s_todo ?s") auto
  moreover have "?n \<le> fst x" using todo_range [OF d inv len, of x] x by simp
  ultimately have "fst x = ?n" using mem by fastforce
  with x len show thesis by (intro that [of i "snd x" todo]) (simp_all add: prod_eq_iff)
qed

lemma all_exited_sent:
  assumes d: "dealt n work" and inv: "chan_inv work c" and "all_exited c" and "\<not> recv_closed (shared c)"
  shows "length (received c) + length (queue c) = n"
proof -
  have "x \<notin> set (s_todo (senders c ! i))" if "i < length (senders c)" for i x
    using sender_ok_nth [OF inv that] assms(3,4) that by (auto simp: all_exited_def list_all_length sender_ok_def)
  with next_owner [OF d inv] have "\<not> length (received c) + length (queue c) < n" by (metis list.set_intros(1))
  with sent_bound [OF d inv] show ?thesis by simp
qed

text \<open>A thread whose value is asked for, and whose buffer has come back, puts it into the queue by its own steps.\<close>

lemma asked_thread_pushes:
  assumes inv: "chan_inv work c" and i: "i < length (senders c)" "s_todo (senders c ! i) = (length (received c), v) # todo"
    and asked: "receiving (shared c)" "queue c = []" "lent c = {}" "\<not> recv_closed (shared c)"
  shows "\<exists>c'. (\<lambda>c c'. thread_act i c = Some c')\<^sup>*\<^sup>* c c' \<and> queue c' = [(length (received c), v)]"
proof -
  let ?acts = "(\<lambda>c c'. thread_act i c = Some c')\<^sup>*\<^sup>*"
  have wanted: "wanted_idx (shared c) = Some (length (received c))" "\<not> inner_closed c"
    using inv asked(1,2,4) by (simp_all add: chan_inv_def)
  have S: "sender_ok (shared c) (sent_idx c) (work ! i) (senders c ! i)" using sender_ok_nth [OF inv i(1)] by simp
  have free: "unlocked (set_pc i pc c)" if "pc \<noteq> Blocked_Full" for pc
    using dealt_unlocked(1) [OF inv] that by (auto simp: unlocked_def set_pc_def dest: set_update_subset_insert [THEN subsetD])
  have check: "\<exists>c'. ?acts (set_pc i Checking c) c' \<and> queue c' = [(length (received c), v)]"
  proof (intro exI conjI r_into_rtranclp)
    have "s_pc (senders (set_pc i Checking c) ! i) = Checking"
      "s_todo (senders (set_pc i Checking c) ! i) = (length (received c), v) # todo" using i by (simp_all add: set_pc_def)
    then show "thread_act i (set_pc i Checking c) = Some (send_check i (length (received c)) v todo (set_pc i Checking c))"
      using i free [of Checking] by (simp add: thread_act_def)
  qed (use asked wanted in \<open>simp add: send_check_def\<close>)
  have running: "\<exists>c'. ?acts (set_pc i Running c) c' \<and> queue c' = [(length (received c), v)]"
  proof -
    have "thread_act i (set_pc i Running c) = Some (set_pc i Checking c)" using i by (simp add: thread_act_def set_pc_def)
    with check show ?thesis by (meson converse_rtranclp_into_rtranclp)
  qed
  have same: "set_pc i (s_pc (senders c ! i)) c = c" by (simp add: set_pc_def)
  show ?thesis
  proof (cases "s_pc (senders c ! i)")
    case (Reclaiming k)
    then have "thread_act i c = Some (set_pc i Running c)" using i asked(3) by (simp add: thread_act_def)
    with running show ?thesis by (meson converse_rtranclp_into_rtranclp)
  qed (use check running same S wanted asked(4) i in \<open>auto simp: sender_ok_def\<close>)
qed

end
