(* ===== verification/Server_Threads.thy ===== *)
theory Server_Threads
  imports Closed_Loop Shared_Work
begin

text \<open>
  The server half of a session with its worker threads and its ordered channel in full. \<open>Joint_System\<close> leaves open
  which worker reads which block and when a block is handed to the event loop; here it is the channel that decides: a
  worker reads the blocks of its share in turn, sends a block that it has read by the steps of \<open>OrderedSender::send\<close>,
  waits for the loan of its buffer to come back, and ends; a poll of the hash arm in the server's loop is a call of
  \<open>OrderedReceiver::recv\<close> that ends with the iteration; when the loop is left, \<open>HashStream::drop\<close> closes the
  receiver and joins the threads. A block is a value of this channel by its index only: what is sent with it is what its
  worker has read, in \<open>jt_seen\<close>.

  The theory holds this half of the system, the invariant that ties the channel to the workers and to the server's loop, that
  every step keeps it and is a step of the joint system or none, and that this half never blocks.
\<close>

section \<open>The system\<close>

record threaded =
  th_joint :: joint
  th_server :: "unit channel"       \<comment> \<open>the hashing of the destination\<close>
  th_client :: "hs_item channel"    \<comment> \<open>the hashing of the source\<close>

text \<open>The indices of the blocks each worker hashes, in its order.\<close>

definition tf_shares :: "transfer \<Rightarrow> (nat \<times> unit) list list" where
  "tf_shares T = map (map (\<lambda>x. (fst x, ())))
     (hash_work (Suc (tf_count T)) (tf_crates T) (tf_algorithm T) (tf_dst T) (tf_size T) (tf_workers T))"

text \<open>An iteration of the server's loop polls the hash stream when no arm before it fires and its guard holds.\<close>

definition hasher_polled :: "server_loop \<Rightarrow> bool" where
  "hasher_polled s =
     (case select_arms [server_arm_disk, server_arm_read, server_arm_write_hash] True s of
        (c, s') \<Rightarrow> c = Blocked \<and> sl_write_hash s' = None \<and> \<not> sl_hashing_done s')"

definition threaded_server :: "nat list \<Rightarrow> nat list \<Rightarrow> threaded \<Rightarrow> threaded" where
  "threaded_server gs ds f =
     f\<lparr>th_joint := server_turn gs ds (th_joint f),
       th_server := (if hasher_polled (server_granted gs ds (jt_server (th_joint f))) then drop_loans [] (recv_poll (th_server f)) else th_server f)\<rparr>"

text \<open>Has the worker read the whole of the block it is to send next?\<close>

definition block_read :: "transfer \<Rightarrow> joint \<Rightarrow> unit sender \<Rightarrow> bool" where
  "block_read T j s \<longleftrightarrow>
     (case s_todo s of
        [] \<Rightarrow> True
      | (k, v) # todo \<Rightarrow> length (jt_seen j k) = length (block_at (unat (tf_size T)) (tf_dst T) k))"

text \<open>What the event loop sees of a step of a thread: a value was queued, or the last sender was dropped.\<close>

definition after_thread :: "transfer \<Rightarrow> 'v channel \<Rightarrow> 'v channel \<Rightarrow> joint \<Rightarrow> joint" where
  "after_thread T c c' j =
     (if queue c' \<noteq> queue c then worker_pushes (tf_crates T) (tf_algorithm T) j
      else if all_exited c' \<and> \<not> jt_ended j \<and> jt_server_end j = None then workers_finish j
      else j)"

inductive backend_step :: "transfer \<Rightarrow> threaded \<Rightarrow> threaded \<Rightarrow> bool" for T where
  wire: "wire_step (th_joint f) j \<Longrightarrow> backend_step T f (f\<lparr>th_joint := j\<rparr>)"
| server: "server_may T (th_joint f) gs ds \<Longrightarrow> backend_step T f (threaded_server gs ds f)"
| reads: "i < length (senders (th_server f)) \<Longrightarrow> s_pc (senders (th_server f) ! i) = Running \<Longrightarrow>
    s_todo (senders (th_server f) ! i) = (k, v) # todo \<Longrightarrow>
    length (jt_seen (th_joint f) k) < length (block_at (unat (tf_size T)) (tf_dst T) k) \<Longrightarrow> 0 < n \<Longrightarrow>
    backend_step T f (f\<lparr>th_joint := worker_turn (unat (tf_size T)) k n (th_joint f)\<rparr>)"
| thread: "i < length (senders (th_server f)) \<Longrightarrow>
    s_pc (senders (th_server f) ! i) = Running \<longrightarrow> block_read T (th_joint f) (senders (th_server f) ! i) \<Longrightarrow>
    thread_act i (th_server f) = Some c \<Longrightarrow>
    backend_step T f (f\<lparr>th_joint := after_thread T (th_server f) c (th_joint f), th_server := c\<rparr>)"
| spurious: "i < length (senders (th_server f)) \<Longrightarrow> s_pc (senders (th_server f) ! i) = Sleeping \<Longrightarrow>
    backend_step T f (f\<lparr>th_server := set_pc i Checking (th_server f)\<rparr>)"
| drop: "jt_server_end (th_joint f) \<noteq> None \<Longrightarrow> receiver (th_server f) \<noteq> Closed \<Longrightarrow>
    backend_step T f (f\<lparr>th_server := recv_close (th_server f)\<rparr>)"

section \<open>An iteration of the server's loop\<close>

lemma select_arms_append:
  assumes "\<And>a s s'. a \<in> set as \<Longrightarrow> a s \<noteq> Fired Blocked s'"
  shows "\<exists>w'. select_arms (as @ bs) w s
    = (case select_arms as True s of (c, s') \<Rightarrow> if c = Blocked then select_arms bs w' s' else (c, s'))"
  using assms
proof (induction as arbitrary: w s)
  case (Cons a as)
  then have rec: "\<exists>w'. select_arms (as @ bs) w s
      = (case select_arms as True s of (c, s') \<Rightarrow> if c = Blocked then select_arms bs w' s' else (c, s'))" for w s
    by simp
  show ?case
  proof (cases "a s")
    case (Fired c t)
    then show ?thesis using Cons.prems [of a s t] by (cases c) auto
  qed (use rec in simp_all)
qed auto

text \<open>The arms before the hash stream leave it alone; what is taken from it is taken by its poll.\<close>

lemma early_arms_frame:
  "list_all (arm_keeps (\<lambda>s. sl_hasher s = h)) [server_arm_disk, server_arm_read, server_arm_write_hash]"
  "a \<in> set [server_arm_disk, server_arm_read, server_arm_write_hash] \<Longrightarrow> a s \<noteq> Fired Blocked s'"
  by (auto simp: arm_keeps_def server_arm_disk_def server_arm_read_def server_arm_write_hash_def Let_def
      split: option.splits prod.splits poll.splits sum.splits if_splits)

lemma server_select_polls:
  assumes sel: "server_select s = (c, s')" and h: "sl_hasher s = hs_script (hs_items (sl_hasher s)) ended"
  shows "hs_items (sl_hasher s') = (if hasher_polled s then tl (hs_items (sl_hasher s)) else hs_items (sl_hasher s))"
    and "hasher_polled s \<Longrightarrow> c \<noteq> Break"
proof -
  let ?early = "[server_arm_disk, server_arm_read, server_arm_write_hash]"
  obtain d t where early: "select_arms ?early True s = (d, t)" by fastforce
  have t: "sl_hasher t = sl_hasher s"
    using select_arms_keeps [OF early_arms_frame(1), of s "sl_hasher s" True] early by simp
  obtain w where w: "server_select s = (if d = Blocked then select_arms [server_arm_hasher] w t else (d, t))"
    using select_arms_append [of ?early "[server_arm_hasher]" False s] early_arms_frame(2) early
    by (auto simp: server_select_def)
  have polled: "hasher_polled s \<longleftrightarrow> d = Blocked \<and> sl_write_hash t = None \<and> \<not> sl_hashing_done t"
    using early by (simp add: hasher_polled_def)
  have "hs_items (sl_hasher s') = (if hasher_polled s then tl (hs_items (sl_hasher s)) else hs_items (sl_hasher s))
      \<and> (hasher_polled s \<longrightarrow> c \<noteq> Break)"
  proof (cases "hasher_polled s")
    case False
    then show ?thesis using sel w polled t by (auto simp: server_arm_hasher_def split: if_splits)
  next
    case True
    then have arm: "select_arms [server_arm_hasher] w t = (c, s')" using sel w polled by simp
    have g: "\<not> (sl_write_hash t \<noteq> None \<or> sl_hashing_done t)" using True polled by simp
    obtain its where its: "its = hs_items (sl_hasher s)" by simp
    then have "sl_hasher t = hs_script its ended" using t h by simp
    then have "hs_items (sl_hasher s') = tl its \<and> c \<noteq> Break"
      using arm g by (cases its; cases ended) (auto simp: server_arm_hasher_def)
    with True its show ?thesis by simp
  qed
  then show "hs_items (sl_hasher s') = (if hasher_polled s then tl (hs_items (sl_hasher s)) else hs_items (sl_hasher s))"
    and "hasher_polled s \<Longrightarrow> c \<noteq> Break" by auto
qed

section \<open>The shares of the workers\<close>

lemma tf_shares_eq:
  assumes "tf_ok T"
  shows "tf_shares T = map (\<lambda>i. map (\<lambda>k. (k, ())) (filter (\<lambda>k. k mod unat (tf_workers T) = i) [0..<tf_count T]))
    [0..<unat (tf_workers T)]"
  using assms hash_work_file [of "tf_dst T" "tf_size T" "tf_workers T" "Suc (tf_count T)"]
  by (simp add: tf_shares_def tf_ok_def o_def)

lemma dealt_indices: "dealt n (map (map (\<lambda>x. (fst x, ()))) work) = dealt n work"
proof -
  have "map fst (concat (map (map (\<lambda>x. (fst x, ()))) work)) = map fst (concat work)"
    and "fst ` set (concat (map (map (\<lambda>x. (fst x, ()))) work)) = fst ` set (concat work)"
    by (simp_all add: map_concat o_def image_image image_UN)
  then show ?thesis by (simp add: dealt_def list_all_iff o_def)
qed

lemma tf_shares_dealt:
  assumes "tf_ok T"
  shows "dealt (tf_count T) (tf_shares T)"
  using assms dealt_hash_work [of "tf_dst T" "tf_size T" "tf_workers T" "Suc (tf_count T)"]
  by (simp add: tf_shares_def dealt_indices tf_ok_def)

section \<open>The invariant\<close>

text \<open>Channel and workers: what was pushed went through the channel, and a worker in \<open>send\<close> has read its block.\<close>

definition chan_fits :: "transfer \<Rightarrow> joint \<Rightarrow> unit channel \<Rightarrow> bool" where
  "chan_fits T j c \<longleftrightarrow> chan_reachable (tf_shares T) c \<and> jt_pushed j = length (received c) + length (queue c)
     \<and> lent c \<subseteq> fst ` set (queue c)
     \<and> list_all (\<lambda>s. s_pc s = Checking \<or> s_pc s = Sleeping \<longrightarrow> block_read T j s) (senders c)"

text \<open>Channel and event loop: the loop sees what is queued, and the end when the last thread has ended.\<close>

definition hasher_fits :: "transfer \<Rightarrow> joint \<Rightarrow> unit channel \<Rightarrow> bool" where
  "hasher_fits T j c \<longleftrightarrow>
     (case jt_server_end j of
        None \<Rightarrow> length (hs_items (sl_hasher (jt_server j))) = length (queue c) \<and> (jt_ended j \<longleftrightarrow> all_exited c)
          \<and> receiver c = Idle \<and> \<not> recv_closed (shared c)
      | Some r \<Rightarrow> jt_pushed j = tf_count T \<and> queue c = []
          \<and> (if receiver c = Closed then recv_closed (shared c) else receiver c = Idle \<and> \<not> recv_closed (shared c)))"

definition backend_inv :: "transfer \<Rightarrow> threaded \<Rightarrow> bool" where
  "backend_inv T f \<longleftrightarrow> joint_inv T (th_joint f) \<and> chan_fits T (th_joint f) (th_server f) \<and> hasher_fits T (th_joint f) (th_server f)"

lemma block_read_frame: "jt_seen j' = jt_seen j \<Longrightarrow> block_read T j' = block_read T j"
  by (simp add: block_read_def fun_eq_iff split: list.split)

lemma chan_fits_frame:
  "jt_pushed j' = jt_pushed j \<Longrightarrow> jt_seen j' = jt_seen j \<Longrightarrow> chan_fits T j' c = chan_fits T j c"
  using block_read_frame [of j' j T] by (simp add: chan_fits_def)

lemma hasher_fits_frame:
  "jt_server_end j' = jt_server_end j \<Longrightarrow> sl_hasher (jt_server j') = sl_hasher (jt_server j) \<Longrightarrow> jt_ended j' = jt_ended j \<Longrightarrow>
   jt_pushed j' = jt_pushed j \<Longrightarrow> hasher_fits T j' c = hasher_fits T j c"
  by (simp add: hasher_fits_def cong: option.case_cong)

lemma fits_inv:
  assumes "tf_ok T" and "chan_fits T j c"
  shows "chan_inv (tf_shares T) c" "unlocked c" "length (queue c) \<le> 1" "jt_pushed j = length (received c) + length (queue c)"
proof -
  from assms(2) show inv: "chan_inv (tf_shares T) c" and "jt_pushed j = length (received c) + length (queue c)"
    using dealt_inv [OF tf_shares_dealt [OF assms(1)]] by (simp_all add: chan_fits_def)
  from dealt_unlocked [OF inv] show "unlocked c" "length (queue c) \<le> 1" .
qed

text \<open>While a block is left to send the server's loop is running.\<close>

lemma fits_running:
  assumes "tf_ok T" and "chan_fits T j c" and "hasher_fits T j c"
    and "i < length (senders c)" and "s_todo (senders c ! i) = (k, v) # todo"
  shows "jt_server_end j = None" "jt_pushed j \<le> k" "k < tf_count T"
proof -
  note I = fits_inv [OF assms(1,2)]
  have r: "length (received c) + length (queue c) \<le> k" "k < tf_count T"
    using todo_range [OF tf_shares_dealt [OF assms(1)] I(1) assms(4), of "(k, v)"] assms(5) by simp_all
  then show "jt_pushed j \<le> k" "k < tf_count T" using I(4) by simp_all
  then show "jt_server_end j = None" using assms(3) by (cases "jt_server_end j") (simp_all add: hasher_fits_def)
qed

section \<open>The steps\<close>

lemma wire_frame:
  assumes "wire_step j j'"
  shows "jt_pushed j' = jt_pushed j \<and> jt_seen j' = jt_seen j \<and> jt_ended j' = jt_ended j \<and> jt_server_end j' = jt_server_end j
    \<and> sl_hasher (jt_server j') = sl_hasher (jt_server j)"
  using assms
  by cases (simp_all add: deliver_to_client_def deliver_to_server_def client_closes_def)

lemma backend_wire:
  assumes "tf_ok T" and "backend_inv T f" and "wire_step (th_joint f) j"
  shows "backend_inv T (f\<lparr>th_joint := j\<rparr>)"
  using wire_frame [OF assms(3)] wire_step_keeps [OF assms(3,1)] assms(2)
    chan_fits_frame [of j "th_joint f"] hasher_fits_frame [of j "th_joint f"]
  by (simp add: backend_inv_def)

lemma backend_reads:
  assumes ok: "tf_ok T" and inv: "backend_inv T f" and i: "i < length (senders (th_server f))" "s_todo (senders (th_server f) ! i) = (k, v) # todo"
    and less: "length (jt_seen (th_joint f) k) < length (block_at (unat (tf_size T)) (tf_dst T) k)" and n: "0 < n"
  shows "backend_inv T (f\<lparr>th_joint := worker_turn (unat (tf_size T)) k n (th_joint f)\<rparr>)"
    and "joint_step T (th_joint f) (worker_turn (unat (tf_size T)) k n (th_joint f))"
    and "joint_todo T (worker_turn (unat (tf_size T)) k n (th_joint f)) < joint_todo T (th_joint f)"
proof -
  let ?j = "th_joint f" and ?c = "th_server f" and ?j' = "worker_turn (unat (tf_size T)) k n (th_joint f)"
  have J: "joint_inv T ?j" "chan_fits T ?j ?c" "hasher_fits T ?j ?c" using inv by (simp_all add: backend_inv_def)
  note run = fits_running [OF ok J(2,3) i]
  show "joint_step T ?j ?j'" by (rule joint_step.reads [OF run(1,3) less n])
  show "joint_todo T ?j' < joint_todo T ?j" by (rule joint_reads(2) [OF J(1) run(1,3) less n])
  have "block_read T ?j' s" if "block_read T ?j s" for s :: "unit sender"
    using that less by (auto simp: block_read_def worker_turn_def split: list.splits)
  then have "chan_fits T ?j' ?c" using J(2) by (auto simp: chan_fits_def list_all_iff worker_turn_def)
  moreover have "hasher_fits T ?j' ?c" using J(3) hasher_fits_frame [of ?j' ?j] by (simp add: worker_turn_def)
  ultimately show "backend_inv T (f\<lparr>th_joint := ?j'\<rparr>)"
    using joint_reads(1) [OF J(1) run(1,3) less n] by (simp add: backend_inv_def)
qed

text \<open>When the client is gone all hashes have been pushed, taken and sent.\<close>

lemma hashes_over:
  assumes "joint_inv T j" and "jt_server_end j = None" and "jt_eof j"
  shows "jt_pushed j = tf_count T" "hs_items (sl_hasher (jt_server j)) = []"
proof -
  let ?s = "jt_server j"
  have "length (tf_down T 0) \<le> jt_to_client j" "jt_to_client j \<le> length (snd (sl_tx ?s))"
    using joint_roles(2,3) [OF assms(1)] assms(1,3) by (simp_all add: joint_inv_def wires_ok_def)
  moreover have "snd (sl_tx ?s) @ hash_pending ?s @ hash_messages (hs_items (sl_hasher ?s)) @ tf_down T (jt_pushed j) = tf_down T 0"
    using server_running [OF assms(1,2)] by (auto simp: server_live_def server_hashes_def joint_env_def)
  from arg_cong [OF this, of length] have "length (snd (sl_tx ?s)) + (length (hash_pending ?s)
      + (length (hash_messages (hs_items (sl_hasher ?s))) + length (tf_down T (jt_pushed j)))) = length (tf_down T 0)" by simp
  ultimately have "length (hash_messages (hs_items (sl_hasher ?s))) = 0" "length (tf_down T (jt_pushed j)) = 0" by linarith+
  then have over: "hash_messages (hs_items (sl_hasher ?s)) = []" "tf_down T (jt_pushed j) = []" by simp_all
  show "hs_items (sl_hasher ?s) = []"
    using over(1) by (cases "hs_items (sl_hasher ?s)") (auto simp: hash_messages_def string_message_def)
  have "jt_pushed j \<le> tf_count T" using assms(1) by (simp add: joint_inv_def workers_ok_def)
  then show "jt_pushed j = tf_count T"
    using tf_down_less [of "jt_pushed j" "tf_count T" T] over(2) by (cases "jt_pushed j < tf_count T") simp_all
qed

lemma block_read_notify:
  assumes "list_all (\<lambda>s. s_pc s = Checking \<or> s_pc s = Sleeping \<longrightarrow> block_read T j s) ss"
  shows "list_all (\<lambda>s. s_pc s = Checking \<or> s_pc s = Sleeping \<longrightarrow> block_read T j s) (notify_all ss)"
  using assms by (induction ss) (simp_all add: notify_all_def block_read_def)

lemma recv_poll_fits:
  assumes ok: "tf_ok T" and fits: "chan_fits T j c" and idle: "receiver c = Idle"
  shows "chan_fits T j (drop_loans [] (recv_poll c))"
proof -
  note I = fits_inv [OF ok fits]
  have "chan_reachable (tf_shares T) (recv_poll c)"
    using chan_reachable_steps [OF recv_poll_steps [OF idle I(2)]] fits by (simp add: chan_fits_def)
  then have "chan_reachable (tf_shares T) (drop_loans [] (recv_poll c))"
    by (rule drop_loans_reachable) (use tf_shares_dealt [OF ok] in \<open>simp add: dealt_def\<close>)
  moreover have "queue c = [] \<or> (\<exists>x. queue c = [x])" using I(3) by (cases "queue c") auto
  ultimately show ?thesis using fits block_read_notify [of T j "senders c"] by (auto simp: chan_fits_def)
qed

lemma threaded_server_keeps:
  assumes ok: "tf_ok T" and inv: "backend_inv T f" and may: "server_may T (th_joint f) gs ds"
  shows "backend_inv T (threaded_server gs ds f)"
proof -
  let ?j = "th_joint f" and ?c = "th_server f" and ?j' = "server_turn gs ds (th_joint f)"
  let ?g = "server_granted gs ds (jt_server ?j)"
  let ?c' = "if hasher_polled ?g then drop_loans [] (recv_poll ?c) else ?c"
  have J: "joint_inv T ?j" "chan_fits T ?j ?c" "hasher_fits T ?j ?c" using inv by (simp_all add: backend_inv_def)
  have run: "jt_server_end ?j = None" using may by (simp add: server_may_def)
  obtain d s' where sel: "server_select ?g = (d, s')" by fastforce
  then have j': "jt_server ?j' = server_granted [] [] s'" "jt_server_end ?j' = loop_result d" "jt_pushed ?j' = jt_pushed ?j"
      "jt_seen ?j' = jt_seen ?j" "jt_ended ?j' = jt_ended ?j" "jt_eof ?j' = jt_eof ?j" by (simp_all add: server_turn_def)
  have inv': "joint_inv T ?j'" using joint_server(1) [OF ok J(1) run] may by (simp add: server_may_def)
  have hf: "length (hs_items (sl_hasher (jt_server ?j))) = length (queue ?c)" "jt_ended ?j \<longleftrightarrow> all_exited ?c"
    "receiver ?c = Idle" "\<not> recv_closed (shared ?c)" using J(3) run by (simp_all add: hasher_fits_def)
  have g: "sl_hasher ?g = sl_hasher (jt_server ?j)" "sl_hasher (jt_server ?j') = sl_hasher s'" by (simp_all add: server_granted_def j')
  have "sl_hasher ?g = hs_script (hs_items (sl_hasher ?g)) (jt_ended ?j)"
    using server_running [OF J(1) run] by (auto simp: server_live_def server_hashes_def g)
  from server_select_polls(1) [OF sel this]
  have items: "length (hs_items (sl_hasher (jt_server ?j'))) = length (queue ?c')" using hf(1) by (simp add: g)
  have rest: "all_exited ?c' = all_exited ?c" "receiver ?c' = Idle" "\<not> recv_closed (shared ?c')"
    using hf(3,4) by (simp_all add: all_exited_def)
  have "chan_fits T ?j' ?c'"
    using recv_poll_fits [OF ok J(2) hf(3)] J(2) chan_fits_frame [of ?j' ?j] j' by simp
  moreover have "hasher_fits T ?j' ?c'"
  proof (cases "jt_server_end ?j'")
    case None
    then show ?thesis using items rest hf(2) by (simp add: hasher_fits_def j')
  next
    case (Some r)
    then have "jt_eof ?j" using joint_roles(1) [OF inv'] j'(6) by simp
    from hashes_over [OF J(1) run this] hf(1) have "queue ?c' = []" "jt_pushed ?j' = tf_count T" by (simp_all add: j')
    with Some rest show ?thesis by (simp add: hasher_fits_def)
  qed
  ultimately show ?thesis using inv' by (simp add: backend_inv_def threaded_server_def)
qed

lemma set_pc_fits:
  assumes fits: "chan_fits T j c" and step: "chan_step c (set_pc i pc c)" and i: "i < length (senders c)"
    and read: "pc = Checking \<or> pc = Sleeping \<Longrightarrow> block_read T j (senders c ! i)"
  shows "chan_fits T j (set_pc i pc c)"
proof -
  have "chan_reachable (tf_shares T) (set_pc i pc c)" using fits step chan_reachable.step by (auto simp: chan_fits_def)
  moreover have "list_all (\<lambda>s. s_pc s = Checking \<or> s_pc s = Sleeping \<longrightarrow> block_read T j s) (senders (set_pc i pc c))"
    using fits i read by (simp add: chan_fits_def set_pc_def list_all_length nth_list_update block_read_def)
  ultimately show ?thesis using fits by (simp add: chan_fits_def)
qed

lemma thread_moves:
  assumes ok: "tf_ok T" and J: "joint_inv T j" "hasher_fits T j c" and fits: "chan_fits T j c'"
    and i: "i < length (senders c)" "s_pc (senders c ! i) \<noteq> Exited" and c': "c' = set_pc i pc c"
  shows "joint_inv T (after_thread T c c' j) \<and> chan_fits T (after_thread T c c' j) c' \<and> hasher_fits T (after_thread T c c' j) c'
    \<and> (joint_step T)\<^sup>*\<^sup>* j (after_thread T c c' j)"
proof (cases "all_exited c' \<and> jt_server_end j = None")
  case False
  then have "after_thread T c c' j = j" by (auto simp: after_thread_def c')
  moreover have "hasher_fits T j c'"
  proof (cases "jt_server_end j")
    case None
    moreover have "\<not> all_exited c" using i by (auto simp: all_exited_def list_all_length)
    ultimately show ?thesis using J(2) False by (simp add: hasher_fits_def c')
  next
    case (Some r)
    then show ?thesis using J(2) by (simp add: hasher_fits_def c')
  qed
  ultimately show ?thesis using J fits by simp
next
  case True
  have "\<not> all_exited c" using i by (auto simp: all_exited_def list_all_length)
  then have H: "\<not> jt_ended j" "length (hs_items (sl_hasher (jt_server j))) = length (queue c)" "receiver c = Idle"
    "\<not> recv_closed (shared c)" using J(2) True by (simp_all add: hasher_fits_def)
  have j': "after_thread T c c' j = workers_finish j" using True H(1) by (simp add: after_thread_def c')
  have "length (received c') + length (queue c') = tf_count T"
    by (rule all_exited_sent [OF tf_shares_dealt [OF ok] fits_inv(1) [OF ok fits]]) (use True H(4) in \<open>simp_all add: c'\<close>)
  then have p: "jt_pushed j = tf_count T" using fits_inv(4) [OF ok fits] by simp
  have "joint_step T j (workers_finish j)" by (rule joint_step.finish [OF _ p H(1)]) (use True in simp)
  moreover have "joint_inv T (workers_finish j)" by (rule joint_finish(1) [OF J(1) _ p H(1)]) (use True in simp)
  moreover have "chan_fits T (workers_finish j) c'" using fits chan_fits_frame [of "workers_finish j" j] by (simp add: workers_finish_def)
  moreover have "sl_hasher (jt_server j) = hs_script (hs_items (sl_hasher (jt_server j))) False"
    using server_running [OF J(1)] True H(1) by (auto simp: server_live_def server_hashes_def)
  then have "hasher_fits T (workers_finish j) c'"
    using True H by (simp add: hasher_fits_def workers_finish_def hs_items_push c')
  ultimately show ?thesis unfolding j' by auto
qed

lemma thread_pushes:
  assumes ok: "tf_ok T" and J: "joint_inv T j" "chan_fits T j c" "hasher_fits T j c" and step: "chan_step c c'"
    and i: "i < length (senders c)" "s_pc (senders c ! i) = Checking" "s_todo (senders c ! i) = (idx, v) # todo"
    and w: "wanted_idx (shared c) = Some idx" and q: "queue c = []"
    and c': "c' = c\<lparr>queue := [(idx, v)], lent := insert idx (lent c),
      senders := (senders c)[i := \<lparr>s_pc = Reclaiming idx, s_todo = todo\<rparr>]\<rparr>"
  shows "joint_inv T (after_thread T c c' j) \<and> chan_fits T (after_thread T c c' j) c' \<and> hasher_fits T (after_thread T c c' j) c'
    \<and> joint_step T j (after_thread T c c' j)"
    and "joint_todo T (after_thread T c c' j) < joint_todo T j"
proof -
  note run = fits_running [OF ok J(2,3) i(1,3)] and I = fits_inv [OF ok J(2)]
  have "idx = length (received c) \<or> received c \<noteq> [] \<and> idx = length (received c) - 1"
    using I(1) w by (simp add: chan_inv_def split: if_splits)
  moreover have "length (received c) \<le> idx" using run(2) I(4) by simp
  ultimately have p: "jt_pushed j = idx" using I(4) q by (cases "received c") simp_all
  have j': "after_thread T c c' j = worker_pushes (tf_crates T) (tf_algorithm T) j" (is "_ = ?j'")
    using q by (simp add: after_thread_def c')
  have "block_read T j (senders c ! i)" using J(2) i by (auto simp: chan_fits_def list_all_length)
  then have full: "length (jt_seen j (jt_pushed j)) = length (block_at (unat (tf_size T)) (tf_dst T) (jt_pushed j))"
    using i(3) p by (simp add: block_read_def)
  note lt = run(3) [folded p]
  show "joint_todo T (after_thread T c c' j) < joint_todo T j" unfolding j' by (rule joint_push(2) [OF J(1) run(1) lt full])
  have f: "jt_pushed ?j' = Suc (jt_pushed j)" "jt_seen ?j' = jt_seen j" "jt_ended ?j' = jt_ended j" "jt_server_end ?j' = jt_server_end j"
    by (simp_all add: worker_pushes_def Let_def)
  have "chan_reachable (tf_shares T) c'" using J(2) step chan_reachable.step by (auto simp: chan_fits_def)
  moreover have "list_all (\<lambda>s. s_pc s = Checking \<or> s_pc s = Sleeping \<longrightarrow> block_read T ?j' s) (senders c')"
    using J(2) i(1) block_read_frame [OF f(2)] by (simp add: chan_fits_def c' list_all_length nth_list_update)
  ultimately have "chan_fits T ?j' c'" using J(2) f(1) q by (simp add: chan_fits_def c')
  moreover have H: "\<not> jt_ended j" using J(1) lt by (auto simp: joint_inv_def workers_ok_def)
  then have "sl_hasher (jt_server j) = hs_script (hs_items (sl_hasher (jt_server j))) False"
    using server_running [OF J(1) run(1)] by (auto simp: server_live_def server_hashes_def)
  then have "length (hs_items (sl_hasher (jt_server ?j'))) = Suc (length (hs_items (sl_hasher (jt_server j))))"
    by (simp add: worker_pushes_def Let_def hs_items_push)
  moreover have "\<not> all_exited c'" using i(1) by (auto simp: all_exited_def c' list_all_length intro!: exI [of _ i])
  ultimately have "chan_fits T ?j' c'" "hasher_fits T ?j' c'" using J(3) run(1) f H q by (simp_all add: hasher_fits_def c')
  then show "joint_inv T (after_thread T c c' j) \<and> chan_fits T (after_thread T c c' j) c' \<and> hasher_fits T (after_thread T c c' j) c'
      \<and> joint_step T j (after_thread T c c' j)"
    unfolding j' using joint_push(1) [OF J(1) run(1) lt full] joint_step.push [OF run(1) lt full] by simp
qed

lemma backend_thread:
  assumes ok: "tf_ok T" and inv: "backend_inv T f" and i: "i < length (senders (th_server f))"
    and read: "s_pc (senders (th_server f) ! i) = Running \<longrightarrow> block_read T (th_joint f) (senders (th_server f) ! i)"
    and act: "thread_act i (th_server f) = Some c"
  shows "backend_inv T (f\<lparr>th_joint := after_thread T (th_server f) c (th_joint f), th_server := c\<rparr>)
    \<and> (joint_step T)\<^sup>*\<^sup>* (th_joint f) (after_thread T (th_server f) c (th_joint f))"
proof -
  have J: "joint_inv T (th_joint f)" "chan_fits T (th_joint f) (th_server f)" "hasher_fits T (th_joint f) (th_server f)"
    using inv by (simp_all add: backend_inv_def)
  note step = thread_act_step [OF act]
  from act show ?thesis
  proof (cases rule: thread_act_cases)
    case (move pc)
    have "block_read T (th_joint f) (senders (th_server f) ! i)" if "pc = Checking \<or> pc = Sleeping"
      using that move(3,4) read J(2) i by (auto simp: chan_fits_def list_all_length)
    then have "chan_fits T (th_joint f) c" using set_pc_fits [OF J(2) _ i] step move(1) by simp
    from thread_moves [OF ok J(1,3) this i move(2,1)] show ?thesis by (simp add: backend_inv_def)
  next
    case (push idx v todo)
    from thread_pushes(1) [OF ok J step i push] show ?thesis by (simp add: backend_inv_def r_into_rtranclp)
  qed
qed

lemma backend_spurious:
  assumes inv: "backend_inv T f" and i: "i < length (senders (th_server f))" "s_pc (senders (th_server f) ! i) = Sleeping"
  shows "backend_inv T (f\<lparr>th_server := set_pc i Checking (th_server f)\<rparr>)"
proof -
  have J: "joint_inv T (th_joint f)" "chan_fits T (th_joint f) (th_server f)" "hasher_fits T (th_joint f) (th_server f)"
    using inv by (simp_all add: backend_inv_def)
  have "block_read T (th_joint f) (senders (th_server f) ! i)" using J(2) i by (auto simp: chan_fits_def list_all_length)
  with set_pc_fits [OF J(2) chan_step.spurious [OF i] i(1)] have "chan_fits T (th_joint f) (set_pc i Checking (th_server f))" by simp
  moreover have "all_exited (set_pc i Checking (th_server f)) = all_exited (th_server f)"
    using i by (auto simp: all_exited_def set_pc_def list_all_length nth_list_update)
  then have "hasher_fits T (th_joint f) (set_pc i Checking (th_server f))"
    using J(3) by (simp add: hasher_fits_def split: option.splits)
  ultimately show ?thesis using J(1) by (simp add: backend_inv_def)
qed

lemma backend_drop:
  assumes ok: "tf_ok T" and inv: "backend_inv T f" and "jt_server_end (th_joint f) \<noteq> None" and "receiver (th_server f) \<noteq> Closed"
  shows "backend_inv T (f\<lparr>th_server := recv_close (th_server f)\<rparr>)"
proof -
  let ?c = "th_server f" and ?c' = "recv_close (th_server f)"
  have J: "joint_inv T (th_joint f)" "chan_fits T (th_joint f) ?c" "hasher_fits T (th_joint f) ?c"
    using inv by (simp_all add: backend_inv_def)
  have "chan_step ?c ?c'" by (rule chan_step.close [OF assms(4) fits_inv(2) [OF ok J(2)]])
  then have "chan_reachable (tf_shares T) ?c'" using J(2) chan_reachable.step by (auto simp: chan_fits_def)
  then have "chan_fits T (th_joint f) ?c'"
    using J(2) block_read_notify [of T "th_joint f" "senders ?c"] by (simp add: chan_fits_def recv_close_def)
  moreover have "hasher_fits T (th_joint f) ?c'" using J(3) assms(3) by (auto simp: hasher_fits_def recv_close_def)
  ultimately show ?thesis using J(1) by (simp add: backend_inv_def)
qed

lemma backend_step_keeps:
  assumes "backend_step T f f'" and ok: "tf_ok T" and inv: "backend_inv T f"
  shows "backend_inv T f' \<and> (joint_step T)\<^sup>*\<^sup>* (th_joint f) (th_joint f')"
  using assms(1)
proof cases
  case (wire j)
  then show ?thesis using backend_wire [OF ok inv] joint_step.wire by auto
next
  case (server gs ds)
  then show ?thesis
    using threaded_server_keeps [OF ok inv] joint_step.server by (auto simp: threaded_server_def)
next
  case (reads i k v todo n)
  then show ?thesis using backend_reads [OF ok inv] by auto
next
  case (thread i c)
  then show ?thesis using backend_thread [OF ok inv] by auto
next
  case (spurious i)
  then show ?thesis using backend_spurious [OF inv] by auto
next
  case drop
  then show ?thesis using backend_drop [OF ok inv] by auto
qed

lemma backend_steps_keep:
  assumes "(backend_step T)\<^sup>*\<^sup>* f f'" and "tf_ok T" and "backend_inv T f"
  shows "backend_inv T f' \<and> (joint_step T)\<^sup>*\<^sup>* (th_joint f) (th_joint f')"
  using assms(1)
proof (induction rule: rtranclp_induct)
  case base
  then show ?case using assms(3) by simp
next
  case (step g f')
  with backend_step_keeps [OF step.hyps(2) assms(2)] show ?case by (meson rtranclp_trans)
qed

section \<open>The server half can always go on\<close>

text \<open>When the server has nothing else to do its loop polls the hash stream.\<close>

lemma idle_server_polls:
  assumes inv: "joint_inv T j" and w: "server_wants_hash T j"
  shows "hasher_polled (server_granted [] [] (jt_server j))"
proof -
  let ?g = "server_granted [] [] (jt_server j)" and ?E = "joint_env T (jt_eof j)"
  have W: "jt_server_end j = None" "jt_pushed j < tf_count T" "sl_write_disk ?g = None" "bytes_of (sl_rx ?g) = []" "\<not> le_eof ?E"
    "sl_write_hash ?g = None"
    using w by (simp_all add: server_wants_hash_def server_granted_def joint_env_def)
  obtain room rest where live: "server_live ?E room (jt_pushed j) (drop (jt_to_server j) (tf_up T 0)) (tf_down T (jt_pushed j)) (jt_ended j)
      rest ?g" using server_running [OF inv W(1)] server_live_granted [of _ _ _ _ _ _ _ _ "[]" "[]"] by (metis list.pred_inject(1))
  have off: "server_arm_disk ?g = Off" using W(3) by (simp add: server_arm_disk_def)
  obtain t where t: "server_arm_read ?g = Waiting t" "sl_write_hash t = None"
      "server_live ?E room (jt_pushed j) (drop (jt_to_server j) (tf_up T 0)) (tf_down T (jt_pushed j)) (jt_ended j) rest t"
    using live_receive [OF live] W(3-6) by (cases "server_arm_read ?g") (auto simp: server_stored_all_def)
  have "server_arm_write_hash t = Off" using t(2) by (simp add: server_arm_write_hash_def)
  moreover have "\<not> jt_ended j" using inv W(2) by (auto simp: joint_inv_def workers_ok_def)
  then have "\<not> sl_hashing_done t" using t(3) by (auto simp: server_live_def server_hashes_def)
  ultimately show ?thesis using off t(1,2) by (simp add: hasher_polled_def)
qed

text \<open>The worker whose block is asked for: it reads the block, calls \<open>send\<close> and passes.\<close>

definition asked :: "transfer \<Rightarrow> nat \<Rightarrow> threaded \<Rightarrow> bool" where
  "asked T i f \<longleftrightarrow> backend_inv T f \<and> jt_server_end (th_joint f) = None \<and> receiving (shared (th_server f)) \<and> queue (th_server f) = []
     \<and> i < length (senders (th_server f)) \<and> (\<exists>todo. s_todo (senders (th_server f) ! i) = (jt_pushed (th_joint f), ()) # todo)"

lemma asked_facts:
  assumes ok: "tf_ok T" and a: "asked T i f"
  shows "sender_ok (shared (th_server f)) (sent_idx (th_server f)) (tf_shares T ! i) (senders (th_server f) ! i)"
    "unlocked (th_server f)" "\<not> recv_closed (shared (th_server f))" "\<not> inner_closed (th_server f)" "lent (th_server f) = {}"
    "wanted_idx (shared (th_server f)) = Some (jt_pushed (th_joint f))"
proof -
  have J: "chan_fits T (th_joint f) (th_server f)" "hasher_fits T (th_joint f) (th_server f)" "queue (th_server f) = []"
    "receiving (shared (th_server f))" "jt_server_end (th_joint f) = None" "i < length (senders (th_server f))"
    using a by (simp_all add: asked_def backend_inv_def)
  note I = fits_inv [OF ok J(1)]
  show "sender_ok (shared (th_server f)) (sent_idx (th_server f)) (tf_shares T ! i) (senders (th_server f) ! i)"
    using sender_ok_nth [OF I(1) J(6)] by simp
  show "unlocked (th_server f)" by (rule I(2))
  show c: "\<not> recv_closed (shared (th_server f))" using J(2,5) by (simp add: hasher_fits_def)
  show "\<not> inner_closed (th_server f)" "wanted_idx (shared (th_server f)) = Some (jt_pushed (th_joint f))"
    using I(1,4) J(3,4) c by (simp_all add: chan_inv_def)
  show "lent (th_server f) = {}" using J(1,3) by (simp add: chan_fits_def)
qed

text \<open>A step of this worker that only changes its program counter leaves it asked.\<close>

lemma asked_moves:
  assumes ok: "tf_ok T" and a: "asked T i f" and act: "thread_act i (th_server f) = Some (set_pc i pc (th_server f))" and pc: "pc \<noteq> Exited"
    and read: "s_pc (senders (th_server f) ! i) = Running \<Longrightarrow> block_read T (th_joint f) (senders (th_server f) ! i)"
  shows "backend_step T f (f\<lparr>th_server := set_pc i pc (th_server f)\<rparr>) \<and> asked T i (f\<lparr>th_server := set_pc i pc (th_server f)\<rparr>)"
proof -
  let ?c = "set_pc i pc (th_server f)"
  have i: "i < length (senders (th_server f))" and inv: "backend_inv T f" using a by (simp_all add: asked_def)
  have "\<not> all_exited ?c" using i pc by (auto simp: all_exited_def list_all_length set_pc_def intro!: exI [of _ i])
  then have same: "after_thread T (th_server f) ?c (th_joint f) = th_joint f" by (simp add: after_thread_def)
  have "backend_step T f (f\<lparr>th_joint := th_joint f, th_server := ?c\<rparr>)"
    using backend_step.thread [of i f T, OF i _ act] read unfolding same by blast
  then have step: "backend_step T f (f\<lparr>th_server := ?c\<rparr>)" by simp
  then have "backend_inv T (f\<lparr>th_server := ?c\<rparr>)" using backend_step_keeps [OF _ ok inv] by blast
  then have "asked T i (f\<lparr>th_server := ?c\<rparr>)" using a by (simp add: asked_def set_pc_def)
  with step show ?thesis by blast
qed

definition goes_on :: "transfer \<Rightarrow> threaded \<Rightarrow> bool" where
  "goes_on T f \<longleftrightarrow> (\<exists>f'. (backend_step T)\<^sup>*\<^sup>* f f' \<and> joint_todo T (th_joint f') < joint_todo T (th_joint f))"

lemma goes_on_step: "backend_step T f f' \<Longrightarrow> joint_todo T (th_joint f') < joint_todo T (th_joint f) \<Longrightarrow> goes_on T f"
  unfolding goes_on_def by blast

lemma goes_on_after:
  "backend_step T f f' \<Longrightarrow> joint_todo T (th_joint f') \<le> joint_todo T (th_joint f) \<Longrightarrow> goes_on T f' \<Longrightarrow> goes_on T f"
  unfolding goes_on_def by (meson converse_rtranclp_into_rtranclp order_less_le_trans)

lemma asked_checking:
  assumes ok: "tf_ok T" and a: "asked T i f" and pc: "s_pc (senders (th_server f) ! i) = Checking"
  shows "goes_on T f"
proof -
  note A = asked_facts [OF ok a]
  have i: "i < length (senders (th_server f))" and q: "queue (th_server f) = []"
    and J: "joint_inv T (th_joint f)" "chan_fits T (th_joint f) (th_server f)" "hasher_fits T (th_joint f) (th_server f)"
    using a by (simp_all add: asked_def backend_inv_def)
  obtain todo where todo: "s_todo (senders (th_server f) ! i) = (jt_pushed (th_joint f), ()) # todo" using a by (auto simp: asked_def)
  let ?c = "(th_server f)\<lparr>queue := [(jt_pushed (th_joint f), ())], lent := insert (jt_pushed (th_joint f)) (lent (th_server f)),
      senders := (senders (th_server f))[i := \<lparr>s_pc = Reclaiming (jt_pushed (th_joint f)), s_todo = todo\<rparr>]\<rparr>"
  have act: "thread_act i (th_server f) = Some ?c"
    using i pc todo q A(2,3,4,6) by (simp add: thread_act_def send_check_def)
  have step: "backend_step T f (f\<lparr>th_joint := after_thread T (th_server f) ?c (th_joint f), th_server := ?c\<rparr>)"
    by (rule backend_step.thread [OF i _ act]) (use pc in simp)
  show ?thesis
    by (rule goes_on_step [OF step]) (use thread_pushes(2) [OF ok J thread_act_step [OF act] i pc todo A(6) q refl] in simp)
qed

lemma asked_running:
  assumes ok: "tf_ok T" and a: "asked T i f" and pc: "s_pc (senders (th_server f) ! i) = Running"
  shows "goes_on T f"
proof -
  let ?j = "th_joint f" and ?k = "jt_pushed (th_joint f)"
  have i: "i < length (senders (th_server f))" and inv: "backend_inv T f" using a by (simp_all add: asked_def)
  obtain todo where todo: "s_todo (senders (th_server f) ! i) = (?k, ()) # todo" using a by (auto simp: asked_def)
  have "prefix (jt_seen ?j ?k) (block_at (unat (tf_size T)) (tf_dst T) ?k)"
    using inv by (simp add: backend_inv_def joint_inv_def workers_ok_def)
  from prefix_length_le [OF this] consider (reading) "length (jt_seen ?j ?k) < length (block_at (unat (tf_size T)) (tf_dst T) ?k)"
    | (full) "length (jt_seen ?j ?k) = length (block_at (unat (tf_size T)) (tf_dst T) ?k)" by linarith
  then show ?thesis
  proof cases
    case reading
    from goes_on_step [OF backend_step.reads [OF i pc todo reading, of 1]] backend_reads(3) [OF ok inv i todo reading, of 1]
    show ?thesis by simp
  next
    case full
    then have "block_read T ?j (senders (th_server f) ! i)" using todo by (simp add: block_read_def)
    moreover have "thread_act i (th_server f) = Some (set_pc i Checking (th_server f))"
      using i pc todo by (simp add: thread_act_def)
    ultimately have m: "backend_step T f (f\<lparr>th_server := set_pc i Checking (th_server f)\<rparr>)"
      "asked T i (f\<lparr>th_server := set_pc i Checking (th_server f)\<rparr>)" using asked_moves [OF ok a] by simp_all
    have "goes_on T (f\<lparr>th_server := set_pc i Checking (th_server f)\<rparr>)"
      by (rule asked_checking [OF ok m(2)]) (use i in \<open>simp add: set_pc_def\<close>)
    from goes_on_after [OF m(1) _ this] show ?thesis by simp
  qed
qed

lemma asked_goes_on:
  assumes ok: "tf_ok T" and a: "asked T i f"
  shows "goes_on T f"
proof -
  note A = asked_facts [OF ok a]
  have i: "i < length (senders (th_server f))" using a by (simp add: asked_def)
  obtain todo where todo: "s_todo (senders (th_server f) ! i) = (jt_pushed (th_joint f), ()) # todo" using a by (auto simp: asked_def)
  show ?thesis
  proof (cases "s_pc (senders (th_server f) ! i)")
    case (Reclaiming idx)
    then have "thread_act i (th_server f) = Some (set_pc i Running (th_server f))" using i A(5) by (simp add: thread_act_def)
    then have m: "backend_step T f (f\<lparr>th_server := set_pc i Running (th_server f)\<rparr>)"
      "asked T i (f\<lparr>th_server := set_pc i Running (th_server f)\<rparr>)" using asked_moves [OF ok a] Reclaiming by simp_all
    have "goes_on T (f\<lparr>th_server := set_pc i Running (th_server f)\<rparr>)"
      by (rule asked_running [OF ok m(2)]) (use i in \<open>simp add: set_pc_def\<close>)
    from goes_on_after [OF m(1) _ this] show ?thesis by simp
  qed (use asked_checking [OF ok a] asked_running [OF ok a] A(1,3,6) todo in \<open>simp_all add: sender_ok_def\<close>)
qed

lemma wants_hash_goes_on:
  assumes ok: "tf_ok T" and inv: "backend_inv T f" and w: "server_wants_hash T (th_joint f)"
  shows "goes_on T f"
proof -
  let ?j = "th_joint f" and ?f = "threaded_server [] [] f"
  have J: "joint_inv T ?j" "chan_fits T ?j (th_server f)" "hasher_fits T ?j (th_server f)" using inv by (simp_all add: backend_inv_def)
  have W: "jt_server_end ?j = None" "jt_pushed ?j < tf_count T" "\<not> jt_eof ?j" "hs_items (sl_hasher (jt_server ?j)) = []"
    using w by (simp_all add: server_wants_hash_def)
  have may: "server_may T ?j [] []" using W(1) by (simp add: server_may_def)
  note step = backend_step.server [OF may]
  have inv': "backend_inv T ?f" by (rule threaded_server_keeps [OF ok inv may])
  have j': "jt_pushed (th_joint ?f) = jt_pushed ?j" "jt_eof (th_joint ?f) = jt_eof ?j"
    by (simp_all add: threaded_server_def server_turn_def split: prod.split)
  have run: "jt_server_end (th_joint ?f) = None"
    using joint_roles(1) [of T "th_joint ?f"] inv' W(3) j'(2) unfolding backend_inv_def by blast
  have c: "th_server ?f = drop_loans [] (recv_poll (th_server f))" using idle_server_polls [OF J(1) w] by (simp add: threaded_server_def)
  have "queue (th_server f) = []" using J(3) W(1,4) by (simp add: hasher_fits_def)
  then have q: "queue (th_server ?f) = []" "receiving (shared (th_server ?f))" by (simp_all add: c)
  have fits: "chan_fits T (th_joint ?f) (th_server ?f)" using inv' by (simp add: backend_inv_def)
  note I = fits_inv [OF ok fits]
  obtain i v todo where "i < length (senders (th_server ?f))" "s_todo (senders (th_server ?f) ! i) = (jt_pushed (th_joint ?f), v) # todo"
    using next_owner [OF tf_shares_dealt [OF ok] I(1)] I(4) W(2) j'(1) by metis
  then have "asked T i ?f" using inv' run q by (simp add: asked_def)
  then have "goes_on T ?f" by (rule asked_goes_on [OF ok])
  moreover have "joint_todo T (th_joint ?f) \<le> joint_todo T ?j"
    using joint_server(2) [OF ok J(1) W(1), of "[]" "[]"] by (simp add: threaded_server_def)
  ultimately show ?thesis using goes_on_after [OF step] by blast
qed

section \<open>The end of a session\<close>

text \<open>Once the loop is left and the receiver closed, every thread ends: no buffer is lent out, and nobody is left in \<open>send\<close>.\<close>

lemma thread_exits:
  assumes ok: "tf_ok T" and inv: "backend_inv T f" and over: "jt_server_end (th_joint f) \<noteq> None" "receiver (th_server f) = Closed"
    and going: "\<not> all_exited (th_server f)"
  obtains c where "backend_step T f (f\<lparr>th_server := c\<rparr>)" "receiver c = Closed" "join_todo c < join_todo (th_server f)"
proof -
  let ?j = "th_joint f" and ?c = "th_server f"
  have J: "chan_fits T ?j ?c" "hasher_fits T ?j ?c" using inv by (simp_all add: backend_inv_def)
  have "dropping (tf_shares T) ?c"
    using fits_inv(1) [OF ok J(1)] J over by (auto simp: dropping_def hasher_fits_def chan_fits_def)
  note D = this
  from going obtain i where i: "i < length (senders ?c)" "s_pc (senders ?c ! i) \<noteq> Exited"
    by (auto simp: all_exited_def list_all_length)
  obtain c where c: "thread_act i ?c = Some c" "chan_step ?c c" "join_todo c < join_todo ?c" by (rule thread_act_exits [OF D i])
  have todo: "s_todo (senders ?c ! i) = []"
    using fits_running(1) [OF ok J i(1)] over(1) by (cases "s_todo (senders ?c ! i)") auto
  have same: "queue c = queue ?c" by (rule thread_act_cases [OF c(1)]) (use todo in simp_all)
  have "after_thread T ?c c ?j = ?j" using over(1) same by (auto simp: after_thread_def)
  then have "backend_step T f (f\<lparr>th_server := c\<rparr>)"
    using backend_step.thread [OF i(1) _ c(1), of T] todo by (simp add: block_read_def)
  moreover have "receiver c = Closed" using dropping_step [OF c(2) D] tf_shares_dealt [OF ok] unfolding dropping_def dealt_def by blast
  ultimately show thesis using that c(3) by blast
qed

lemma server_threads_join:
  assumes ok: "tf_ok T"
  shows "backend_inv T f \<Longrightarrow> jt_server_end (th_joint f) \<noteq> None \<Longrightarrow> receiver (th_server f) = Closed \<Longrightarrow>
    \<exists>c. (backend_step T)\<^sup>*\<^sup>* f (f\<lparr>th_server := c\<rparr>) \<and> receiver c = Closed \<and> all_exited c"
proof (induction "join_todo (th_server f)" arbitrary: f rule: less_induct)
  case less
  show ?case
  proof (cases "all_exited (th_server f)")
    case True
    then show ?thesis using less.prems(3) by (intro exI [of _ "th_server f"]) simp
  next
    case False
    from thread_exits [OF ok less.prems False] obtain c where
      c: "backend_step T f (f\<lparr>th_server := c\<rparr>)" "receiver c = Closed" "join_todo c < join_todo (th_server f)" .
    have "backend_inv T (f\<lparr>th_server := c\<rparr>)" using backend_step_keeps [OF c(1) ok less.prems(1)] by blast
    with less.hyps [of "f\<lparr>th_server := c\<rparr>"] c(2,3) less.prems(2) obtain d where
      "(backend_step T)\<^sup>*\<^sup>* (f\<lparr>th_server := c\<rparr>) (f\<lparr>th_server := d\<rparr>)" "receiver d = Closed" "all_exited d" by auto
    with c(1) show ?thesis by (meson converse_rtranclp_into_rtranclp)
  qed
qed

lemma server_drops:
  assumes ok: "tf_ok T" and inv: "backend_inv T f" and over: "jt_server_end (th_joint f) \<noteq> None"
  shows "\<exists>c. (backend_step T)\<^sup>*\<^sup>* f (f\<lparr>th_server := c\<rparr>) \<and> receiver c = Closed \<and> all_exited c"
proof (cases "receiver (th_server f) = Closed")
  case True
  then show ?thesis using server_threads_join [OF ok inv over] by blast
next
  case False
  let ?f = "f\<lparr>th_server := recv_close (th_server f)\<rparr>"
  have "backend_step T f ?f" by (rule backend_step.drop [OF over False])
  moreover have "\<exists>c. (backend_step T)\<^sup>*\<^sup>* ?f (?f\<lparr>th_server := c\<rparr>) \<and> receiver c = Closed \<and> all_exited c"
    by (rule server_threads_join [OF ok backend_drop [OF ok inv over False]]) (use over in \<open>simp_all add: recv_close_def\<close>)
  ultimately show ?thesis by (auto intro: converse_rtranclp_into_rtranclp)
qed

end
