(* ===== verification/Client_Threads.thy ===== *)
theory Client_Threads
  imports Server_Threads
begin

text \<open>
  The client half of a session with its worker threads and its ordered channel, and with it the whole system. The workers
  hash the source, which nobody changes, so that reading and hashing a block is part of the step with which its worker calls
  \<open>send\<close>. A poll of the hash arm in the client's loop is a call of \<open>OrderedReceiver::recv\<close>. Unlike the server, the
  client keeps the buffer of a block that differs until the block is written to the socket; until then the worker that owns
  it cannot go on, and the hashing of the source is held back by the connection.

  In the joint system the hash stream of the client is a script. Here there is none: what an iteration is offered is
  what is in the queue of the channel. The theory holds the system, how an iteration depends on the script, and what the client
  holds.
\<close>

section \<open>The system\<close>

definition tf_work :: "transfer \<Rightarrow> (nat \<times> hs_item) list list" where
  "tf_work T = hash_work (Suc (tf_count T)) (tf_crates T) (tf_algorithm T) (tf_src T) (tf_size T) (opt_workers (tf_options T))"

definition threaded_start :: "transfer \<Rightarrow> threaded" where
  "threaded_start T = \<lparr>th_joint = joint_start T [], th_server = ordered_channel (tf_shares T), th_client = ordered_channel (tf_work T)\<rparr>"

text \<open>What \<open>HashStream::recv\<close> would return now: the queued value, the end when all senders are gone, or nothing yet.\<close>

definition offer :: "hs_item channel \<Rightarrow> hs_event list" where
  "offer c =
     (case queue c of
        [] \<Rightarrow> if all_exited c then [HsEnd] else []
      | (k, i, hash, data) # q \<Rightarrow> [HsItem i hash data])"

definition with_script :: "hs_event list \<Rightarrow> joint \<Rightarrow> joint" where
  "with_script hs j = j\<lparr>jt_client := (jt_client j)\<lparr>cl_hasher := hs\<rparr>\<rparr>"

text \<open>An iteration of the client's loop polls the hash stream when no arm before it fires and its guard holds.\<close>

definition early_select :: "client_loop \<Rightarrow> ctl \<times> client_loop" where
  "early_select s = select_arms client_early True s"

definition client_polls :: "client_loop \<Rightarrow> bool" where
  "client_polls s =
     (case early_select s of
        (c, s') \<Rightarrow> c = Blocked \<and> cl_remote_hashes s' \<noteq> [] \<and> \<not> cl_hash_comparison_over s')"

text \<open>The blocks whose buffers the client holds: the one that is being written, and those that wait for it.\<close>

definition client_held :: "client_loop \<Rightarrow> nat list" where
  "client_held s =
     (case cl_write_block s of None \<Rightarrow> [] | Some rwb \<Rightarrow> [unat (rwfb_offset rwb) div unat (cl_block_size s)])
     @ map (unat \<circ> fst) (cl_blocks_idx_to_send s)"

text \<open>
  One iteration. The loans of the blocks that the client no longer holds are dropped; when the loop is left, its variables go
  out of scope and all are.
\<close>

definition threaded_client :: "bool \<Rightarrow> nat list \<Rightarrow> threaded \<Rightarrow> threaded" where
  "threaded_client t gs f =
     (let j = with_script (offer (th_client f)) (th_joint f);
          j' = client_turn t gs j;
          held = (if jt_client_end j' = None then client_held (jt_client j') else []);
          c = (if client_polls (client_granted [t] gs (jt_client j)) then recv_poll (th_client f) else th_client f) in
      f\<lparr>th_joint := with_script [] j', th_client := drop_loans held c\<rparr>)"

inductive threaded_step :: "transfer \<Rightarrow> threaded \<Rightarrow> threaded \<Rightarrow> bool" for T where
  client: "client_may T (th_joint f) gs \<Longrightarrow> threaded_step T f (threaded_client t gs f)"
| backend: "backend_step T f f' \<Longrightarrow> threaded_step T f f'"
| thread: "i < length (senders (th_client f)) \<Longrightarrow> thread_act i (th_client f) = Some c \<Longrightarrow>
    threaded_step T f (f\<lparr>th_client := c\<rparr>)"
| spurious: "i < length (senders (th_client f)) \<Longrightarrow> s_pc (senders (th_client f) ! i) = Sleeping \<Longrightarrow>
    threaded_step T f (f\<lparr>th_client := set_pc i Checking (th_client f)\<rparr>)"
| drop: "jt_client_end (th_joint f) \<noteq> None \<Longrightarrow> receiver (th_client f) \<noteq> Closed \<Longrightarrow>
    threaded_step T f (f\<lparr>th_client := recv_close (th_client f)\<rparr>)"

text \<open>The end: both loops are left and all threads have been joined.\<close>

definition threaded_done :: "threaded \<Rightarrow> bool" where
  "threaded_done f \<longleftrightarrow> joint_done (th_joint f) \<and> receiver (th_server f) = Closed \<and> all_exited (th_server f)
     \<and> receiver (th_client f) = Closed \<and> all_exited (th_client f)"

section \<open>An iteration and its script\<close>

text \<open>The arms before the hash stream do not look at it.\<close>

lemma early_arm_script:
  assumes "a \<in> set client_early"
  shows "a (s\<lparr>cl_hasher := h\<rparr>) = map_arm (\<lambda>s. s\<lparr>cl_hasher := h\<rparr>) (a s)"
proof -
  have "client_arm_timer (s\<lparr>cl_hasher := h\<rparr>) = map_arm (\<lambda>s. s\<lparr>cl_hasher := h\<rparr>) (client_arm_timer s)"
    by (simp add: client_arm_timer_def split: prod.split bool.split)
  moreover have "client_arm_write (s\<lparr>cl_hasher := h\<rparr>) = map_arm (\<lambda>s. s\<lparr>cl_hasher := h\<rparr>) (client_arm_write s)"
    by (cases s) (auto simp: client_arm_write_def prepare_next_write_block_def Let_def split: prod.split option.split poll.split list.split)
  moreover have "client_arm_read (s\<lparr>cl_hasher := h\<rparr>) = map_arm (\<lambda>s. s\<lparr>cl_hasher := h\<rparr>) (client_arm_read s)"
    by (simp add: client_arm_read_def Let_def split: prod.split poll.split sum.split)
  ultimately show ?thesis using assms by auto
qed

lemma early_script:
  "set as \<subseteq> set client_early \<Longrightarrow> select_arms as w (s\<lparr>cl_hasher := h\<rparr>)
     = (case select_arms as w s of (c, s') \<Rightarrow> (c, s'\<lparr>cl_hasher := h\<rparr>))"
proof (induction as arbitrary: w s)
  case (Cons a as)
  then have "a (s\<lparr>cl_hasher := h\<rparr>) = map_arm (\<lambda>s. s\<lparr>cl_hasher := h\<rparr>) (a s)" by (intro early_arm_script) simp
  with Cons show ?case by (cases "a s") simp_all
qed simp

lemma early_select_script [simp]:
  "early_select (s\<lparr>cl_hasher := h\<rparr>) = (case early_select s of (c, s') \<Rightarrow> (c, s'\<lparr>cl_hasher := h\<rparr>))"
  unfolding early_select_def by (rule early_script) simp

lemma client_polls_script [simp]: "client_polls (s\<lparr>cl_hasher := h\<rparr>) = client_polls s"
  by (simp add: client_polls_def split: prod.split)

lemma early_not_blocked: "a \<in> set client_early \<Longrightarrow> a s \<noteq> Fired Blocked s'"
  by (auto simp: client_arm_timer_def client_arm_write_def client_arm_read_def Let_def
      split: option.splits prod.splits poll.splits sum.splits if_splits bool.splits)

lemma select_waiting_append:
  assumes "\<And>a s s'. a \<in> set as \<Longrightarrow> a s \<noteq> Fired Blocked s'"
  shows "select_arms (as @ bs) True s
    = (case select_arms as True s of (c, s') \<Rightarrow> if c = Blocked then select_arms bs True s' else (c, s'))"
  using assms
proof (induction as arbitrary: s)
  case (Cons a as)
  show ?case
  proof (cases "a s")
    case (Fired c t)
    then show ?thesis using Cons.prems [of a s t] by (cases c) auto
  qed (use Cons in simp_all)
qed simp

lemma client_select_eq:
  "client_select s = (case early_select s of
     (c, s') \<Rightarrow> if c = Blocked then select_arms [client_arm_hasher] True s' else (c, s'))"
proof -
  have "client_arm_timer s \<noteq> Off" by (simp add: client_arm_timer_def split: prod.split bool.split)
  then have "client_select s = select_arms (client_early @ [client_arm_hasher]) True s"
    by (cases "client_arm_timer s") (simp_all add: client_select_def)
  also have "\<dots> = (case early_select s of (c, s') \<Rightarrow> if c = Blocked then select_arms [client_arm_hasher] True s' else (c, s'))"
    unfolding early_select_def by (rule select_waiting_append) (rule early_not_blocked)
  finally show ?thesis .
qed

text \<open>An iteration that does not poll the stream, or to which the stream offers nothing, is one of the early arms.\<close>

lemma client_select_pending:
  assumes "\<not> client_polls s \<or> h = []"
  shows "client_select (s\<lparr>cl_hasher := h\<rparr>) = (case early_select s of (c, s') \<Rightarrow> (c, s'\<lparr>cl_hasher := h\<rparr>))"
  using assms
  by (auto simp: client_select_eq client_polls_def client_arm_hasher_def split: prod.splits)

lemma client_select_waits:
  assumes "client_polls s"
  shows "client_select (s\<lparr>cl_hasher := HsWait # h\<rparr>) = (case early_select s of (c, s') \<Rightarrow> (c, s'\<lparr>cl_hasher := h\<rparr>))"
  using assms
  by (auto simp: client_select_eq client_polls_def client_arm_hasher_def split: prod.splits)

lemma compare_script: "client_compare (s\<lparr>cl_hasher := h\<rparr>) hash data = (client_compare s hash data)\<lparr>cl_hasher := h\<rparr>"
  by (cases s) (simp add: client_compare_def prepare_next_write_block_def Let_def split: list.split prod.split)

text \<open>When the stream offers a block, the rest of the script does not matter.\<close>

lemma client_select_item:
  assumes "client_polls s"
  shows "client_select (s\<lparr>cl_hasher := HsItem i hash data # h\<rparr>)
    = (case client_select (s\<lparr>cl_hasher := [HsItem i hash data]\<rparr>) of (c, s') \<Rightarrow> (c, s'\<lparr>cl_hasher := h\<rparr>))"
proof -
  obtain d t where e: "early_select s = (d, t)" by fastforce
  then have d: "d = Blocked" "cl_remote_hashes t \<noteq> []" "\<not> cl_hash_comparison_over t" using assms by (simp_all add: client_polls_def)
  have sel: "client_select (s\<lparr>cl_hasher := g\<rparr>) = select_arms [client_arm_hasher] True (t\<lparr>cl_hasher := g\<rparr>)" for g
    by (simp add: client_select_eq e d(1))
  show ?thesis
    unfolding sel using d(2,3) by (simp add: client_arm_hasher_def compare_script Let_def)
qed

lemma with_script_sel [simp]:
  "jt_client (with_script hs j) = (jt_client j)\<lparr>cl_hasher := hs\<rparr>" "jt_client_end (with_script hs j) = jt_client_end j"
  "jt_server (with_script hs j) = jt_server j" "jt_server_end (with_script hs j) = jt_server_end j"
  "jt_to_client (with_script hs j) = jt_to_client j" "jt_to_server (with_script hs j) = jt_to_server j"
  "jt_eof (with_script hs j) = jt_eof j" "jt_seen (with_script hs j) = jt_seen j"
  "jt_pushed (with_script hs j) = jt_pushed j" "jt_ended (with_script hs j) = jt_ended j"
  "with_script hs (with_script hs' j) = with_script hs j"
  "client_backlog (with_script hs j) = client_backlog j" "server_backlog (with_script hs j) = server_backlog j"
  "client_may T (with_script hs j) gs = client_may T j gs" "server_may T (with_script hs j) gs ds = server_may T j gs ds"
  by (simp_all add: with_script_def client_backlog_def server_backlog_def client_may_def server_may_def)

lemma granted_script [simp]: "client_granted ts gs (s\<lparr>cl_hasher := hs\<rparr>) = (client_granted ts gs s)\<lparr>cl_hasher := hs\<rparr>"
  by (cases s) (simp add: client_granted_def)

lemma joint_eqI_script:
  "with_script hs (j\<lparr>jt_client := s, jt_client_end := e\<rparr>) = j\<lparr>jt_client := s\<lparr>cl_hasher := hs\<rparr>, jt_client_end := e\<rparr>"
  "(with_script hs j)\<lparr>jt_client := s, jt_client_end := e\<rparr> = j\<lparr>jt_client := s, jt_client_end := e\<rparr>"
  by (simp_all add: with_script_def)

text \<open>
  What an iteration does with the offer of the channel it does in the joint system with a script, for every continuation
  \<open>r\<close> of that script.
\<close>

definition script_before :: "bool \<Rightarrow> hs_item channel \<Rightarrow> hs_event list \<Rightarrow> hs_event list" where
  "script_before polled c r =
     (if \<not> polled then r
      else case queue c of [] \<Rightarrow> HsWait # r | (k, i, hash, data) # q \<Rightarrow> HsItem i hash data # r)"

lemma client_turn_script:
  assumes "polled = client_polls (client_granted [t] gs (jt_client j))" and "\<not> (polled \<and> queue c = [] \<and> all_exited c)"
  shows "client_turn t gs (with_script (script_before polled c r) j) = with_script r (client_turn t gs (with_script (offer c) j))"
proof -
  let ?s = "client_granted [t] gs (jt_client j)"
  have "client_select (?s\<lparr>cl_hasher := script_before polled c r\<rparr>)
      = (case client_select (?s\<lparr>cl_hasher := offer c\<rparr>) of (d, u) \<Rightarrow> (d, u\<lparr>cl_hasher := r\<rparr>))"
  proof (cases "\<not> polled \<or> queue c = []")
    case True
    then have "\<not> client_polls ?s \<or> offer c = []" using assms by (auto simp: offer_def)
    note offered = client_select_pending [OF this]
    show ?thesis
    proof (cases polled)
      case False
      then show ?thesis using offered client_select_pending [of ?s r] assms(1) by (simp add: script_before_def split: prod.split)
    next
      case polls: True
      then show ?thesis using True offered client_select_waits [of ?s r] assms(1) by (simp add: script_before_def split: prod.split)
    qed
  next
    case False
    then obtain k i hash data q where q: "queue c = (k, i, hash, data) # q" by (metis list.exhaust prod_cases4)
    then show ?thesis using False client_select_item [of ?s i hash data r] assms(1) by (simp add: script_before_def offer_def)
  qed
  then show ?thesis by (simp add: client_turn_def joint_eqI_script split: prod.split)
qed

text \<open>Without a block from the channel the iteration is one of the early arms.\<close>

lemma client_turn_early:
  assumes "\<not> client_polls (client_granted [t] gs (jt_client j)) \<or> queue c = [] \<and> \<not> all_exited c"
    and "early_select (client_granted [t] gs (jt_client (with_script r j))) = (d, u)"
  shows "with_script r (client_turn t gs (with_script (offer c) j)) = j\<lparr>jt_client := client_granted [] [] u, jt_client_end := loop_result d\<rparr>"
proof -
  let ?s = "client_granted [t] gs (jt_client j)"
  obtain e v where e: "early_select ?s = (e, v)" by fastforce
  with assms(2) have u: "d = e" "u = v\<lparr>cl_hasher := r\<rparr>" by simp_all
  have "\<not> client_polls ?s \<or> offer c = []" using assms(1) by (auto simp: offer_def)
  from client_select_pending [OF this] e show ?thesis by (simp add: client_turn_def joint_eqI_script u)
qed

text \<open>The invariant of the joint system depends on the script only by the blocks it still has.\<close>

lemma joint_inv_script:
  assumes "joint_inv T j" and "hs_items hs = hs_items (cl_hasher (jt_client j))" and "hs_no_error hs"
  shows "joint_inv T (with_script hs j)"
proof -
  have "client_ok T (with_script hs j)"
    using assms
    by (auto simp: joint_inv_def client_ok_def client_live_def client_listens_def client_counts_def client_sent_all_def Let_def
        split: option.splits)
  then show ?thesis using assms(1) joint_frame(2,3) [of "with_script hs j" j] by (simp add: joint_inv_def wires_ok_def)
qed

section \<open>What the client holds\<close>

lemma held_frame [simp]:
  "client_held (s\<lparr>cl_hasher := h\<rparr>) = client_held s" "client_held (s\<lparr>cl_timer := ts\<rparr>) = client_held s"
  "client_held (s\<lparr>cl_tx := w\<rparr>) = client_held s" "client_held (s\<lparr>cl_hash_comparison_over := b\<rparr>) = client_held s"
  "client_held (s\<lparr>cl_rx := es\<rparr>) = client_held s" "client_held (s\<lparr>cl_read_string := rs\<rparr>) = client_held s"
  "client_held (s\<lparr>cl_remote_hashes := hs\<rparr>) = client_held s" "client_held (s\<lparr>cl_remote_hashes_done := b\<rparr>) = client_held s"
  "client_held (s\<lparr>cl_progress := ps\<rparr>) = client_held s" "client_held (s\<lparr>cl_block_idx := k\<rparr>) = client_held s"
  "client_held (client_granted ts gs s) = client_held s"
  by (simp_all add: client_held_def client_granted_def cong: option.case_cong)

text \<open>The offset of a block tells its index, as long as it does not overflow.\<close>

definition offsets_fit :: "usize \<Rightarrow> nat list \<Rightarrow> bool" where
  "offsets_fit bs ks \<longleftrightarrow> 0 < unat bs \<and> (\<forall>k \<in> set ks. k * unat bs < 2 ^ 64)"

lemma offset_index:
  assumes "offsets_fit bs [unat idx]"
  shows "unat (idx * bs) div unat bs = unat idx"
proof -
  have "unat (idx * bs) = unat idx * unat bs" using assms by (simp add: offsets_fit_def unat_word_ariths)
  then show ?thesis using assms by (simp add: offsets_fit_def)
qed

lemma held_prepare:
  assumes "offsets_fit (cl_block_size s) (map (unat \<circ> fst) (cl_blocks_idx_to_send s))"
  shows "client_held (prepare_next_write_block s) = client_held s"
  using assms offset_index [of "cl_block_size s"]
  by (auto simp: prepare_next_write_block_def client_held_def rwfb_new_def offsets_fit_def split: list.splits)

lemma write_to_offset: "rwfb_write_to s w = (p, s', w') \<Longrightarrow> rwfb_offset s' = rwfb_offset s"
  by (auto simp: rwfb_write_to_def rwfb_init_def rwfb_header_def Let_def split: prod.splits poll.splits sum.splits if_splits)

text \<open>The early arms only let go of blocks, in the order in which they were taken.\<close>

definition held_within :: "nat list \<Rightarrow> usize \<Rightarrow> usize \<Rightarrow> client_loop \<Rightarrow> bool" where
  "held_within ks bs idx s \<longleftrightarrow> suffix (client_held s) ks \<and> cl_block_size s = bs \<and> cl_block_idx s = idx"

lemma held_write:
  assumes "offsets_fit bs ks"
  shows "arm_keeps (held_within ks bs idx) client_arm_write"
  unfolding arm_keeps_def
proof (intro allI impI)
  fix s assume h: "held_within ks bs idx s"
  show "case client_arm_write s of Off \<Rightarrow> True | Waiting t \<Rightarrow> held_within ks bs idx t | Fired c t \<Rightarrow> held_within ks bs idx t"
  proof (cases "cl_write_block s")
    case (Some rwb)
    obtain p rwb' w where r: "rwfb_write_to rwb (cl_tx s) = (p, rwb', w)" by (metis prod_cases3)
    let ?t = "s\<lparr>cl_tx := w, cl_write_block := None\<rparr>"
    have H: "client_held s = unat (rwfb_offset rwb) div unat bs # client_held ?t"
      using h Some by (simp add: client_held_def held_within_def)
    then have t: "suffix (client_held ?t) ks" using h by (auto simp: held_within_def suffix_def)
    then have "set (client_held ?t) \<subseteq> set ks" by (rule set_mono_suffix)
    then have "offsets_fit (cl_block_size ?t) (map (unat \<circ> fst) (cl_blocks_idx_to_send ?t))"
      using assms h unfolding offsets_fit_def held_within_def client_held_def by auto
    from held_prepare [OF this] t h have "held_within ks bs idx (prepare_next_write_block ?t)" "held_within ks bs idx ?t"
      by (simp_all add: held_within_def)
    moreover have "held_within ks bs idx (s\<lparr>cl_tx := w, cl_write_block := Some rwb'\<rparr>)"
      using h Some write_to_offset [OF r] by (auto simp: held_within_def client_held_def)
    ultimately show ?thesis using Some r by (auto simp: client_arm_write_def Let_def split: poll.split)
  qed (simp add: client_arm_write_def)
qed

lemma held_early:
  assumes "offsets_fit bs ks" and "held_within ks bs idx s" and "early_select s = (c, s')"
  shows "held_within ks bs idx s'"
proof -
  have "arm_keeps (held_within ks bs idx) client_arm_timer" "arm_keeps (held_within ks bs idx) client_arm_read"
    by (auto simp: arm_keeps_def held_within_def client_arm_timer_def client_arm_read_def Let_def
        split: prod.splits bool.splits poll.splits sum.splits)
  with held_write [OF assms(1)] have "list_all (arm_keeps (held_within ks bs idx)) client_early" by simp
  from select_arms_keeps [OF this assms(2), of True] assms(3) show ?thesis by (simp add: early_select_def)
qed

text \<open>A block that differs is taken; the next index is due.\<close>

lemma held_compare:
  assumes "offsets_fit (cl_block_size s) (client_held s @ [unat (cl_block_idx s)])" and "cl_remote_hashes s \<noteq> []"
  shows "\<exists>ks. (ks = [] \<or> ks = [unat (cl_block_idx s)]) \<and> client_held (client_compare s hash data) = client_held s @ ks"
proof -
  obtain remote rest where r: "cl_remote_hashes s = remote # rest" using assms(2) by (cases "cl_remote_hashes s") auto
  let ?t = "s\<lparr>cl_remote_hashes := rest, cl_blocks_idx_to_send := cl_blocks_idx_to_send s @ [(cl_block_idx s, data)]\<rparr>"
  have "offsets_fit (cl_block_size ?t) (map (unat \<circ> fst) (cl_blocks_idx_to_send ?t))"
    using assms(1) by (auto simp: offsets_fit_def client_held_def)
  from held_prepare [OF this] have "client_held (prepare_next_write_block ?t) = client_held s @ [unat (cl_block_idx s)]"
    by (simp add: client_held_def cong: option.case_cong)
  with r show ?thesis
    by (cases "hash = remote") (auto simp: client_compare_def Let_def intro: exI [of _ "[]"] exI [of _ "[unat (cl_block_idx s)]"])
qed

lemma iteration_held:
  assumes fit: "offsets_fit (cl_block_size s) (client_held s @ [unat (cl_block_idx s)])"
    and sel: "client_select (s\<lparr>cl_hasher := offer c\<rparr>) = (d, u)" and "\<not> (client_polls s \<and> queue c = [] \<and> all_exited c)"
  shows "\<exists>G ks. suffix G (client_held s) \<and> client_held u = G @ ks
    \<and> (if client_polls s \<and> queue c \<noteq> [] then ks = [] \<or> ks = [unat (cl_block_idx s)] else ks = [])"
proof -
  let ?bs = "cl_block_size s" and ?idx = "cl_block_idx s"
  obtain e t where e: "early_select s = (e, t)" by fastforce
  have "held_within (client_held s) ?bs ?idx s" by (simp add: held_within_def)
  from held_early [OF _ this e] fit have t: "suffix (client_held t) (client_held s)" "cl_block_size t = ?bs" "cl_block_idx t = ?idx"
    by (simp_all add: held_within_def offsets_fit_def)
  show ?thesis
  proof (cases "client_polls s \<and> queue c \<noteq> []")
    case False
    then have "\<not> client_polls s \<or> offer c = []" using assms(3) by (auto simp: offer_def)
    from client_select_pending [OF this] sel e have "client_held u = client_held t" by auto
    with t(1) False show ?thesis by (intro exI [of _ "client_held t"] exI [of _ "[]"]) auto
  next
    case True
    then have e': "e = Blocked" "cl_remote_hashes t \<noteq> []" "\<not> cl_hash_comparison_over t" using e by (simp_all add: client_polls_def)
    from True obtain k i hash data q where q: "queue c = (k, i, hash, data) # q" by (metis list.exhaust prod_cases4)
    let ?t = "t\<lparr>cl_hasher := []\<rparr>"
    have u: "client_held u = client_held (client_compare ?t hash data)"
      using sel e e' q by (auto simp: client_select_eq client_arm_hasher_def offer_def Let_def split: if_splits)
    have "offsets_fit (cl_block_size ?t) (client_held ?t @ [unat (cl_block_idx ?t)])"
      using fit t set_mono_suffix [OF t(1)] by (auto simp: offsets_fit_def)
    from held_compare [OF this, of hash data] e'(2) t(3) obtain ks where
      "ks = [] \<or> ks = [unat ?idx]" "client_held u = client_held t @ ks" unfolding u by auto
    with t(1) True show ?thesis by (intro exI [of _ "client_held t"] exI [of _ ks]) simp
  qed
qed

section \<open>The invariant\<close>

text \<open>The script of the joint system that belongs to a state: the blocks the client has not received.\<close>

definition client_script :: "transfer \<Rightarrow> hs_item channel \<Rightarrow> hs_event list" where
  "client_script T c = hs_script (drop (length (received c)) (tf_items T)) False"

definition rescript :: "hs_event list \<Rightarrow> threaded \<Rightarrow> threaded" where
  "rescript h f = f\<lparr>th_joint := with_script h (th_joint f)\<rparr>"

definition scripted :: "transfer \<Rightarrow> threaded \<Rightarrow> threaded" where
  "scripted T f = rescript (client_script T (th_client f)) f"

lemma rescript_sel [simp]:
  "th_joint (rescript h f) = with_script h (th_joint f)" "th_server (rescript h f) = th_server f" "th_client (rescript h f) = th_client f"
  "rescript h (rescript h' f) = rescript h f"
  by (simp_all add: rescript_def)

text \<open>Channel and event loop: lent out are the queued block and those the client holds, all of them received before.\<close>

definition client_fits :: "transfer \<Rightarrow> joint \<Rightarrow> hs_item channel \<Rightarrow> bool" where
  "client_fits T j c \<longleftrightarrow> chan_reachable (tf_work T) c \<and> cl_hasher (jt_client j) = []
     \<and> (case jt_client_end j of
          None \<Rightarrow> lent c = fst ` set (queue c) \<union> set (client_held (jt_client j))
            \<and> sorted_wrt (<) (client_held (jt_client j) @ [length (received c)]) \<and> receiver c = Idle \<and> \<not> recv_closed (shared c)
        | Some r \<Rightarrow> lent c = {} \<and> length (received c) = tf_count T
            \<and> (if receiver c = Closed then recv_closed (shared c) else receiver c = Idle \<and> \<not> recv_closed (shared c)))"

definition threaded_inv :: "transfer \<Rightarrow> threaded \<Rightarrow> bool" where
  "threaded_inv T f \<longleftrightarrow> backend_inv T (scripted T f) \<and> client_fits T (th_joint f) (th_client f)"

lemma hs_no_error_script [simp]: "hs_no_error (hs_script its ended)"
  by (induction its) (auto simp: hs_script_def)

lemma client_script_items [simp]:
  "hs_items (client_script T c) = drop (length (received c)) (tf_items T)" "hs_no_error (client_script T c)"
  by (simp_all add: client_script_def hs_items_script)

lemma tf_work_dealt:
  assumes "tf_ok T"
  shows "dealt (tf_count T) (tf_work T)"
  using assms dealt_hash_work [of "tf_src T" "tf_size T" "opt_workers (tf_options T)" "Suc (tf_count T)"]
  by (simp add: tf_work_def tf_ok_def)

lemma tf_work_value:
  assumes "tf_ok T" and "(k, item) \<in> set (concat (tf_work T))"
  shows "k < tf_count T" "item = tf_items T ! k"
proof -
  from assms have "k < tf_count T \<and> item = hash_item (tf_crates T) (tf_algorithm T) (unat (tf_size T)) (tf_src T) k"
    using hash_work_file [of "tf_src T" "tf_size T" "opt_workers (tf_options T)" "Suc (tf_count T)"]
    by (auto simp: tf_work_def tf_ok_def)
  then show "k < tf_count T" "item = tf_items T ! k"
    using assms(1) by (simp_all add: tf_items_def hash_items_def tf_ok_size)
qed

lemma fits_client:
  assumes "tf_ok T" and "client_fits T j c"
  shows "chan_inv (tf_work T) c" "unlocked c" "length (received c) + length (queue c) \<le> tf_count T"
proof -
  show inv: "chan_inv (tf_work T) c"
    using assms(2) dealt_inv [OF tf_work_dealt [OF assms(1)]] by (simp add: client_fits_def)
  show "unlocked c" by (rule dealt_unlocked(1) [OF inv])
  show "length (received c) + length (queue c) \<le> tf_count T" by (rule sent_bound [OF tf_work_dealt [OF assms(1)] inv])
qed

text \<open>The queue holds the next block of the script.\<close>

lemma queue_next:
  assumes "tf_ok T" and "client_fits T j c" and "queue c = (k, i, hash, data) # q"
  shows "k = length (received c)" "q = []" "drop (length (received c)) (tf_items T) = (i, hash, data) # drop (Suc (length (received c))) (tf_items T)"
proof -
  note I = fits_client [OF assms(1,2)]
  from I(1) assms(3) show k: "k = length (received c)" "q = []" by (auto simp: chan_inv_def)
  have "(k, i, hash, data) \<in> set (concat (tf_work T))" using I(1) assms(3) by (auto simp: chan_inv_def)
  note V = tf_work_value [OF assms(1) this]
  then show "drop (length (received c)) (tf_items T) = (i, hash, data) # drop (Suc (length (received c))) (tf_items T)"
    using Cons_nth_drop_Suc [of k "tf_items T"] length_tf(2) [OF assms(1)] by (simp add: k)
qed

section \<open>The steps of the client\<close>

lemma client_next_block:
  assumes ok: "tf_ok T" and fits: "client_fits T j c" and inv: "joint_inv T (with_script (client_script T c) j)"
    and run: "jt_client_end j = None"
  shows "unat (cl_block_idx (jt_client j)) = length (received c)" "cl_block_size (jt_client j) = tf_size T"
    "cl_hash_comparison_over (jt_client j) \<longleftrightarrow> length (received c) = tf_count T"
proof -
  let ?j = "with_script (client_script T c) j" and ?k = "unat (cl_block_idx (jt_client j))"
  have "jt_client_end ?j = None" using run by simp
  from client_running [OF inv this] obtain rest where "client_live (length (snd (cl_tx (jt_client ?j))), length (snd (cl_tx (jt_client ?j))))
      (drop (jt_to_client ?j) (tf_down T 0)) (tf_size T) (tf_items T) (tf_hashes T) rest (jt_client ?j)" .
  then have L: "hs_items (client_script T c) = drop ?k (tf_items T)" "?k \<le> tf_count T"
      "cl_hash_comparison_over (jt_client j) \<longleftrightarrow> tf_count T \<le> length (received c)" "cl_block_size (jt_client j) = tf_size T"
    using length_tf(2) [OF ok] by (simp_all add: client_live_def client_counts_def)
  have "length (received c) \<le> tf_count T" using fits_client(3) [OF ok fits] by simp
  moreover from arg_cong [OF L(1), of length] have "tf_count T - length (received c) = tf_count T - ?k"
    using length_tf(2) [OF ok] by simp
  ultimately show "?k = length (received c)" "cl_hash_comparison_over (jt_client j) \<longleftrightarrow> length (received c) = tf_count T"
    using L(2,3) length_tf(2) [OF ok] by auto
  show "cl_block_size (jt_client j) = tf_size T" by (rule L(4))
qed

lemma early_over: "early_select s = (c, s') \<Longrightarrow> cl_hash_comparison_over s' = cl_hash_comparison_over s"
proof -
  assume e: "early_select s = (c, s')"
  have "arm_keeps (\<lambda>t. cl_hash_comparison_over t = b) client_arm_timer" for b
    by (simp add: arm_keeps_def client_arm_timer_def split: prod.split bool.split)
  moreover have "arm_keeps (\<lambda>t. cl_hash_comparison_over t = b) client_arm_write" for b
    by (simp add: arm_keeps_def client_arm_write_def Let_def split: option.split prod.split poll.split)
  moreover have "arm_keeps (\<lambda>t. cl_hash_comparison_over t = b) client_arm_read" for b
    by (simp add: arm_keeps_def client_arm_read_def Let_def split: prod.split poll.split sum.split)
  ultimately have "list_all (arm_keeps (\<lambda>t. cl_hash_comparison_over t = cl_hash_comparison_over s)) client_early" by simp
  from select_arms_keeps [OF this, of s True] e show ?thesis by (simp add: early_select_def)
qed

text \<open>As long as the client polls, blocks are left: the stream never offers it the end.\<close>

lemma never_ends_early:
  assumes ok: "tf_ok T" and fits: "client_fits T j c" and inv: "joint_inv T (with_script (client_script T c) j)"
    and run: "jt_client_end j = None"
  shows "\<not> (client_polls (client_granted [t] gs (jt_client j)) \<and> queue c = [] \<and> all_exited c)"
proof
  assume a: "client_polls (client_granted [t] gs (jt_client j)) \<and> queue c = [] \<and> all_exited c"
  have "\<not> recv_closed (shared c)" using fits run by (simp add: client_fits_def)
  with all_exited_sent [OF tf_work_dealt [OF ok] fits_client(1) [OF ok fits]] a have "length (received c) = tf_count T" by simp
  then have "cl_hash_comparison_over (client_granted [t] gs (jt_client j))"
    using client_next_block(3) [OF ok fits inv run] by (simp add: client_granted_def)
  with a show False using early_over [of "client_granted [t] gs (jt_client j)"] by (auto simp: client_polls_def)
qed

lemma script_before_fits:
  assumes ok: "tf_ok T" and fits: "client_fits T j c" and c': "c' = (if polled then recv_poll c else c)"
    and r: "hs_items r = drop (length (received c')) (tf_items T)" "hs_no_error r"
  shows "hs_items (script_before polled c r) = drop (length (received c)) (tf_items T) \<and> hs_no_error (script_before polled c r)"
proof (cases "queue c")
  case (Cons x q)
  then obtain k i hash data where x: "queue c = (k, i, hash, data) # q" by (metis prod_cases4)
  from queue_next [OF ok fits x] show ?thesis using r x c' by (auto simp: script_before_def)
qed (use r c' in \<open>auto simp: script_before_def\<close>)

lemma block_offset_small:
  assumes "tf_ok T" and "k \<le> tf_count T"
  shows "k * unat (tf_size T) < 2 ^ 64"
proof (cases k)
  case (Suc i)
  have size: "sizes_ok (length (tf_src T)) (tf_size T) (opt_workers (tf_options T))" "length (tf_dst T) = length (tf_src T)"
    using assms(1) by (simp_all add: tf_ok_def)
  have "i * unat (tf_size T) < length (tf_src T)"
    using assms(2) Suc size(2) div_ceil_iff [OF tf_ok_size(1) [OF assms(1)], of i "length (tf_dst T)"] by simp
  moreover have "1 * unat (tf_size T) \<le> unat (opt_workers (tf_options T)) * unat (tf_size T)"
    using size(1) by (intro mult_le_mono1) (simp add: sizes_ok_def word_less_nat_alt)
  moreover have "length (tf_src T) + unat (opt_workers (tf_options T)) * unat (tf_size T) < 2 ^ 63" "(2 :: nat) ^ 63 < 2 ^ 64"
    using size(1) by (simp_all add: sizes_ok_def)
  ultimately show ?thesis unfolding Suc mult_Suc by linarith
qed simp

text \<open>The buffers that are lent out after an iteration.\<close>

lemma client_loans:
  assumes ok: "tf_ok T" and fits: "client_fits T j c" and inv: "joint_inv T (with_script (client_script T c) j)"
    and run: "jt_client_end j = None" and polled: "polled = client_polls (client_granted [t] gs (jt_client j))"
    and c': "c' = (if polled then recv_poll c else c)" and j': "j' = client_turn t gs (with_script (offer c) j)"
  shows "fst ` set (queue c') \<union> set (client_held (jt_client j')) \<subseteq> lent c"
    and "sorted_wrt (<) (client_held (jt_client j') @ [length (received c')])"
proof -
  let ?s = "client_granted [t] gs (jt_client j)" and ?n = "length (received c)" and ?H = "client_held (jt_client j)"
  note N = client_next_block [OF ok fits inv run]
  have lent: "lent c = fst ` set (queue c) \<union> set ?H" and sorted: "sorted_wrt (<) (?H @ [?n])"
    using fits run by (simp_all add: client_fits_def)
  have "?n * unat (tf_size T) < 2 ^ 64" by (rule block_offset_small [OF ok]) (use fits_client(3) [OF ok fits] in simp)
  then have "k * unat (tf_size T) < 2 ^ 64" if "k \<le> ?n" for k
    using mult_le_mono1 [OF that, of "unat (tf_size T)"] by linarith
  moreover have idx: "unat (cl_block_idx ?s) = ?n" "cl_block_size ?s = tf_size T" "client_held ?s = ?H"
    using N(1,2) by (simp_all add: client_granted_def cong: option.case_cong)
  ultimately have fit: "offsets_fit (cl_block_size ?s) (client_held ?s @ [unat (cl_block_idx ?s)])"
    using tf_ok_size(1) [OF ok] sorted unfolding idx by (auto simp: offsets_fit_def sorted_wrt_append less_imp_le)
  obtain d u where sel: "client_select (?s\<lparr>cl_hasher := offer c\<rparr>) = (d, u)" by fastforce
  then have held: "client_held (jt_client j') = client_held u" unfolding j' by (simp add: client_turn_def)
  from iteration_held [OF fit sel never_ends_early [OF ok fits inv run]] obtain G ks where
    G: "suffix G ?H" "client_held u = G @ ks" "if polled \<and> queue c \<noteq> [] then ks = [] \<or> ks = [?n] else ks = []"
    unfolding idx polled by blast
  have q: "queue c = [] \<or> (\<exists>x. queue c = [x] \<and> fst x = ?n)" using fits_client(1) [OF ok fits] by (auto simp: chan_inv_def)
  show "fst ` set (queue c') \<union> set (client_held (jt_client j')) \<subseteq> lent c"
  proof -
    have "set G \<subseteq> set ?H" by (rule set_mono_suffix [OF G(1)])
    moreover have "set ks \<subseteq> fst ` set (queue c)" using G(3) q by (cases "polled \<and> queue c \<noteq> []") auto
    moreover have "set (queue c') \<subseteq> set (queue c)" unfolding c' by (cases "queue c") auto
    ultimately show ?thesis unfolding held lent G(2) by auto
  qed
  have "sorted_wrt (<) (G @ [?n])" using G(1) sorted by (auto simp: suffix_def sorted_wrt_append)
  moreover have "ks = [] \<or> ks = [?n] \<and> length (received c') = Suc ?n"
    using G(3) q by (cases "polled \<and> queue c \<noteq> []") (auto simp: c')
  moreover have "?n \<le> length (received c')" by (simp add: c')
  ultimately show "sorted_wrt (<) (client_held (jt_client j') @ [length (received c')])"
    unfolding held G(2) by (auto simp: sorted_wrt_append intro: less_le_trans)
qed

lemma client_turn_frame [simp]:
  "jt_server (client_turn t gs j) = jt_server j" "jt_server_end (client_turn t gs j) = jt_server_end j"
  "jt_pushed (client_turn t gs j) = jt_pushed j" "jt_seen (client_turn t gs j) = jt_seen j"
  "jt_ended (client_turn t gs j) = jt_ended j"
  by (simp_all add: client_turn_def split: prod.split)

lemma backend_inv_client:
  assumes "backend_inv T f" and "joint_inv T j" and "jt_pushed j = jt_pushed (th_joint f)" and "jt_seen j = jt_seen (th_joint f)"
    and "jt_server j = jt_server (th_joint f)" and "jt_server_end j = jt_server_end (th_joint f)" and "jt_ended j = jt_ended (th_joint f)"
    and "th_joint g = j" and "th_server g = th_server f"
  shows "backend_inv T g"
  using assms chan_fits_frame [of j "th_joint f" T "th_server f"] hasher_fits_frame [of j "th_joint f" T "th_server f"]
  by (simp add: backend_inv_def)

text \<open>The channel after an iteration: polled, with the loans that are no longer held given back.\<close>

lemma client_chan:
  assumes ok: "tf_ok T" and fits: "client_fits T j c" and run: "jt_client_end j = None"
    and c': "c' = (if polled then recv_poll c else c)"
  shows "chan_reachable (tf_work T) (drop_loans ks c')" "receiver c' = Idle" "\<not> recv_closed (shared c')" "lent c' = lent c"
    "length (received c') + length (queue c') \<le> tf_count T"
proof -
  have F: "chan_reachable (tf_work T) c" "receiver c = Idle" "\<not> recv_closed (shared c)" using fits run by (simp_all add: client_fits_def)
  have r: "chan_reachable (tf_work T) c'"
    using chan_reachable_steps [OF recv_poll_steps [OF F(2) fits_client(2) [OF ok fits]] F(1)] F(1) by (simp add: c')
  then show "chan_reachable (tf_work T) (drop_loans ks c')"
    by (rule drop_loans_reachable) (use tf_work_dealt [OF ok] in \<open>simp add: dealt_def\<close>)
  show "length (received c') + length (queue c') \<le> tf_count T"
    by (rule sent_bound [OF tf_work_dealt [OF ok] dealt_inv [OF tf_work_dealt [OF ok] r]])
  show "receiver c' = Idle" "\<not> recv_closed (shared c')" "lent c' = lent c" using F by (simp_all add: c')
qed

lemma client_keeps:
  assumes ok: "tf_ok T" and inv: "threaded_inv T f" and may: "client_may T (th_joint f) gs" and f': "f' = threaded_client t gs f"
  shows "threaded_inv T f'"
    and "hs_items r = drop (length (received (th_client f'))) (tf_items T) \<Longrightarrow> hs_no_error r \<Longrightarrow>
      \<exists>h. hs_items h = drop (length (received (th_client f))) (tf_items T) \<and> hs_no_error h
        \<and> joint_step T (with_script h (th_joint f)) (with_script r (th_joint f'))"
proof -
  let ?j = "th_joint f" and ?c = "th_client f" and ?j' = "client_turn t gs (with_script (offer (th_client f)) (th_joint f))"
  define polled where "polled = client_polls (client_granted [t] gs (jt_client ?j))"
  define c where "c = (if polled then recv_poll ?c else ?c)"
  define held where "held = (if jt_client_end ?j' = None then client_held (jt_client ?j') else [])"
  have fits: "client_fits T ?j ?c" and J: "joint_inv T (with_script (client_script T ?c) ?j)" and B: "backend_inv T (scripted T f)"
    using inv by (simp_all add: threaded_inv_def backend_inv_def scripted_def)
  have run: "jt_client_end ?j = None" and gs: "list_all ((<) 0) gs" using may by (simp_all add: client_may_def)
  have eq: "f' = f\<lparr>th_joint := with_script [] ?j', th_client := drop_loans held c\<rparr>"
    by (simp add: f' threaded_client_def Let_def held_def c_def polled_def)
  note turn = client_turn_script [OF polled_def never_ends_early [OF ok fits J run, of t gs, folded polled_def]]
  note before = script_before_fits [OF ok fits c_def]
  have step: "joint_step T (with_script (script_before polled ?c r) ?j) (with_script r (th_joint f'))" for r
    using joint_step.client [of T "with_script (script_before polled ?c r) ?j" gs t] may by (simp add: turn eq)
  then show "\<exists>h. hs_items h = drop (length (received ?c)) (tf_items T) \<and> hs_no_error h
        \<and> joint_step T (with_script h ?j) (with_script r (th_joint f'))"
    if "hs_items r = drop (length (received (th_client f'))) (tf_items T)" "hs_no_error r" for r
    using before [of r] that by (auto simp: eq)
  have "joint_inv T (with_script (script_before polled ?c (client_script T c)) ?j)"
    using joint_inv_script [OF J] before [of "client_script T c"] by simp
  from joint_client(1) [OF ok this _ gs, of t] run have J': "joint_inv T (with_script (client_script T c) ?j')" by (simp add: turn)
  have bk: "backend_inv T (scripted T f')"
    by (rule backend_inv_client [OF B J']) (simp_all add: eq scripted_def client_script_def)
  note L = client_loans [OF ok fits J run polled_def c_def refl] and K = client_chan [OF ok fits run c_def]
  have "client_fits T (th_joint f') (th_client f')"
  proof (cases "jt_client_end ?j'")
    case None
    then have "lent (drop_loans held c) = fst ` set (queue c) \<union> set (client_held (jt_client ?j'))"
      using L(1) K(4) by (auto simp: held_def)
    then show ?thesis using None L(2) K by (simp add: client_fits_def eq)
  next
    case (Some e)
    then have "client_sent_all (length (snd (cl_tx (jt_client ?j'))), length (snd (cl_tx (jt_client ?j')))) (drop (jt_to_client ?j') (tf_down T 0))
        (tf_size T) (tf_items T) (tf_hashes T) (jt_client (with_script (client_script T c) ?j'))"
      using J' by (simp add: joint_inv_def client_ok_def Let_def)
    then have "tf_count T \<le> length (received c)" using length_tf(2) [OF ok] by (simp add: client_sent_all_def)
    then have "length (received c) = tf_count T" "length (queue c) = 0" using K(5) by linarith+
    then show ?thesis using Some K by (simp add: client_fits_def eq held_def)
  qed
  with bk show "threaded_inv T f'" by (simp add: threaded_inv_def)
qed

section \<open>The other steps\<close>

text \<open>The server half does not look at the script of the client.\<close>

lemma script_commutes:
  "deliver_to_client n (with_script h j) = with_script h (deliver_to_client n j)"
  "deliver_to_server n (with_script h j) = with_script h (deliver_to_server n j)"
  "client_closes (with_script h j) = with_script h (client_closes j)"
  "server_turn gs ds (with_script h j) = with_script h (server_turn gs ds j)"
  "worker_turn B k n (with_script h j) = with_script h (worker_turn B k n j)"
  "worker_pushes C a (with_script h j) = with_script h (worker_pushes C a j)"
  "workers_finish (with_script h j) = with_script h (workers_finish j)"
  "after_thread T c c' (with_script h j) = with_script h (after_thread T c c' j)"
proof -
  obtain s where s: "jt_client j = s" by simp
  show "deliver_to_client n (with_script h j) = with_script h (deliver_to_client n j)"
    using s by (cases s) (simp add: deliver_to_client_def with_script_def)
  show A: "worker_pushes C a (with_script h j) = with_script h (worker_pushes C a j)"
    "workers_finish (with_script h j) = with_script h (workers_finish j)" for C a
    by (simp_all add: worker_pushes_def workers_finish_def with_script_def Let_def)
  show "after_thread T c c' (with_script h j) = with_script h (after_thread T c c' j)" by (simp add: after_thread_def A)
qed (simp_all add: deliver_to_server_def client_closes_def server_turn_def worker_turn_def with_script_def split: prod.split)

lemma wire_script: "wire_step j j' \<Longrightarrow> wire_step (with_script h j) (with_script h j')"
proof (induction rule: wire_step.induct)
  case (down n j)
  then show ?case using wire_step.down [of n "with_script h j"] by (simp add: script_commutes)
next
  case (up n j)
  then show ?case using wire_step.up [of n "with_script h j"] by (simp add: script_commutes)
next
  case (close j)
  then show ?case using wire_step.close [of "with_script h j"] by (simp add: script_commutes)
qed

lemma backend_script: "backend_step T f f' \<Longrightarrow> backend_step T (rescript h f) (rescript h f') \<and> th_client f' = th_client f"
proof (induction rule: backend_step.induct)
  case (wire f j)
  from backend_step.wire [of "rescript h f" "with_script h j" T] wire_script [OF wire] show ?case by (simp add: rescript_def)
next
  case (server f gs ds)
  then have "backend_step T (rescript h f) (threaded_server gs ds (rescript h f))" by (intro backend_step.server) simp
  then show ?case by (cases f) (simp add: threaded_server_def rescript_def script_commutes cong: if_cong)
next
  case (reads i f k v todo n)
  then have "backend_step T (rescript h f) ((rescript h f)\<lparr>th_joint := worker_turn (unat (tf_size T)) k n (th_joint (rescript h f))\<rparr>)"
    by (intro backend_step.reads [of i]) simp_all
  then show ?case by (simp add: rescript_def script_commutes)
next
  case (thread i f c)
  have "block_read T (with_script h (th_joint f)) = block_read T (th_joint f)" by (rule block_read_frame) simp
  with thread have "backend_step T (rescript h f)
      ((rescript h f)\<lparr>th_joint := after_thread T (th_server (rescript h f)) c (th_joint (rescript h f)), th_server := c\<rparr>)"
    by (intro backend_step.thread [of i]) simp_all
  then show ?case by (cases f) (simp add: rescript_def script_commutes)
next
  case (spurious i f)
  then have "backend_step T (rescript h f) ((rescript h f)\<lparr>th_server := set_pc i Checking (th_server (rescript h f))\<rparr>)"
    by (intro backend_step.spurious) simp_all
  then show ?case by (cases f) (simp add: rescript_def)
next
  case (drop f)
  then have "backend_step T (rescript h f) ((rescript h f)\<lparr>th_server := recv_close (th_server (rescript h f))\<rparr>)"
    by (intro backend_step.drop) simp_all
  then show ?case by (cases f) (simp add: rescript_def)
qed

lemma backend_client:
  assumes "backend_step T f f'"
  shows "jt_client_end (th_joint f') = jt_client_end (th_joint f)" "cl_hasher (jt_client (th_joint f')) = cl_hasher (jt_client (th_joint f))"
    "client_held (jt_client (th_joint f')) = client_held (jt_client (th_joint f))"
proof -
  have "jt_client_end (th_joint f') = jt_client_end (th_joint f) \<and> cl_hasher (jt_client (th_joint f')) = cl_hasher (jt_client (th_joint f))
      \<and> client_held (jt_client (th_joint f')) = client_held (jt_client (th_joint f))"
    using assms
  proof cases
    case (wire j)
    from wire(2) show ?thesis
      by cases (simp_all add: wire(1) deliver_to_client_def deliver_to_server_def client_closes_def)
  qed (simp_all add: threaded_server_def server_turn_def worker_turn_def after_thread_def worker_pushes_def workers_finish_def Let_def
      split: prod.split)
  then show "jt_client_end (th_joint f') = jt_client_end (th_joint f)" "cl_hasher (jt_client (th_joint f')) = cl_hasher (jt_client (th_joint f))"
    "client_held (jt_client (th_joint f')) = client_held (jt_client (th_joint f))" by simp_all
qed

lemma client_fits_frame:
  "jt_client_end j' = jt_client_end j \<Longrightarrow> cl_hasher (jt_client j') = cl_hasher (jt_client j) \<Longrightarrow>
   client_held (jt_client j') = client_held (jt_client j) \<Longrightarrow> client_fits T j' c = client_fits T j c"
  by (simp add: client_fits_def cong: option.case_cong)

lemma backend_keeps:
  assumes ok: "tf_ok T" and inv: "threaded_inv T f" and step: "backend_step T f f'"
  shows "threaded_inv T f'"
    and "hs_items h = drop (length (received (th_client f))) (tf_items T) \<Longrightarrow> hs_no_error h \<Longrightarrow>
      (joint_step T)\<^sup>*\<^sup>* (with_script h (th_joint f)) (with_script h (th_joint f'))"
proof -
  have fits: "client_fits T (th_joint f) (th_client f)" and B: "backend_inv T (scripted T f)" using inv by (simp_all add: threaded_inv_def)
  have same: "th_client f' = th_client f" using backend_script [OF step] by simp
  have J: "joint_inv T (with_script (client_script T (th_client f)) (th_joint f))" using B by (simp add: backend_inv_def scripted_def)
  have keeps: "backend_inv T (rescript h f') \<and> (joint_step T)\<^sup>*\<^sup>* (with_script h (th_joint f)) (with_script h (th_joint f'))"
    if "hs_items h = drop (length (received (th_client f))) (tf_items T)" "hs_no_error h" for h
  proof -
    have "joint_inv T (with_script h (th_joint f))" using joint_inv_script [OF J, of h] that by simp
    then have "backend_inv T (rescript h f)" by (rule backend_inv_client [OF B]) (simp_all add: scripted_def)
    from backend_step_keeps [OF conjunct1 [OF backend_script [OF step]] ok this] show ?thesis by simp
  qed
  then show "(joint_step T)\<^sup>*\<^sup>* (with_script h (th_joint f)) (with_script h (th_joint f'))"
    if "hs_items h = drop (length (received (th_client f))) (tf_items T)" "hs_no_error h" using that by blast
  have "backend_inv T (scripted T f')" using keeps [of "client_script T (th_client f)"] by (simp add: scripted_def same)
  moreover have "client_fits T (th_joint f') (th_client f')"
    using fits client_fits_frame [OF backend_client [OF step]] by (simp add: same)
  ultimately show "threaded_inv T f'" by (simp add: threaded_inv_def)
qed

text \<open>A step of the channel of the client that leaves what was received, and changes the loans as it fills the queue.\<close>

lemma client_channel_keeps:
  assumes inv: "threaded_inv T f" and step: "chan_step (th_client f) c" and same: "received c = received (th_client f)"
    and lent: "lent c = lent (th_client f) \<union> fst ` set (queue c)" and queue: "set (queue (th_client f)) \<subseteq> set (queue c)"
    and shared: "receiver c = receiver (th_client f)" "recv_closed (shared c) = recv_closed (shared (th_client f))"
    and over: "jt_client_end (th_joint f) \<noteq> None \<Longrightarrow> queue c = []"
  shows "threaded_inv T (f\<lparr>th_client := c\<rparr>)"
proof -
  have fits: "client_fits T (th_joint f) (th_client f)" and B: "backend_inv T (scripted T f)" using inv by (simp_all add: threaded_inv_def)
  have "chan_reachable (tf_work T) c" using fits step chan_reachable.step by (auto simp: client_fits_def)
  then have "client_fits T (th_joint f) c"
    using fits lent queue same shared over by (auto simp: client_fits_def split: option.splits)
  moreover have "backend_inv T (scripted T (f\<lparr>th_client := c\<rparr>))"
    using B same by (simp add: scripted_def rescript_def client_script_def backend_inv_def)
  ultimately show ?thesis by (simp add: threaded_inv_def)
qed

text \<open>When the client's loop is left every block has been received and no thread has anything left to send.\<close>

lemma client_over:
  assumes ok: "tf_ok T" and fits: "client_fits T j c" and over: "jt_client_end j \<noteq> None"
  shows "queue c = []" "i < length (senders c) \<Longrightarrow> s_todo (senders c ! i) = []" "lent c = {}"
proof -
  have "length (received c) = tf_count T" "lent c = {}" using fits over by (auto simp: client_fits_def)
  then show "queue c = []" "lent c = {}" using fits_client(3) [OF ok fits] by auto
  show "s_todo (senders c ! i) = []" if "i < length (senders c)"
    using todo_range [OF tf_work_dealt [OF ok] fits_client(1) [OF ok fits] that] \<open>length (received c) = tf_count T\<close>
    by (cases "s_todo (senders c ! i)") fastforce+
qed

lemma client_thread_keeps:
  assumes ok: "tf_ok T" and inv: "threaded_inv T f" and i: "i < length (senders (th_client f))" and act: "thread_act i (th_client f) = Some c"
  shows "threaded_inv T (f\<lparr>th_client := c\<rparr>) \<and> received c = received (th_client f)"
proof -
  have fits: "client_fits T (th_joint f) (th_client f)" using inv by (simp add: threaded_inv_def)
  have d: "distinct (map fst (concat (tf_work T)))" using tf_work_dealt [OF ok] by (simp add: dealt_def)
  have "fst ` set (queue (th_client f)) \<subseteq> lent (th_client f)"
    by (rule queued_is_lent [OF _ d]) (use fits in \<open>simp add: client_fits_def\<close>)
  note Q = this
  from act have "received c = received (th_client f) \<and> lent c = lent (th_client f) \<union> fst ` set (queue c)
      \<and> set (queue (th_client f)) \<subseteq> set (queue c) \<and> receiver c = receiver (th_client f)
      \<and> recv_closed (shared c) = recv_closed (shared (th_client f)) \<and> (jt_client_end (th_joint f) \<noteq> None \<longrightarrow> queue c = [])"
  proof (cases rule: thread_act_cases)
    case (move pc)
    then show ?thesis using Q client_over(1) [OF ok fits] by auto
  next
    case (push idx v todo)
    then have "jt_client_end (th_joint f) = None" using client_over(2) [OF ok fits _ i] by (metis list.distinct(1))
    with push show ?thesis by auto
  qed
  with client_channel_keeps [OF inv thread_act_step [OF act]] show ?thesis by auto
qed

lemma client_spurious_keeps:
  assumes ok: "tf_ok T" and inv: "threaded_inv T f" and i: "i < length (senders (th_client f))" "s_pc (senders (th_client f) ! i) = Sleeping"
  shows "threaded_inv T (f\<lparr>th_client := set_pc i Checking (th_client f)\<rparr>)"
proof (rule client_channel_keeps [OF inv chan_step.spurious [OF i]])
  have fits: "client_fits T (th_joint f) (th_client f)" using inv by (simp add: threaded_inv_def)
  have d: "distinct (map fst (concat (tf_work T)))" using tf_work_dealt [OF ok] by (simp add: dealt_def)
  have "fst ` set (queue (th_client f)) \<subseteq> lent (th_client f)"
    by (rule queued_is_lent [OF _ d]) (use fits in \<open>simp add: client_fits_def\<close>)
  then show "lent (set_pc i Checking (th_client f)) = lent (th_client f) \<union> fst ` set (queue (set_pc i Checking (th_client f)))" by auto
  show "jt_client_end (th_joint f) \<noteq> None \<Longrightarrow> queue (set_pc i Checking (th_client f)) = []" using client_over(1) [OF ok fits] by simp
qed simp_all

lemma client_drop_keeps:
  assumes ok: "tf_ok T" and inv: "threaded_inv T f" and over: "jt_client_end (th_joint f) \<noteq> None" and "receiver (th_client f) \<noteq> Closed"
  shows "threaded_inv T (f\<lparr>th_client := recv_close (th_client f)\<rparr>)"
proof -
  let ?c = "recv_close (th_client f)"
  have fits: "client_fits T (th_joint f) (th_client f)" and B: "backend_inv T (scripted T f)" using inv by (simp_all add: threaded_inv_def)
  have "chan_step (th_client f) ?c" by (rule chan_step.close [OF assms(4) fits_client(2) [OF ok fits]])
  then have "chan_reachable (tf_work T) ?c" using fits chan_reachable.step by (auto simp: client_fits_def)
  then have "client_fits T (th_joint f) ?c" using fits over by (auto simp: client_fits_def recv_close_def)
  moreover have "received ?c = received (th_client f)" by (simp add: recv_close_def)
  then have "backend_inv T (scripted T (f\<lparr>th_client := ?c\<rparr>))"
    using B by (simp add: scripted_def rescript_def client_script_def backend_inv_def)
  ultimately show ?thesis by (simp add: threaded_inv_def)
qed

end
