(* ===== verification/Threaded_Session.thy ===== *)
theory Threaded_Session
  imports Client_Threads
begin

text \<open>
  What the session with all its threads guarantees: it refines the joint system and both ordered channels, so that
  what was shown of these holds of it; from every state that it reaches it can come to its end, with both loops
  left and all threads joined, although the client's workers wait for buffers that the connection holds back; and
  the client never holds more blocks than it has workers.
\<close>

section \<open>The refinement\<close>

text \<open>
  A step is matched by steps of the joint system from the end: every script that fits the later state comes from one
  that fits the earlier state.
\<close>

lemma threaded_step_keeps:
  assumes "threaded_step T f f'" and ok: "tf_ok T" and inv: "threaded_inv T f"
  shows "threaded_inv T f'"
    and "hs_items r = drop (length (received (th_client f'))) (tf_items T) \<Longrightarrow> hs_no_error r \<Longrightarrow>
      \<exists>h. hs_items h = drop (length (received (th_client f))) (tf_items T) \<and> hs_no_error h
        \<and> (joint_step T)\<^sup>*\<^sup>* (with_script h (th_joint f)) (with_script r (th_joint f'))"
proof -
  have "threaded_inv T f' \<and> (\<forall>r. hs_items r = drop (length (received (th_client f'))) (tf_items T) \<and> hs_no_error r \<longrightarrow>
      (\<exists>h. hs_items h = drop (length (received (th_client f))) (tf_items T) \<and> hs_no_error h
        \<and> (joint_step T)\<^sup>*\<^sup>* (with_script h (th_joint f)) (with_script r (th_joint f'))))"
    using assms(1)
  proof cases
    case (client gs t)
    from client_keeps [OF ok inv client(2,1)] show ?thesis by (meson r_into_rtranclp)
  next
    case backend
    have "th_client f' = th_client f" using backend_script [OF backend] by simp
    with backend_keeps [OF ok inv backend] show ?thesis by metis
  next
    case (thread i c)
    from client_thread_keeps [OF ok inv thread(2,3)] show ?thesis unfolding thread(1) by auto
  next
    case (spurious i)
    from client_spurious_keeps [OF ok inv spurious(2,3)] show ?thesis unfolding spurious(1) by auto
  next
    case drop
    from client_drop_keeps [OF ok inv drop(2,3)] show ?thesis unfolding drop(1) by (auto simp: recv_close_def)
  qed
  then show "threaded_inv T f'"
    "hs_items r = drop (length (received (th_client f'))) (tf_items T) \<Longrightarrow> hs_no_error r \<Longrightarrow>
      \<exists>h. hs_items h = drop (length (received (th_client f))) (tf_items T) \<and> hs_no_error h
        \<and> (joint_step T)\<^sup>*\<^sup>* (with_script h (th_joint f)) (with_script r (th_joint f'))" by blast+
qed

lemma threaded_steps_keep:
  assumes "(threaded_step T)\<^sup>*\<^sup>* f f'" and ok: "tf_ok T" and inv: "threaded_inv T f"
  shows "threaded_inv T f'"
    and "hs_items r = drop (length (received (th_client f'))) (tf_items T) \<Longrightarrow> hs_no_error r \<Longrightarrow>
      \<exists>h. hs_items h = drop (length (received (th_client f))) (tf_items T) \<and> hs_no_error h
        \<and> (joint_step T)\<^sup>*\<^sup>* (with_script h (th_joint f)) (with_script r (th_joint f'))"
proof -
  have "threaded_inv T f' \<and> (\<forall>r. hs_items r = drop (length (received (th_client f'))) (tf_items T) \<and> hs_no_error r \<longrightarrow>
      (\<exists>h. hs_items h = drop (length (received (th_client f))) (tf_items T) \<and> hs_no_error h
        \<and> (joint_step T)\<^sup>*\<^sup>* (with_script h (th_joint f)) (with_script r (th_joint f'))))"
    using assms(1)
  proof (induction rule: rtranclp_induct)
    case base
    then show ?case using inv by blast
  next
    case (step g f')
    then have g: "threaded_inv T g" by blast
    note S = threaded_step_keeps [OF step.hyps(2) ok g]
    show ?case
    proof (intro conjI allI impI)
      fix r assume "hs_items r = drop (length (received (th_client f'))) (tf_items T) \<and> hs_no_error r"
      then obtain h where h: "hs_items h = drop (length (received (th_client g))) (tf_items T)" "hs_no_error h"
        "(joint_step T)\<^sup>*\<^sup>* (with_script h (th_joint g)) (with_script r (th_joint f'))" using S(2) by blast
      with step.IH obtain k where "hs_items k = drop (length (received (th_client f))) (tf_items T)" "hs_no_error k"
        "(joint_step T)\<^sup>*\<^sup>* (with_script k (th_joint f)) (with_script h (th_joint g))" by blast
      with h(3) show "\<exists>h. hs_items h = drop (length (received (th_client f))) (tf_items T) \<and> hs_no_error h
          \<and> (joint_step T)\<^sup>*\<^sup>* (with_script h (th_joint f)) (with_script r (th_joint f'))" by (meson rtranclp_trans)
    qed (rule S(1))
  qed
  then show "threaded_inv T f'"
    "hs_items r = drop (length (received (th_client f'))) (tf_items T) \<Longrightarrow> hs_no_error r \<Longrightarrow>
      \<exists>h. hs_items h = drop (length (received (th_client f))) (tf_items T) \<and> hs_no_error h
        \<and> (joint_step T)\<^sup>*\<^sup>* (with_script h (th_joint f)) (with_script r (th_joint f'))" by blast+
qed

lemma joint_start_script: "with_script h (joint_start T []) = joint_start T h"
  by (simp add: with_script_def joint_start_def client_loop_start_def)

lemma threaded_inv_start:
  assumes ok: "tf_ok T"
  shows "threaded_inv T (threaded_start T)"
proof -
  let ?hs = "hs_script (tf_items T) False"
  let ?j = "joint_start T ?hs"
  have hs: "hs_items ?hs = tf_items T" "hs_no_error ?hs" by (simp_all add: hs_items_script)
  have "chan_fits T ?j (ordered_channel (tf_shares T))"
    by (simp add: chan_fits_def chan_reachable.start) (simp add: joint_start_def ordered_channel_def list_all_iff)
  moreover have "0 < length (tf_shares T)" using ok by (simp add: tf_shares_eq tf_ok_def sizes_ok_def word_less_nat_alt)
  then have "hasher_fits T ?j (ordered_channel (tf_shares T))"
    by (auto simp: hasher_fits_def joint_start_def ordered_channel_def server_loop_start_def all_exited_def list_all_length intro!: exI [of _ 0])
  ultimately have "backend_inv T (scripted T (threaded_start T))"
    using joint_inv_start [OF ok hs]
    by (simp add: backend_inv_def scripted_def threaded_start_def client_script_def joint_start_script ordered_channel_def)
  moreover have "client_fits T (joint_start T []) (ordered_channel (tf_work T))"
    by (simp add: client_fits_def chan_reachable.start)
      (simp add: joint_start_def client_loop_start_def ordered_channel_def client_held_def)
  ultimately show ?thesis by (simp add: threaded_inv_def threaded_start_def)
qed

lemma threaded_reachable:
  assumes ok: "tf_ok T" and run: "(threaded_step T)\<^sup>*\<^sup>* (threaded_start T) f"
  shows "threaded_inv T f"
    and "\<exists>hs. hs_items hs = tf_items T \<and> hs_no_error hs
      \<and> (joint_step T)\<^sup>*\<^sup>* (joint_start T hs) (with_script (client_script T (th_client f)) (th_joint f))"
proof -
  note S = threaded_steps_keep [OF run ok threaded_inv_start [OF ok]]
  show "threaded_inv T f" by (rule S(1))
  show "\<exists>hs. hs_items hs = tf_items T \<and> hs_no_error hs
      \<and> (joint_step T)\<^sup>*\<^sup>* (joint_start T hs) (with_script (client_script T (th_client f)) (th_joint f))"
    using S(2) [of "client_script T (th_client f)"] by (simp add: threaded_start_def ordered_channel_def joint_start_script)
qed

section \<open>The session can always go on\<close>

text \<open>What is left to do in the joint system, with the script that belongs to the state.\<close>

definition threaded_todo :: "transfer \<Rightarrow> threaded \<Rightarrow> nat" where
  "threaded_todo T f = joint_todo T (th_joint (scripted T f))"

definition threaded_goes_on :: "transfer \<Rightarrow> threaded \<Rightarrow> bool" where
  "threaded_goes_on T f \<longleftrightarrow> (\<exists>f'. (threaded_step T)\<^sup>*\<^sup>* f f' \<and> threaded_todo T f' < threaded_todo T f)"

lemma goes_on_later:
  "(threaded_step T)\<^sup>*\<^sup>* f f' \<Longrightarrow> threaded_todo T f' \<le> threaded_todo T f \<Longrightarrow> threaded_goes_on T f' \<Longrightarrow> threaded_goes_on T f"
  unfolding threaded_goes_on_def by (meson order_less_le_trans rtranclp_trans)

text \<open>Where the server half goes on with the script, the session goes on without it.\<close>

lemma backend_steps_script:
  "(backend_step T)\<^sup>*\<^sup>* f g \<Longrightarrow> (threaded_step T)\<^sup>*\<^sup>* (rescript h f) (rescript h g) \<and> th_client g = th_client f
     \<and> cl_hasher (jt_client (th_joint g)) = cl_hasher (jt_client (th_joint f))"
proof (induction rule: rtranclp_induct)
  case (step g g')
  from backend_script [OF step.hyps(2), of h] have "threaded_step T (rescript h g) (rescript h g')" "th_client g' = th_client g"
    by (auto intro: threaded_step.backend)
  with step.IH backend_client(2) [OF step.hyps(2)] show ?case by (metis rtranclp.rtrancl_into_rtrancl)
qed simp

lemma script_self: "cl_hasher (jt_client j) = h \<Longrightarrow> with_script h j = j"
  by (auto simp: with_script_def)

lemma unscripted:
  assumes "threaded_inv T f"
  shows "rescript [] (scripted T f) = f"
  using assms script_self [of "th_joint f" "[]"] by (simp add: threaded_inv_def client_fits_def scripted_def rescript_def)

lemma backend_runs:
  assumes inv: "threaded_inv T f" and run: "(backend_step T)\<^sup>*\<^sup>* (scripted T f) g"
  shows "(threaded_step T)\<^sup>*\<^sup>* f (rescript [] g)" "scripted T (rescript [] g) = g"
proof -
  note B = backend_steps_script [OF run, of "[]"]
  show "(threaded_step T)\<^sup>*\<^sup>* f (rescript [] g)" using B unscripted [OF inv] by simp
  have "th_client g = th_client f" "cl_hasher (jt_client (th_joint g)) = client_script T (th_client f)" using B by (simp_all add: scripted_def)
  then show "scripted T (rescript [] g) = g" using script_self [of "th_joint g"] by (simp add: scripted_def)
qed

lemma backend_goes_on:
  assumes inv: "threaded_inv T f" and "goes_on T (scripted T f)"
  shows "threaded_goes_on T f"
proof -
  from assms(2) obtain g where "(backend_step T)\<^sup>*\<^sup>* (scripted T f) g" "joint_todo T (th_joint g) < joint_todo T (th_joint (scripted T f))"
    by (auto simp: goes_on_def)
  with backend_runs [OF inv this(1)] show ?thesis unfolding threaded_goes_on_def threaded_todo_def by metis
qed

text \<open>An iteration of the client that takes a block from the channel.\<close>

lemma client_takes_block:
  assumes ok: "tf_ok T" and inv: "threaded_inv T f" and may: "client_may T (th_joint f) gs"
    and item: "client_polls (client_granted [False] gs (jt_client (th_joint f)))" "queue (th_client f) \<noteq> []"
    and ready: "cl_write_block (jt_client (th_joint f)) \<noteq> None \<and> gs \<noteq> [] \<or> bytes_of (cl_rx (jt_client (th_joint f))) \<noteq> []
        \<or> cl_remote_hashes (jt_client (th_joint f)) \<noteq> [] \<and> \<not> cl_hash_comparison_over (jt_client (th_joint f))"
  shows "threaded_todo T (threaded_client False gs f) < threaded_todo T f"
proof -
  let ?j = "th_joint f" and ?c = "th_client f" and ?f' = "threaded_client False gs f"
  have fits: "client_fits T ?j ?c" and J: "joint_inv T (with_script (client_script T ?c) ?j)"
    using inv by (simp_all add: threaded_inv_def backend_inv_def scripted_def)
  from item(2) obtain k i hash data q where q: "queue ?c = (k, i, hash, data) # q" by (metis list.exhaust prod_cases4)
  have "received (th_client ?f') = received ?c @ [(k, i, hash, data)]"
    using item q by (simp add: threaded_client_def Let_def)
  then have script: "script_before True ?c (client_script T (th_client ?f')) = client_script T ?c"
    using queue_next(3) [OF ok fits q] q by (simp add: script_before_def client_script_def hs_script_def)
  have "jt_client_end ?j = None" "list_all ((<) 0) gs" using may by (simp_all add: client_may_def)
  note run = this
  have turn: "client_turn False gs (with_script (client_script T ?c) ?j) = with_script (client_script T (th_client ?f')) (th_joint ?f')"
    using client_turn_script [OF refl never_ends_early [OF ok fits J run(1)], of False gs "client_script T (th_client ?f')"] item(1) script
    by (simp add: threaded_client_def Let_def)
  from joint_client(3) [OF ok J _ run(2), of False] run(1) ready show ?thesis
    by (simp add: threaded_todo_def scripted_def turn)
qed

lemma early_outcome:
  assumes live: "client_live room ahead bs items hashes rest s" and e: "early_select s = (d, u)"
  shows "d = Break \<or> (d = Continue \<or> d = Blocked) \<and> client_work (client_total bs items hashes) u \<le> client_work (client_total bs items hashes) s"
proof -
  have "select_arms client_early True s = (d, u)" using e by (simp only: early_select_def)
  from live_client.select_from [OF _ exI [where P = "\<lambda>rest. client_live room ahead bs items hashes rest s", OF live] _ this] show ?thesis by auto
qed

text \<open>An iteration of the client to which the channel offers nothing.\<close>

lemma client_without_block:
  assumes ok: "tf_ok T" and inv: "threaded_inv T f" and may: "client_may T (th_joint f) gs"
    and none: "\<not> client_polls (client_granted [False] gs (jt_client (th_joint f))) \<or> queue (th_client f) = []"
  shows "threaded_todo T (threaded_client False gs f) \<le> threaded_todo T f"
    and "cl_write_block (jt_client (th_joint f)) \<noteq> None \<and> gs \<noteq> [] \<or> bytes_of (cl_rx (jt_client (th_joint f))) \<noteq> [] \<Longrightarrow>
      threaded_todo T (threaded_client False gs f) < threaded_todo T f"
proof -
  let ?j = "th_joint f" and ?c = "th_client f" and ?f' = "threaded_client False gs f" and ?r = "client_script T (th_client f)"
  let ?s = "jt_client (with_script ?r ?j)" and ?ahead = "drop (jt_to_client ?j) (tf_down T 0)" and ?m = "length (tf_up T 0)"
  have fits: "client_fits T ?j ?c" and J: "joint_inv T (with_script ?r ?j)"
    using inv by (simp_all add: threaded_inv_def backend_inv_def scripted_def)
  have run: "jt_client_end ?j = None" and gs: "list_all ((<) 0) gs" using may by (simp_all add: client_may_def)
  obtain d u where e: "early_select (client_granted [False] gs ?s) = (d, u)" by fastforce
  have none': "\<not> client_polls (client_granted [False] gs (jt_client ?j)) \<or> queue ?c = [] \<and> \<not> all_exited ?c"
    using none never_ends_early [OF ok fits J run, of False gs] by blast
  have "received (th_client ?f') = received ?c" using none by (auto simp: threaded_client_def Let_def)
  then have eq: "th_joint (scripted T ?f') = ?j\<lparr>jt_client := client_granted [] [] u, jt_client_end := loop_result d\<rparr>"
    using client_turn_early [OF none' e] by (simp add: scripted_def client_script_def threaded_client_def Let_def)
  have "jt_client_end (with_script ?r ?j) = None" using run by simp
  from client_running [OF J this] obtain rest where "client_live (length (snd (cl_tx ?s)), length (snd (cl_tx ?s))) ?ahead
      (tf_size T) (tf_items T) (tf_hashes T) rest ?s" by auto
  note live = client_live_granted [OF this gs, of "[False]"]
  have m: "?m = client_total (tf_size T) (tf_items T) (tf_hashes T)" using client_out_tf [OF ok] by simp
  have d: "d = Break \<or> (d = Continue \<or> d = Blocked) \<and> client_work ?m u \<le> client_work ?m (client_granted [False] gs ?s)"
    unfolding m by (rule early_outcome [OF live e])
  have le: "client_work ?m (client_granted [] [] u) \<le> client_work ?m u" by (simp add: client_work_def client_granted_def ticks_def)
  have same: "joint_todo T (th_joint (scripted T ?f')) + client_left T (with_script ?r ?j)
      = joint_todo T (with_script ?r ?j) + client_left T (th_joint (scripted T ?f'))"
    unfolding eq by (simp add: joint_todo_def server_left_def wires_left_def workers_left_def)
  have left: "client_left T (with_script ?r ?j) = Suc (client_work ?m (client_granted [False] gs ?s))"
    using run by (simp add: client_left_def del: granted_script with_script_sel(1))
  have left': "client_left T (th_joint (scripted T ?f')) \<le> client_left T (with_script ?r ?j)"
    using d le unfolding left eq by (auto simp: client_left_def loop_result_def)
  with same show "threaded_todo T ?f' \<le> threaded_todo T f" by (simp add: threaded_todo_def scripted_def)
  assume "cl_write_block (jt_client ?j) \<noteq> None \<and> gs \<noteq> [] \<or> bytes_of (cl_rx (jt_client ?j)) \<noteq> []"
  then have "cl_write_block (client_granted [False] gs ?s) \<noteq> None \<and> 0 < accepts (fst (cl_tx (client_granted [False] gs ?s)))
      \<or> bytes_of (cl_rx (client_granted [False] gs ?s)) \<noteq> []" by (simp add: client_granted_def)
  from client_early_progress [OF live this e [unfolded early_select_def]] d le
  have "client_left T (th_joint (scripted T ?f')) < client_left T (with_script ?r ?j)"
    unfolding left eq m by (auto simp: client_left_def loop_result_def m)
  with same show "threaded_todo T ?f' < threaded_todo T f" by (simp add: threaded_todo_def scripted_def)
qed

text \<open>A client that has nothing to write and nothing to read polls the stream.\<close>

lemma idle_select:
  assumes live: "client_live room ahead bs items hashes rest s"
    and idle: "cl_timer s = [False]" "cl_write_block s = None" "bytes_of (cl_rx s) = []"
  obtains u where "early_select s = (Blocked, u)" "cl_write_block u = None" "bytes_of (cl_rx u) = []"
    "cl_remote_hashes u = cl_remote_hashes s" "cl_hash_comparison_over u = cl_hash_comparison_over s"
    "cl_blocks_idx_to_send u = cl_blocks_idx_to_send s"
proof -
  let ?s = "s\<lparr>cl_timer := []\<rparr>"
  have t: "client_arm_timer s = Waiting ?s" using idle(1) by (simp add: client_arm_timer_def)
  then have live': "client_live room ahead bs items hashes rest ?s" using live_timer [OF live] by simp
  have w: "client_arm_write ?s = Off" using idle(2) by (simp add: client_arm_write_def)
  obtain p rs es where r: "rrs_read_on (cl_read_string ?s) (cl_rx ?s) = (p, rs, es)" by (metis prod_cases3)
  have L: "rrs_inv 256 (cl_read_string ?s)" "list_all (acceptable 256) rest" "waits (cl_rx ?s) = 0"
    "end_of (cl_rx ?s) = StillOpen" "rrs_got (cl_read_string ?s) @ bytes_of (cl_rx ?s) @ ahead = concat (map string_message rest)"
    "\<not> cl_remote_hashes_done ?s"
    using live' unfolding client_live_def client_listens_def by simp_all
  have "acceptable 256 []" by (simp add: acceptable_def)
  from L(1,2) this L(5,3) disjI1 [OF L(4)] r have "p = Pending \<and> bytes_of es = []"
    by (cases rule: rrs.stream_read) (use L(4) idle(3) in simp_all)
  then have "client_arm_read ?s = Waiting (?s\<lparr>cl_rx := es, cl_read_string := rs\<rparr>)" "bytes_of es = []"
    using r L(6) by (simp_all add: client_arm_read_def)
  then show thesis using that [of "?s\<lparr>cl_rx := es, cl_read_string := rs\<rparr>"] t w idle by (simp add: early_select_def)
qed

text \<open>A client that has only a hash to compare: nothing is to be written, no bytes have arrived.\<close>

definition client_idle :: "joint \<Rightarrow> bool" where
  "client_idle j \<longleftrightarrow> jt_client_end j = None \<and> cl_write_block (jt_client j) = None \<and> bytes_of (cl_rx (jt_client j)) = []
     \<and> cl_remote_hashes (jt_client j) \<noteq> [] \<and> \<not> cl_hash_comparison_over (jt_client j)"

lemma idle_polls:
  assumes ok: "tf_ok T" and inv: "threaded_inv T f" and idle: "client_idle (th_joint f)"
  obtains u where "early_select (client_granted [False] [] (jt_client (with_script (client_script T (th_client f)) (th_joint f)))) = (Blocked, u)"
    "client_polls (client_granted [False] [] (jt_client (th_joint f)))" "client_may T (th_joint f) []"
    "client_idle ((th_joint f)\<lparr>jt_client := client_granted [] [] u\<rparr>)" "client_held u = []"
proof -
  let ?j = "th_joint f" and ?r = "client_script T (th_client f)"
  let ?s = "jt_client (with_script ?r ?j)"
  have J: "joint_inv T (with_script ?r ?j)" using inv by (simp add: threaded_inv_def backend_inv_def scripted_def)
  have run: "jt_client_end (with_script ?r ?j) = None" and I: "cl_write_block ?s = None" "bytes_of (cl_rx ?s) = []"
    "cl_remote_hashes ?s \<noteq> []" "\<not> cl_hash_comparison_over ?s" using idle by (simp_all add: client_idle_def)
  from client_running [OF J run] obtain rest where live: "client_live (length (snd (cl_tx ?s)), length (snd (cl_tx ?s)))
      (drop (jt_to_client ?j) (tf_down T 0)) (tf_size T) (tf_items T) (tf_hashes T) rest ?s" by auto
  have none: "cl_blocks_idx_to_send ?s = []" using live I(1) by (simp add: client_live_def client_writes_def)
  obtain u where u: "early_select (client_granted [False] [] ?s) = (Blocked, u)" "cl_write_block u = None" "bytes_of (cl_rx u) = []"
    "cl_remote_hashes u = cl_remote_hashes ?s" "cl_hash_comparison_over u = cl_hash_comparison_over ?s" "cl_blocks_idx_to_send u = []"
    by (rule idle_select [OF client_live_granted [OF live, of "[]" "[False]"]]) (use I none in \<open>simp_all add: client_granted_def\<close>)
  have "client_polls (client_granted [False] [] ?s)" unfolding client_polls_def u(1) using u(4,5) I(3,4) by simp
  then have "client_polls (client_granted [False] [] (jt_client ?j))" by simp
  moreover have "client_idle (?j\<lparr>jt_client := client_granted [] [] u\<rparr>)"
    using u(2-5) I(3,4) run by (simp add: client_idle_def client_granted_def)
  moreover have "client_held u = []" using u(2,6) by (simp add: client_held_def)
  moreover have "client_may T ?j []" using run by (simp add: client_may_def)
  ultimately show thesis using that u(1) by blast
qed

lemma idle_takes_block:
  assumes ok: "tf_ok T" and inv: "threaded_inv T f" and idle: "client_idle (th_joint f)" and q: "queue (th_client f) \<noteq> []"
  shows "threaded_goes_on T f"
proof -
  from idle_polls [OF ok inv idle] have P: "client_polls (client_granted [False] [] (jt_client (th_joint f)))" "client_may T (th_joint f) []" by blast+
  have "threaded_todo T (threaded_client False [] f) < threaded_todo T f"
    by (rule client_takes_block [OF ok inv P(2,1) q]) (use idle in \<open>simp add: client_idle_def\<close>)
  with threaded_step.client [OF P(2)] show ?thesis unfolding threaded_goes_on_def by blast
qed

text \<open>The poll is a request for the next block, and its worker can answer it: no buffer is held back.\<close>

lemma idle_requests:
  assumes ok: "tf_ok T" and inv: "threaded_inv T f" and idle: "client_idle (th_joint f)" and q: "queue (th_client f) = []"
  obtains g where "threaded_step T f g" "threaded_todo T g \<le> threaded_todo T f" "threaded_inv T g" "client_idle (th_joint g)"
    "receiving (shared (th_client g))" "queue (th_client g) = []" "lent (th_client g) = {}"
proof -
  let ?j = "th_joint f" and ?c = "th_client f" and ?g = "threaded_client False [] f"
  let ?j' = "client_turn False [] (with_script (offer ?c) ?j)"
  obtain u where u: "early_select (client_granted [False] [] (jt_client (with_script (client_script T ?c) ?j))) = (Blocked, u)"
    "client_polls (client_granted [False] [] (jt_client ?j))" "client_may T ?j []" "client_idle (?j\<lparr>jt_client := client_granted [] [] u\<rparr>)"
    "client_held u = []" by (rule idle_polls [OF ok inv idle])
  have fits: "client_fits T ?j ?c" and J: "joint_inv T (with_script (client_script T ?c) ?j)"
    using inv by (simp_all add: threaded_inv_def backend_inv_def scripted_def)
  have run: "jt_client_end ?j = None" using idle by (simp add: client_idle_def)
  have "\<not> client_polls (client_granted [False] [] (jt_client ?j)) \<or> queue ?c = [] \<and> \<not> all_exited ?c"
    using never_ends_early [OF ok fits J run, of False "[]"] q by blast
  from client_turn_early [OF this u(1)]
  have T: "with_script (client_script T ?c) ?j' = ?j\<lparr>jt_client := client_granted [] [] u, jt_client_end := None\<rparr>" by (simp add: loop_result_def)
  from arg_cong [OF this, of jt_client_end] arg_cong [OF this, of "client_held \<circ> jt_client"] u(5)
  have e: "jt_client_end ?j' = None" "client_held (jt_client ?j') = []" by simp_all
  have g: "th_joint ?g = with_script [] (with_script (client_script T ?c) ?j')" "th_client ?g = drop_loans [] (recv_poll ?c)"
    using u(2) e by (simp_all add: threaded_client_def Let_def)
  have "client_idle (th_joint ?g)" using u(4) unfolding g(1) T by (simp add: client_idle_def with_script_def)
  moreover have "queue (th_client ?g) = []" "receiving (shared (th_client ?g))" "lent (th_client ?g) = {}" using q by (simp_all add: g(2))
  ultimately show thesis
    using that [OF threaded_step.client [OF u(3)] client_without_block(1) [OF ok inv u(3)] client_keeps(1) [OF ok inv u(3) refl]] q by blast
qed

lemma client_thread_runs:
  assumes ok: "tf_ok T" and acts: "(\<lambda>c c'. thread_act i c = Some c')\<^sup>*\<^sup>* (th_client f) c" and inv: "threaded_inv T f" and i: "i < length (senders (th_client f))"
  shows "(threaded_step T)\<^sup>*\<^sup>* f (f\<lparr>th_client := c\<rparr>) \<and> threaded_inv T (f\<lparr>th_client := c\<rparr>) \<and> received c = received (th_client f)
    \<and> length (senders c) = length (senders (th_client f))"
  using acts
proof (induction rule: rtranclp_induct)
  case base
  then show ?case using inv by simp
next
  case (step c d)
  then have c: "threaded_inv T (f\<lparr>th_client := c\<rparr>)" "i < length (senders c)" using i by simp_all
  from step.hyps(2) have "length (senders d) = length (senders c)" by (cases rule: thread_act_cases) simp_all
  moreover have "threaded_step T (f\<lparr>th_client := c\<rparr>) (f\<lparr>th_client := d\<rparr>)"
    using threaded_step.thread [of i "f\<lparr>th_client := c\<rparr>" d T] step.hyps(2) c(2) by simp
  moreover have "threaded_inv T (f\<lparr>th_client := d\<rparr>) \<and> received d = received c"
    using client_thread_keeps [OF ok c(1), of i d] step.hyps(2) c(2) by simp
  ultimately show ?case using step.IH by (auto intro: rtranclp.rtrancl_into_rtrancl)
qed

lemma idle_goes_on:
  assumes ok: "tf_ok T" and inv: "threaded_inv T f" and idle: "client_idle (th_joint f)"
  shows "threaded_goes_on T f"
proof (cases "queue (th_client f) = []")
  case True
  obtain g where g: "threaded_step T f g" "threaded_todo T g \<le> threaded_todo T f" "threaded_inv T g" "client_idle (th_joint g)"
    "receiving (shared (th_client g))" "queue (th_client g) = []" "lent (th_client g) = {}" by (rule idle_requests [OF ok inv idle True])
  let ?c = "th_client g"
  have fits: "client_fits T (th_joint g) ?c" and J: "joint_inv T (with_script (client_script T ?c) (th_joint g))"
    using g(3) by (simp_all add: threaded_inv_def backend_inv_def scripted_def)
  have run: "jt_client_end (th_joint g) = None" and going: "\<not> cl_hash_comparison_over (jt_client (th_joint g))"
    using g(4) by (simp_all add: client_idle_def)
  note I = fits_client [OF ok fits]
  have "length (received ?c) + length (queue ?c) < tf_count T" using client_next_block(3) [OF ok fits J run] going I(3) g(6) by simp
  from next_owner [OF tf_work_dealt [OF ok] I(1) this, unfolded g(6), simplified] obtain i v todo where
    i: "i < length (senders ?c)" "s_todo (senders ?c ! i) = (length (received ?c), v) # todo" by metis
  have "\<not> recv_closed (shared ?c)" using fits run by (simp add: client_fits_def)
  from asked_thread_pushes [OF I(1) i g(5-7) this] obtain c where
    c: "(\<lambda>c c'. thread_act i c = Some c')\<^sup>*\<^sup>* ?c c" "queue c = [(length (received ?c), v)]" by blast
  note R = client_thread_runs [OF ok c(1) g(3) i(1)]
  let ?h = "g\<lparr>th_client := c\<rparr>"
  have "threaded_goes_on T ?h" by (rule idle_takes_block [OF ok]) (use R g(4) c(2) in simp_all)
  moreover have "threaded_todo T ?h = threaded_todo T g" using R by (simp add: threaded_todo_def scripted_def client_script_def)
  moreover have "(threaded_step T)\<^sup>*\<^sup>* f ?h" using R g(1) by (meson converse_rtranclp_into_rtranclp)
  ultimately show ?thesis using goes_on_later g(2) by metis
qed (rule idle_takes_block [OF ok inv idle])

text \<open>A client that may write, or that has bytes to read, goes on with or without a block.\<close>

lemma client_goes_on_threaded:
  assumes ok: "tf_ok T" and inv: "threaded_inv T f" and on: "client_goes_on T (th_joint f)"
  shows "threaded_goes_on T f"
proof (cases "client_idle (th_joint f)")
  case False
  let ?s = "jt_client (th_joint f)"
  have busy: "cl_write_block ?s \<noteq> None \<and> [1 :: nat] \<noteq> [] \<or> bytes_of (cl_rx ?s) \<noteq> []"
    using on False by (auto simp: client_goes_on_def client_idle_def)
  have may: "client_may T (th_joint f) [1]" using on by (auto simp: client_may_def client_goes_on_def)
  have "threaded_todo T (threaded_client False [1] f) < threaded_todo T f"
    using client_takes_block [OF ok inv may] client_without_block(2) [OF ok inv may _ busy] busy by blast
  with threaded_step.client [OF may] show ?thesis unfolding threaded_goes_on_def by blast
qed (rule idle_goes_on [OF ok inv])

lemma running_goes_on:
  assumes ok: "tf_ok T" and inv: "threaded_inv T f" and run: "jt_server_end (th_joint f) = None"
  shows "threaded_goes_on T f"
proof -
  let ?f = "scripted T f"
  have B: "backend_inv T ?f" and J: "joint_inv T (th_joint ?f)" using inv by (simp_all add: threaded_inv_def backend_inv_def)
  have "jt_server_end (th_joint ?f) = None" using run by (simp add: scripted_def)
  from session_goes_on [OF ok J this] consider "wire_goes_on T (th_joint ?f)" | "client_goes_on T (th_joint ?f)"
    | "server_goes_on T (th_joint ?f)" | "server_wants_hash T (th_joint ?f)" by blast
  then show ?thesis
  proof cases
    case 1
    then obtain j where "wire_step (th_joint ?f) j" "joint_todo T j < joint_todo T (th_joint ?f)" by (auto simp: wire_goes_on_def)
    with goes_on_step [OF backend_step.wire] have "goes_on T ?f" by simp
    then show ?thesis by (rule backend_goes_on [OF inv])
  next
    case 2
    then have "client_goes_on T (th_joint f)" by (simp add: client_goes_on_def scripted_def)
    then show ?thesis by (rule client_goes_on_threaded [OF ok inv])
  next
    case 3
    then obtain gs ds where "server_may T (th_joint ?f) gs ds" "joint_todo T (server_turn gs ds (th_joint ?f)) < joint_todo T (th_joint ?f)"
      by (auto simp: server_goes_on_def)
    with goes_on_step [OF backend_step.server] have "goes_on T ?f" by (simp add: threaded_server_def)
    then show ?thesis by (rule backend_goes_on [OF inv])
  next
    case 4
    then show ?thesis by (rule backend_goes_on [OF inv wants_hash_goes_on [OF ok B]])
  qed
qed

section \<open>The end of a session\<close>

lemma client_thread_exits:
  assumes ok: "tf_ok T" and inv: "threaded_inv T f" and over: "jt_client_end (th_joint f) \<noteq> None" "receiver (th_client f) = Closed"
    and going: "\<not> all_exited (th_client f)"
  obtains c where "threaded_step T f (f\<lparr>th_client := c\<rparr>)" "threaded_inv T (f\<lparr>th_client := c\<rparr>)" "receiver c = Closed"
    "join_todo c < join_todo (th_client f)"
proof -
  let ?c = "th_client f"
  have fits: "client_fits T (th_joint f) ?c" using inv by (simp add: threaded_inv_def)
  have D: "dropping (tf_work T) ?c"
    using fits_client(1) [OF ok fits] fits over by (auto simp: dropping_def client_fits_def)
  from going obtain i where i: "i < length (senders ?c)" "s_pc (senders ?c ! i) \<noteq> Exited"
    by (auto simp: all_exited_def list_all_length)
  obtain c where c: "thread_act i ?c = Some c" "chan_step ?c c" "join_todo c < join_todo ?c" by (rule thread_act_exits [OF D i])
  have "receiver c = Closed" using dropping_step [OF c(2) D] tf_work_dealt [OF ok] unfolding dropping_def dealt_def by blast
  then show thesis
    using that threaded_step.thread [OF i(1) c(1), of T] client_thread_keeps [OF ok inv i(1) c(1)] c(3) by blast
qed

lemma client_threads_join:
  assumes ok: "tf_ok T"
  shows "threaded_inv T f \<Longrightarrow> jt_client_end (th_joint f) \<noteq> None \<Longrightarrow> receiver (th_client f) = Closed \<Longrightarrow>
    \<exists>c. (threaded_step T)\<^sup>*\<^sup>* f (f\<lparr>th_client := c\<rparr>) \<and> receiver c = Closed \<and> all_exited c"
proof (induction "join_todo (th_client f)" arbitrary: f rule: less_induct)
  case less
  show ?case
  proof (cases "all_exited (th_client f)")
    case True
    then show ?thesis using less.prems(3) by (intro exI [of _ "th_client f"]) simp
  next
    case False
    from client_thread_exits [OF ok less.prems False] obtain c where
      c: "threaded_step T f (f\<lparr>th_client := c\<rparr>)" "threaded_inv T (f\<lparr>th_client := c\<rparr>)" "receiver c = Closed"
        "join_todo c < join_todo (th_client f)" .
    from less.hyps [of "f\<lparr>th_client := c\<rparr>"] c less.prems(2) obtain d where
      "(threaded_step T)\<^sup>*\<^sup>* (f\<lparr>th_client := c\<rparr>) (f\<lparr>th_client := d\<rparr>)" "receiver d = Closed" "all_exited d" by auto
    with c(1) show ?thesis by (meson converse_rtranclp_into_rtranclp)
  qed
qed

lemma client_drops:
  assumes ok: "tf_ok T" and inv: "threaded_inv T f" and over: "jt_client_end (th_joint f) \<noteq> None"
  shows "\<exists>c. (threaded_step T)\<^sup>*\<^sup>* f (f\<lparr>th_client := c\<rparr>) \<and> receiver c = Closed \<and> all_exited c"
proof (cases "receiver (th_client f) = Closed")
  case True
  then show ?thesis using client_threads_join [OF ok inv over] by blast
next
  case False
  let ?f = "f\<lparr>th_client := recv_close (th_client f)\<rparr>"
  have "threaded_step T f ?f" by (rule threaded_step.drop [OF over False])
  moreover have "\<exists>c. (threaded_step T)\<^sup>*\<^sup>* ?f (?f\<lparr>th_client := c\<rparr>) \<and> receiver c = Closed \<and> all_exited c"
    by (rule client_threads_join [OF ok client_drop_keeps [OF ok inv over False]]) (use over in \<open>simp_all add: recv_close_def\<close>)
  ultimately show ?thesis by (auto intro: converse_rtranclp_into_rtranclp)
qed

text \<open>When the server's loop is left so is the client's, and both join their workers.\<close>

lemma session_ends:
  assumes ok: "tf_ok T" and inv: "threaded_inv T f" and over: "jt_server_end (th_joint f) \<noteq> None"
  shows "\<exists>f'. (threaded_step T)\<^sup>*\<^sup>* f f' \<and> threaded_done f'"
proof -
  let ?s = "scripted T f"
  have B: "backend_inv T ?s" and J: "joint_inv T (th_joint ?s)" using inv by (simp_all add: threaded_inv_def backend_inv_def)
  have "jt_server_end (th_joint ?s) \<noteq> None" using over by (simp add: scripted_def)
  from server_drops [OF ok B this] obtain c where
    c: "(backend_step T)\<^sup>*\<^sup>* ?s (?s\<lparr>th_server := c\<rparr>)" "receiver c = Closed" "all_exited c" by blast
  let ?g = "rescript [] (?s\<lparr>th_server := c\<rparr>)"
  have g: "(threaded_step T)\<^sup>*\<^sup>* f ?g" by (rule backend_runs(1) [OF inv c(1)])
  have client: "jt_client_end (th_joint f) \<noteq> None" using joint_roles(1,2) [OF J] over by (simp add: scripted_def)
  then have "jt_client_end (th_joint ?g) \<noteq> None" by (simp add: scripted_def)
  from client_drops [OF ok threaded_steps_keep(1) [OF g ok inv] this] obtain d where
    d: "(threaded_step T)\<^sup>*\<^sup>* ?g (?g\<lparr>th_client := d\<rparr>)" "receiver d = Closed" "all_exited d" by blast
  have "threaded_done (?g\<lparr>th_client := d\<rparr>)"
    using c d client over by (simp add: threaded_done_def joint_done_def scripted_def)
  with g d(1) show ?thesis by (meson rtranclp_trans)
qed

lemma threaded_comes_to_end:
  assumes ok: "tf_ok T"
  shows "threaded_inv T f \<Longrightarrow> \<exists>f'. (threaded_step T)\<^sup>*\<^sup>* f f' \<and> threaded_done f'"
proof (induction "threaded_todo T f" arbitrary: f rule: less_induct)
  case less
  show ?case
  proof (cases "jt_server_end (th_joint f) = None")
    case True
    from running_goes_on [OF ok less.prems True] obtain g where
      g: "(threaded_step T)\<^sup>*\<^sup>* f g" "threaded_todo T g < threaded_todo T f" by (auto simp: threaded_goes_on_def)
    from less.hyps [OF g(2) threaded_steps_keep(1) [OF g(1) ok less.prems]] obtain f' where
      "(threaded_step T)\<^sup>*\<^sup>* g f'" "threaded_done f'" by blast
    with g(1) show ?thesis by (meson rtranclp_trans)
  next
    case False
    then show ?thesis by (rule session_ends [OF ok less.prems])
  qed
qed

lemma threaded_end_synced:
  assumes ok: "tf_ok T" and inv: "threaded_inv T f" and d: "joint_done (th_joint f)"
  shows "jt_client_end (th_joint f) = Some (Ok ()) \<and> jt_server_end (th_joint f) = Some (Ok ())
    \<and> synced (tf_crates T) (tf_algorithm T) (unat (tf_size T)) (tf_src T) (tf_dst T) (sl_file (jt_server (th_joint f)))
    \<and> (collision_free (tf_crates T) (tf_algorithm T) (unat (tf_size T)) (tf_src T) (tf_dst T) \<longrightarrow> sl_file (jt_server (th_joint f)) = tf_src T)"
proof -
  have J: "joint_inv T (th_joint (scripted T f))" using inv by (simp add: threaded_inv_def backend_inv_def)
  have "joint_done (th_joint (scripted T f))" using d by (simp add: joint_done_def scripted_def)
  from joint_end_synced [OF ok J this] show ?thesis by (simp add: scripted_def)
qed

section \<open>Properties\<close>

text \<open>
  C9: The session with its threads and its two channels refines all of its parts. What the two loops, the connection and
  the server's workers do is a run of the joint system for some timing of the client's hash stream; what the threads and the
  receiver do is, on each side, a run of the ordered channel; the hashes handed to the server's loop and the blocks
  handed to the client's loop are those that went through the channels; and at most one waits in each of them.
\<close>

theorem threads_implement_session:
  assumes "tf_ok T" and "(threaded_step T)\<^sup>*\<^sup>* (threaded_start T) f"
  shows "(\<exists>hs j. hs_items hs = tf_items T \<and> hs_no_error hs \<and> (joint_step T)\<^sup>*\<^sup>* (joint_start T hs) j
      \<and> th_joint f = with_script [] j \<and> hs_items (cl_hasher (jt_client j)) = drop (length (received (th_client f))) (tf_items T))
    \<and> chan_reachable (tf_shares T) (th_server f) \<and> chan_reachable (tf_work T) (th_client f)
    \<and> jt_pushed (th_joint f) = length (received (th_server f)) + length (queue (th_server f))
    \<and> length (queue (th_server f)) \<le> 1 \<and> length (queue (th_client f)) \<le> 1"
proof -
  note R = threaded_reachable [OF assms]
  let ?j = "with_script (client_script T (th_client f)) (th_joint f)"
  have C: "chan_fits T (th_joint (scripted T f)) (th_server f)" "client_fits T (th_joint f) (th_client f)"
    using R(1) by (simp_all add: threaded_inv_def backend_inv_def scripted_def)
  have "jt_pushed (th_joint f) = length (received (th_server f)) + length (queue (th_server f)) \<and> length (queue (th_server f)) \<le> 1"
    using C(1) fits_inv [OF assms(1) C(1)] by (simp add: chan_fits_def scripted_def)
  moreover have "length (queue (th_client f)) \<le> 1" by (rule dealt_unlocked(2) [OF fits_client(1) [OF assms(1) C(2)]])
  moreover have "th_joint f = with_script [] ?j" using C(2) script_self [of "th_joint f" "[]"] by (simp add: client_fits_def)
  moreover have "hs_items (cl_hasher (jt_client ?j)) = drop (length (received (th_client f))) (tf_items T)" by simp
  moreover have "chan_reachable (tf_shares T) (th_server f)" "chan_reachable (tf_work T) (th_client f)"
    using C by (simp_all add: chan_fits_def client_fits_def)
  ultimately show ?thesis using R(2) by blast
qed

text \<open>In the sample session worker 0 of the client has called \<open>send\<close>.\<close>

theorem threads_implement_session_witness:
  "\<exists>f hs j. (threaded_step sample_transfer)\<^sup>*\<^sup>* (threaded_start sample_transfer) f \<and> s_pc (senders (th_client f) ! 0) = Checking
     \<and> hs_items hs = tf_items sample_transfer \<and> (joint_step sample_transfer)\<^sup>*\<^sup>* (joint_start sample_transfer hs) j
     \<and> th_joint f = with_script [] j \<and> chan_reachable (tf_work sample_transfer) (th_client f)"
proof -
  let ?T = sample_transfer and ?f = "threaded_start sample_transfer"
  let ?c = "ordered_channel (tf_work sample_transfer)"
  let ?g = "?f\<lparr>th_client := set_pc 0 Checking ?c\<rparr>"
  have w: "tf_work ?T = [[(0, hash_item sample_crates MD5 2 [1, 7, 3] 0)], [(1, hash_item sample_crates MD5 2 [1, 7, 3] 1)]]"
    using hash_work_file [of "[1, 7, 3]" 2 2 "Suc (Suc (Suc 0))" sample_crates MD5] by (simp add: tf_work_def sizes_ok_def div_ceil_def upt_conv_Cons)
  have "thread_act 0 ?c = Some (set_pc 0 Checking ?c)" "0 < length (senders ?c)"
    unfolding w by (simp_all add: thread_act_def ordered_channel_def set_pc_def)
  then have "threaded_step ?T ?f ?g" using threaded_step.thread [of 0 ?f "set_pc 0 Checking ?c" ?T] by (simp add: threaded_start_def)
  then have r: "(threaded_step ?T)\<^sup>*\<^sup>* ?f ?g" by (rule r_into_rtranclp)
  moreover have "s_pc (senders (th_client ?g) ! 0) = Checking" unfolding w by (simp add: set_pc_def ordered_channel_def)
  ultimately show ?thesis using threads_implement_session [OF sample_transfer_ok(1) r] by blast
qed

text \<open>
  C2: A session comes to its end with all its threads. From every state that any interleaving of the client, the
  server, the connection and the worker threads of both sides reaches there is a way on to a state in which both loops
  have been left without an error, \<open>HashStream::drop\<close> has joined every worker on both sides, and the destination is
  synchronised, exactly if no two different blocks collide. In particular the client's workers, whose buffers are held
  back until the blocks are written to the socket, and the connection, which is held up by the server's workers, never wait
  for each other in a circle.
\<close>

theorem threaded_session_ends:
  assumes "tf_ok T" and "(threaded_step T)\<^sup>*\<^sup>* (threaded_start T) f"
  shows "\<exists>f'. (threaded_step T)\<^sup>*\<^sup>* f f' \<and> threaded_done f'
    \<and> jt_client_end (th_joint f') = Some (Ok ()) \<and> jt_server_end (th_joint f') = Some (Ok ())
    \<and> synced (tf_crates T) (tf_algorithm T) (unat (tf_size T)) (tf_src T) (tf_dst T) (sl_file (jt_server (th_joint f')))
    \<and> (collision_free (tf_crates T) (tf_algorithm T) (unat (tf_size T)) (tf_src T) (tf_dst T) \<longrightarrow>
        sl_file (jt_server (th_joint f')) = tf_src T)"
proof -
  have inv: "threaded_inv T f" by (rule threaded_reachable(1) [OF assms])
  from threaded_comes_to_end [OF assms(1) inv] obtain f' where f': "(threaded_step T)\<^sup>*\<^sup>* f f'" "threaded_done f'" by blast
  with threaded_end_synced [OF assms(1) threaded_steps_keep(1) [OF f'(1) assms(1) inv]] show ?thesis
    unfolding threaded_done_def by blast
qed

theorem threaded_session_ends_witness:
  "\<exists>f. (threaded_step sample_transfer)\<^sup>*\<^sup>* (threaded_start sample_transfer) f \<and> threaded_done f
     \<and> synced sample_crates MD5 2 [1, 7, 3] [1, 2, 0] (sl_file (jt_server (th_joint f)))"
proof -
  obtain f where "(threaded_step sample_transfer)\<^sup>*\<^sup>* (threaded_start sample_transfer) f" "threaded_done f"
    and s: "synced (tf_crates sample_transfer) (tf_algorithm sample_transfer) (unat (tf_size sample_transfer)) (tf_src sample_transfer)
      (tf_dst sample_transfer) (sl_file (jt_server (th_joint f)))"
    using threaded_session_ends [OF sample_transfer_ok(1) rtranclp.rtrancl_refl] by blast
  moreover from s have "synced sample_crates MD5 2 [1, 7, 3] [1, 2, 0] (sl_file (jt_server (th_joint f)))" by simp
  ultimately show ?thesis by blast
qed

text \<open>
  C19: The client never holds more blocks in memory than it has workers, however slowly the connection takes them: while its
  loop runs, the block that waits in the ordered channel, the block that is being written to the socket and the blocks
  queued behind it are together at most \<open>opt_workers\<close>. The queue of the loop itself has no bound; it is the loan of the
  buffers that holds the workers back.
\<close>

theorem client_memory_bounded:
  assumes "tf_ok T" and "(threaded_step T)\<^sup>*\<^sup>* (threaded_start T) f" and "jt_client_end (th_joint f) = None"
  shows "length (queue (th_client f)) + (if cl_write_block (jt_client (th_joint f)) = None then 0 else 1)
      + length (cl_blocks_idx_to_send (jt_client (th_joint f))) \<le> unat (opt_workers (tf_options T))"
proof -
  let ?s = "jt_client (th_joint f)" and ?c = "th_client f"
  have fits: "client_fits T (th_joint f) ?c" using threaded_reachable(1) [OF assms(1,2)] by (simp add: threaded_inv_def)
  then have r: "chan_reachable (tf_work T) ?c" and lent: "lent ?c = fst ` set (queue ?c) \<union> set (client_held ?s)"
    and sorted: "sorted_wrt (<) (client_held ?s @ [length (received ?c)])" using assms(3) by (simp_all add: client_fits_def)
  note inv = fits_client(1) [OF assms(1) fits]
  have "distinct (client_held ?s)" using sorted by (simp add: sorted_wrt_append strict_sorted_iff)
  moreover have "set (client_held ?s) \<inter> fst ` set (queue ?c) = {}" "card (fst ` set (queue ?c)) = length (queue ?c)"
    using inv sorted by (auto simp: chan_inv_def sorted_wrt_append)
  ultimately have "card (lent ?c) = length (queue ?c) + length (client_held ?s)"
    unfolding lent by (subst card_Un_disjoint) (auto simp: distinct_card)
  moreover have "length (senders ?c) = length (tf_work T)" using inv by (auto simp: chan_inv_def dest: list_all2_lengthD)
  then have "length (senders ?c) = unat (opt_workers (tf_options T))"
    by (simp add: tf_work_def hash_work_def indexed_items_def hash_workers_def)
  moreover have "length (client_held ?s) = (if cl_write_block ?s = None then 0 else 1) + length (cl_blocks_idx_to_send ?s)"
    by (auto simp: client_held_def split: option.split)
  ultimately show ?thesis using lent_card [OF r] by simp
qed

theorem client_memory_bounded_witness:
  "length (queue (th_client (threaded_start sample_transfer)))
     + length (cl_blocks_idx_to_send (jt_client (th_joint (threaded_start sample_transfer)))) \<le> 2"
  using client_memory_bounded [OF sample_transfer_ok(1) rtranclp.rtrancl_refl]
  by (simp add: threaded_start_def joint_start_def split: if_splits)

end
