(* ===== verification/Resumption.thy ===== *)
theory Resumption
  imports Sync_Session
begin

text \<open>
  Sessions that are cut off. The server takes the end of the stream for the end of the transfer, wherever it comes: it
  has then written the blocks that arrived complete and no part of any other, and it answers \<open>Ack\<close>. The theory shows
  what such a session leaves behind, and that the next one sends exactly what is missing.
\<close>

section \<open>A stream that is cut off\<close>

text \<open>How many blocks are complete within the first \<open>m\<close> bytes.\<close>

fun complete_blocks :: "nat \<Rightarrow> (usize \<times> u8 list) list \<Rightarrow> nat" where
  "complete_blocks m [] = 0"
| "complete_blocks m (b # bs) =
     (if length (block_message b) \<le> m then Suc (complete_blocks (m - length (block_message b)) bs) else 0)"

text \<open>A part of a block is not a block: its offset tells how long it has to be.\<close>

lemma partial_block:
  assumes "block_fits block_size file_size b" and "m < length (block_message b)"
  shows "no_block block_size file_size (take m (block_message b))"
  unfolding no_block_def
proof (intro allI impI notI)
  fix b' more
  assume fits: "block_fits block_size file_size b'" and eq: "take m (block_message b) = block_message b' @ more"
  have len: "length (block_message b') \<le> m" using arg_cong [OF eq, of length] by simp
  have "be_bytes (fst b') = take 8 (take m (block_message b))" unfolding eq by (simp add: block_message_def)
  also have "\<dots> = be_bytes (fst b)" using len by (simp add: block_message_def min_def)
  finally have "fst b' = fst b" by (simp add: be_bytes_inject)
  with fits assms(1) have "length (snd b') = length (snd b)" by (simp add: block_fits_def)
  with len assms(2) show False by (simp add: block_message_def)
qed

lemma cut_stream:
  assumes "list_all (block_fits block_size file_size) blocks"
  shows "\<exists>tail. take m (concat (map block_message blocks)) = concat (map block_message (take (complete_blocks m blocks) blocks)) @ tail
    \<and> no_block block_size file_size tail"
  using assms
proof (induction m blocks rule: complete_blocks.induct)
  case (2 m b bs)
  show ?case
  proof (cases "length (block_message b) \<le> m")
    case True
    then obtain tail where "take (m - length (block_message b)) (concat (map block_message bs))
        = concat (map block_message (take (complete_blocks (m - length (block_message b)) bs) bs)) @ tail"
      "no_block block_size file_size tail" using 2 by auto
    with True show ?thesis by auto
  next
    case False
    then show ?thesis using 2 partial_block [of block_size file_size b m] by auto
  qed
qed simp

section \<open>What it leaves behind\<close>

lemma halfway_blocks:
  assumes B: "0 < B" and len: "length dst = length src"
    and f: "f = apply_blocks dst (map (\<lambda>k. (k * B, block_at B src k)) (take j (differing C a B src dst)))"
  shows "length f = length src"
    and "block_at B f k = (if k \<in> set (take j (differing C a B src dst)) then block_at B src k else block_at B dst k)"
proof -
  let ?ks = "take j (differing C a B src dst)"
  have "distinct ?ks" by (simp add: differing_def)
  moreover have "length (block_at B src k) = length (block_at B dst k)" for k using len by (simp add: length_block_at)
  ultimately have "length f = length dst \<and> (\<forall>k. block_at B f k = (if k \<in> set ?ks then block_at B src k else block_at B dst k))"
    unfolding f by (intro apply_indexed_blocks [OF B])
  with len show "length f = length src" "block_at B f k = (if k \<in> set ?ks then block_at B src k else block_at B dst k)" by simp_all
qed

text \<open>Of the blocks that differed exactly those that did not arrive still differ.\<close>

lemma halfway_differing:
  assumes "0 < B" and "length dst = length src"
    and "f = apply_blocks dst (map (\<lambda>k. (k * B, block_at B src k)) (take j (differing C a B src dst)))"
  shows "differing C a B src f = drop j (differing C a B src dst)"
proof -
  let ?ds = "differing C a B src dst" and ?nb = "div_ceil (length src) B"
  have "differing C a B src f = filter (\<lambda>k. k \<notin> set (take j ?ds)) ?ds"
    unfolding differing_def halfway_blocks(2) [OF assms] by (auto intro!: filter_cong simp: differing_def)
  also have "\<dots> = filter (\<lambda>k. k \<notin> set (take j ?ds)) (take j ?ds @ drop j ?ds)" by simp
  also have "\<dots> = filter (\<lambda>k. k \<notin> set (take j ?ds)) (drop j ?ds)" by (simp only: filter_append) (simp add: filter_empty_conv)
  also have "\<dots> = drop j ?ds"
  proof (rule filter_True)
    have "distinct (take j ?ds @ drop j ?ds)" by (simp add: differing_def)
    then show "\<forall>k \<in> set (drop j ?ds). k \<notin> set (take j ?ds)" unfolding distinct_append by blast
  qed
  finally show ?thesis .
qed

lemma halfway_collision_free:
  assumes "0 < B" and "length dst = length src"
    and "f = apply_blocks dst (map (\<lambda>k. (k * B, block_at B src k)) (take j (differing C a B src dst)))"
    and "collision_free C a B src dst"
  shows "collision_free C a B src f"
  using assms(4) unfolding collision_free_def halfway_blocks(2) [OF assms(1-3)] by simp

section \<open>The session\<close>

text \<open>
  C5: An interrupted transfer does no harm and loses nothing. Let the connection end after any number of bytes of the
  blocks the client sends. The server comes to the end of the session: no file but the destination has changed, and no block
  of it is torn: each is the source's or the one that was there. A further session sends exactly the blocks that did
  not arrive complete in this one, and it is exact if the first one could have been. The server answers \<open>Ack\<close> if no hash is
  queued at the moment it drops the stream of hashes; if one is, it never returns from joining its workers. \<open>left\<close> is the
  channel of the workers at that moment: any state it can be in with the received blocks given back.
\<close>

theorem interrupted_session_resumes:
  assumes "tokio_big_endian C" and "length secret \<le> 255" and "valid_session ses"
    and "ses_filesize ses = word_of_nat (length src)"
    and sizes: "sizes_ok (length src) (ses_block_size ses) workers" "div_ceil (length src) (unat (ses_block_size ses)) < k"
    and "no_faults (disk c) (ses_path ses)" and "\<not> size_refused (disk c) ses force"
    and dst: "dst = resize (dest_before (disk c) (ses_path ses)) (length src)"
    and blocks: "blocks = sent_blocks (ses_block_size ses) src (differing C (ses_algorithm ses) (unat (ses_block_size ses)) src dst)"
    and bytes: "bytes_of (rx c) = handshake_message secret ses force @ take m (concat (map block_message blocks))"
    and "can_send 3 c" and "end_of (rx c) \<noteq> StillOpen" and "sound_sched (de_sched de)"
    and "div_ceil (length src) (unat (ses_block_size ses)) * unat (ses_block_size ses) \<le> accepts (de_sched de)"
    and "\<not> de_flush_fault de" and "\<not> de_sync_fault de"
    and left: "given_back (hash_work k C (ses_algorithm ses) dst (ses_block_size ses) workers) left"
  shows "\<exists>n0 f. (\<forall>n\<ge>n0. \<exists>c'.
        process_new_client C (\<lambda>F. hash_file k C (reliable_env ds left) (files F)) de n secret workers c
          = (if queue left = [] then Ready (Ok Ack) else Pending, c')
        \<and> files (disk c') = (files (disk c))(ses_path ses \<mapsto> f))
    \<and> length f = length src
    \<and> (\<forall>i. block_at (unat (ses_block_size ses)) f i = block_at (unat (ses_block_size ses)) dst i
          \<or> block_at (unat (ses_block_size ses)) f i = block_at (unat (ses_block_size ses)) src i)
    \<and> differing C (ses_algorithm ses) (unat (ses_block_size ses)) src f
        = drop (complete_blocks m blocks) (differing C (ses_algorithm ses) (unat (ses_block_size ses)) src dst)
    \<and> (collision_free C (ses_algorithm ses) (unat (ses_block_size ses)) src dst
        \<longrightarrow> collision_free C (ses_algorithm ses) (unat (ses_block_size ses)) src f)"
proof -
  let ?B = "unat (ses_block_size ses)" and ?a = "ses_algorithm ses" and ?j = "complete_blocks m blocks"
  let ?f = "apply_blocks dst (positions (take ?j blocks))"
  note S = sent_blocks_ok [OF sizes(1) blocks]
  from cut_stream [OF S(1) [folded assms(4)], of m] obtain tail where
    "take m (concat (map block_message blocks)) = concat (map block_message (take ?j blocks)) @ tail"
    and tail: "no_block (ses_block_size ses) (ses_filesize ses) tail" by blast
  with bytes have bytes': "bytes_of (rx c) = handshake_message secret ses force @ concat (map block_message (take ?j blocks)) @ tail"
    by simp
  have run: "\<exists>n0. \<forall>n\<ge>n0. \<exists>c'.
      process_new_client C (\<lambda>F. hash_file k C (reliable_env ds left) (files F)) de n secret workers c
        = (if queue left = [] then Ready (Ok Ack) else Pending, c')
      \<and> files (disk c') = (files (disk c))(ses_path ses \<mapsto> ?f)"
    by (rule hashing.server_applies [OF assms(1-4) conjI [OF sizes] assms(7,8) dst blocks bytes' tail assms(12-18)])
  have B: "0 < ?B" using sizes(1) by (simp add: sizes_ok_def word_less_nat_alt)
  have len: "length dst = length src" by (simp add: dst)
  have f: "?f = apply_blocks dst (map (\<lambda>k. (k * ?B, block_at ?B src k)) (take ?j (differing C ?a ?B src dst)))"
    by (simp only: take_map [symmetric] S(3))
  note H = halfway_blocks [OF B len f] halfway_differing [OF B len f] halfway_collision_free [OF B len f]
  have "\<forall>i. block_at ?B ?f i = block_at ?B dst i \<or> block_at ?B ?f i = block_at ?B src i" unfolding H(2) by simp
  with run H(1,3,4) show ?thesis by blast
qed

text \<open>Two blocks differ; the connection ends two bytes into the second.\<close>

abbreviation sample_blocks :: "(usize \<times> u8 list) list" where
  "sample_blocks \<equiv> sent_blocks 2 [1, 7, 3] (differing sample_crates MD5 (unat (2 :: usize)) [1, 7, 3]
     (resize (dest_before (faultless [[102] \<mapsto> [1, 2]]) [102]) (length [1, 7, 3 :: u8])))"

abbreviation sample_cut :: server_conn where
  "sample_cut \<equiv> \<lparr>rx = [Chunk (handshake_message [120, 121] (sample_session 3) True @ take 12 (concat (map block_message sample_blocks))), Eof],
     tx_sched = replicate 3 (Accept 1), tx_out = [], disk = faultless [[102] \<mapsto> [1, 2]]\<rparr>"

text \<open>The server's workers have not been asked for a hash.\<close>

abbreviation sample_left :: "hs_item channel" where
  "sample_left \<equiv> ordered_channel (hash_work 9 sample_crates MD5 [1, 2, 0] 2 2)"

theorem interrupted_session_resumes_witness:
  "\<exists>n c' f. process_new_client sample_crates (\<lambda>F. hash_file 9 sample_crates (reliable_env (\<lambda>_. 1) sample_left) (files F))
       \<lparr>de_sched = replicate 4 (Accept 1), de_flush_fault = False, de_sync_fault = False\<rparr> n [120, 121] 2 sample_cut = (Ready (Ok Ack), c')
     \<and> files (disk c') [102] = Some f \<and> length f = 3
     \<and> differing sample_crates MD5 2 [1, 7, 3] f = drop (complete_blocks 12 sample_blocks) (differing sample_crates MD5 2 [1, 7, 3] [1, 2, 0])"
proof -
  let ?de = "\<lparr>de_sched = replicate 4 (Accept 1), de_flush_fault = False, de_sync_fault = False\<rparr>"
  have dst: "resize (dest_before (faultless [[102] \<mapsto> [1, 2]]) [102]) (length [1, 7, 3 :: u8]) = [1, 2, 0]"
    by (simp add: dest_before_def fs_metadata_len_def faultless_def resize_def)
  have left: "given_back (hash_work 9 sample_crates MD5 [1, 2, 0] 2 2) sample_left" "queue sample_left = []"
    using distinct_hash_work [of "[1, 2, 0]" 2 2 9 sample_crates MD5]
    by (simp_all add: given_back_def chan_reachable.start sizes_ok_def div_ceil_def) (simp_all add: ordered_channel_def)
  have "\<exists>n0 f. (\<forall>n\<ge>n0. \<exists>c'. process_new_client sample_crates (\<lambda>F. hash_file 9 sample_crates (reliable_env (\<lambda>_. 1) sample_left) (files F)) ?de n
        [120, 121] 2 sample_cut = (if queue sample_left = [] then Ready (Ok Ack) else Pending, c')
        \<and> files (disk c') = (files (disk sample_cut))(ses_path (sample_session 3) \<mapsto> f))
    \<and> length f = length [1, 7, 3 :: u8]
    \<and> (\<forall>i. block_at (unat (ses_block_size (sample_session 3))) f i = block_at (unat (ses_block_size (sample_session 3))) [1, 2, 0] i
          \<or> block_at (unat (ses_block_size (sample_session 3))) f i = block_at (unat (ses_block_size (sample_session 3))) [1, 7, 3] i)
    \<and> differing sample_crates (ses_algorithm (sample_session 3)) (unat (ses_block_size (sample_session 3))) [1, 7, 3] f
        = drop (complete_blocks 12 sample_blocks)
            (differing sample_crates (ses_algorithm (sample_session 3)) (unat (ses_block_size (sample_session 3))) [1, 7, 3] [1, 2, 0])
    \<and> (collision_free sample_crates (ses_algorithm (sample_session 3)) (unat (ses_block_size (sample_session 3))) [1, 7, 3] [1, 2, 0]
        \<longrightarrow> collision_free sample_crates (ses_algorithm (sample_session 3)) (unat (ses_block_size (sample_session 3))) [1, 7, 3] f)"
    by (rule interrupted_session_resumes)
      (simp_all only: dst, simp_all add: left(1) valid_session_def no_faults_def size_refused_def can_send_def faultless_def div_ceil_def sizes_ok_def
        dest_before_def fs_metadata_len_def resize_def)
  then obtain n f where "\<exists>c'. process_new_client sample_crates (\<lambda>F. hash_file 9 sample_crates (reliable_env (\<lambda>_. 1) sample_left) (files F)) ?de n
        [120, 121] 2 sample_cut = (if queue sample_left = [] then Ready (Ok Ack) else Pending, c')
        \<and> files (disk c') = (files (disk sample_cut))(ses_path (sample_session 3) \<mapsto> f)"
    and f: "length f = length [1, 7, 3 :: u8]"
      "differing sample_crates (ses_algorithm (sample_session 3)) (unat (ses_block_size (sample_session 3))) [1, 7, 3] f
        = drop (complete_blocks 12 sample_blocks)
            (differing sample_crates (ses_algorithm (sample_session 3)) (unat (ses_block_size (sample_session 3))) [1, 7, 3] [1, 2, 0])"
    by blast
  moreover from f have "length f = 3" "differing sample_crates MD5 2 [1, 7, 3] f
      = drop (complete_blocks 12 sample_blocks) (differing sample_crates MD5 2 [1, 7, 3] [1, 2, 0])" by simp_all
  moreover have "ses_path (sample_session 3) = [102]" by simp
  ultimately show ?thesis unfolding left(2) simp_thms if_True by (metis fun_upd_same)
qed

end
