(* ===== verification/Remote_Start.thy ===== *)
theory Remote_Start
  imports Wire
begin

text \<open>
  \<open>remote_start.rs\<close>: uploading the program over SSH and starting it as a server. The SSH library,
  the remote shell and the terminal are the environment (\<open>ssh_env\<close>); the model is the order in
  which \<open>remote_start_server\<close> authenticates, the commands it runs and its early returns, as a
  result and the sequence of actions taken. The properties: no command is run without
  authentication, a password is asked for only as the last resort, and the server is started
  with the secret that is returned.
\<close>

section \<open>The environment and the actions\<close>

record RemoteStartOptions =
  rso_address :: rstring
  rso_ssh_port :: "16 word"
  rso_username :: rstring
  rso_identity_file :: "rstring option"
  rso_workers :: u8
  rso_server_port :: "16 word"

datatype ssh_action =
    TryKey rstring
  | TryAgent nat
  | AskPassword
  | TryPassword rstring
  | Exec rstring
  | Upload "u8 list"

record ssh_env =
  ssh_connect :: "rstring \<Rightarrow> bool"               \<comment> \<open>TCP connection, session and SSH handshake\<close>
  ssh_authenticated :: "ssh_action list \<Rightarrow> bool"  \<comment> \<open>\<open>Session::authenticated\<close> after these attempts\<close>
  ssh_agent :: "bool list option"                 \<comment> \<open>the agent's identities: is \<open>userauth\<close> with each \<open>Ok\<close>?\<close>
  ssh_prompt :: "rstring option"                  \<comment> \<open>what the user types\<close>
  ssh_password :: "rstring \<Rightarrow> rstring \<Rightarrow> bool"    \<comment> \<open>is \<open>userauth_password\<close> \<open>Ok\<close>?\<close>
  ssh_open :: "rstring \<Rightarrow> bool"                  \<comment> \<open>a channel for a command: \<open>channel_session\<close>, \<open>exec\<close>\<close>
  ssh_output :: "rstring \<Rightarrow> u8 list option"       \<comment> \<open>the bytes a command prints\<close>
  ssh_write :: "u8 list \<Rightarrow> u8 list \<Rightarrow> bool"       \<comment> \<open>\<open>write_all\<close> of a chunk, after the bytes written so far\<close>
  ssh_finish :: "rstring \<Rightarrow> bool"                \<comment> \<open>\<open>send_eof\<close>, \<open>wait_eof\<close>, \<open>wait_close\<close> of its channel\<close>
  local_open :: bool                              \<comment> \<open>the current executable can be found and opened\<close>
  local_binary :: "u8 list result list"           \<comment> \<open>what successive reads of it return, then end of file\<close>
  random_secret :: rstring                        \<comment> \<open>\<open>Alphanumeric.sample_string(.., 30)\<close>\<close>

section \<open>Authentication\<close>

text \<open>\<open>try_ssh_auth_with_agent\<close>: the identities in turn, up to the first that is accepted.\<close>

fun try_identities :: "nat \<Rightarrow> bool list \<Rightarrow> ssh_action list" where
  "try_identities i [] = []"
| "try_identities i (ok # ids) = (if ok then [TryAgent i] else TryAgent i # try_identities (Suc i) ids)"

definition try_ssh_auth_with_agent :: "ssh_env \<Rightarrow> ssh_action list" where
  "try_ssh_auth_with_agent env =
     (case ssh_agent env of None \<Rightarrow> [] | Some ids \<Rightarrow> try_identities 0 ids)"

text \<open>Lines 40--59. The results of the key file and of the agent are dropped: only the session's state counts.\<close>

definition ssh_authenticate :: "ssh_env \<Rightarrow> RemoteStartOptions \<Rightarrow> unit result \<times> ssh_action list" where
  "ssh_authenticate env options =
     (let acts1 = (case rso_identity_file options of None \<Rightarrow> [] | Some f \<Rightarrow> [TryKey f]);
          acts2 = (if ssh_authenticated env acts1 then acts1 else acts1 @ try_ssh_auth_with_agent env) in
      if ssh_authenticated env acts2 then (Ok (), acts2)
      else
        (case ssh_prompt env of
           None \<Rightarrow> (Err IoError, acts2 @ [AskPassword])
         | Some password \<Rightarrow>
             (let acts3 = acts2 @ [AskPassword, TryPassword password] in
              if \<not> ssh_password env (rso_username options) password then (Err SshError, acts3)
              else if \<not> ssh_authenticated env acts3 then (Err SshNotAuthenticated, acts3)
              else (Ok (), acts3))))"

section \<open>The commands\<close>

text \<open>
  \<open>str::trim\<close> on the output of \<open>mktemp\<close>: the characters with the Unicode property White_Space, in
  UTF-8, are removed at both ends.
\<close>

definition white_space :: "rstring list" where
  "white_space =
     [[9], [10], [11], [12], [13], [32], [194, 133], [194, 160], [225, 154, 128]]
     @ map (\<lambda>b. [226, 128, b]) [128, 129, 130, 131, 132, 133, 134, 135, 136, 137, 138, 168, 169, 175]
     @ [[226, 129, 159], [227, 128, 128]]"

definition starts_with :: "rstring \<Rightarrow> rstring \<Rightarrow> bool" where
  "starts_with s w \<longleftrightarrow> w \<noteq> [] \<and> take (length w) s = w"

function trim_start :: "rstring list \<Rightarrow> rstring \<Rightarrow> rstring" where
  "trim_start ws s =
     (case find (starts_with s) ws of
        None \<Rightarrow> s
      | Some w \<Rightarrow> trim_start ws (drop (length w) s))"
  by pat_completeness auto

termination
proof (relation "measure (\<lambda>(ws, s). length s)")
  fix ws and s w :: rstring
  assume "find (starts_with s) ws = Some w"
  then have "w \<noteq> []" "take (length w) s = w" by (auto simp: find_Some_iff starts_with_def)
  then have "0 < length w" "s \<noteq> []" by auto
  then show "((ws, drop (length w) s), (ws, s)) \<in> measure (\<lambda>(ws, s). length s)" by simp
qed simp

declare trim_start.simps [simp del]

definition trim :: "rstring \<Rightarrow> rstring" where
  "trim s = rev (trim_start (map rev white_space) (rev (trim_start white_space s)))"

text \<open>The copy loop: read up to 1 MiB at a time until a read gives nothing; what was written so far is \<open>uploaded\<close>.\<close>

fun copy_binary :: "(u8 list \<Rightarrow> u8 list \<Rightarrow> bool) \<Rightarrow> u8 list result list \<Rightarrow> u8 list \<Rightarrow> unit result \<times> u8 list" where
  "copy_binary wr [] uploaded = (Ok (), uploaded)"
| "copy_binary wr (Inl e # reads) uploaded = (Err e, uploaded)"
| "copy_binary wr (Inr bs # reads) uploaded =
     (if bs = [] then (Ok (), uploaded)
      else if wr uploaded bs then copy_binary wr reads (uploaded @ bs)
      else (Err SshError, uploaded))"

definition server_command :: "rstring \<Rightarrow> RemoteStartOptions \<Rightarrow> rstring \<Rightarrow> rstring" where
  "server_command remote_filename options secret =
     remote_filename @ lit '' --server -d -e -o --port \"'' @ dec (unat (rso_server_port options))
     @ lit ''\" --secret \"'' @ secret @ lit ''\" -w '' @ dec (unat (rso_workers options))"

text \<open>The four commands; each is a result and the actions taken.\<close>

definition run_mktemp :: "ssh_env \<Rightarrow> rstring result \<times> ssh_action list" where
  "run_mktemp env =
     (let command = lit ''mktemp --tmpdir deltasync.XXXXXXXX'' in
      if \<not> ssh_open env command then (Err SshError, [])
      else
        (case ssh_output env command of
           None \<Rightarrow> (Err Panic, [Exec command])
         | Some output \<Rightarrow>
             if \<not> utf8_valid output then (Err Panic, [Exec command])
             else if \<not> ssh_finish env command then (Err SshError, [Exec command])
             else (Ok (trim output), [Exec command])))"

definition upload_binary :: "ssh_env \<Rightarrow> rstring \<Rightarrow> unit result \<times> ssh_action list" where
  "upload_binary env remote_filename =
     (let command = lit ''cat >'' @ remote_filename in
      if \<not> local_open env then (Err IoError, [])
      else if \<not> ssh_open env command then (Err SshError, [])
      else
        (case copy_binary (ssh_write env) (local_binary env) [] of
           (Inl e, uploaded) \<Rightarrow> (Err e, [Exec command, Upload uploaded])
         | (Inr _, uploaded) \<Rightarrow>
             (if ssh_finish env command then Ok () else Err SshError, [Exec command, Upload uploaded])))"

definition run_command :: "ssh_env \<Rightarrow> rstring \<Rightarrow> unit result \<times> ssh_action list" where
  "run_command env command =
     (if \<not> ssh_open env command then (Err SshError, [])
      else (if ssh_finish env command then Ok () else Err SshError, [Exec command]))"

text \<open>The \<open>?\<close> operator, which keeps the actions already taken.\<close>

definition and_then :: "'a result \<times> ssh_action list \<Rightarrow> ('a \<Rightarrow> 'b result \<times> ssh_action list) \<Rightarrow>
    'b result \<times> ssh_action list" where
  "and_then m k =
     (case m of
        (Inl e, acts) \<Rightarrow> (Err e, acts)
      | (Inr x, acts) \<Rightarrow> (case k x of (r, acts') \<Rightarrow> (r, acts @ acts')))"

definition remote_start_server :: "ssh_env \<Rightarrow> RemoteStartOptions \<Rightarrow> rstring result \<times> ssh_action list" where
  "remote_start_server env options =
     (if \<not> ssh_connect env (rso_address options @ lit '':'' @ dec (unat (rso_ssh_port options)))
      then (Err IoError, [])
      else
        and_then (ssh_authenticate env options) (\<lambda>_.
        and_then (run_mktemp env) (\<lambda>remote_filename.
        and_then (upload_binary env remote_filename) (\<lambda>_.
        and_then (run_command env (lit ''chmod +x '' @ remote_filename)) (\<lambda>_.
        and_then (run_command env (server_command remote_filename options (random_secret env))) (\<lambda>_.
        (Ok (random_secret env), [])))))))"

section \<open>Lemmas\<close>

lemma and_then_eq_iff:
  "and_then m k = (r, acts) \<longleftrightarrow>
     (\<exists>e. m = (Inl e, acts) \<and> r = Inl e)
     \<or> (\<exists>x acts1 acts2. m = (Inr x, acts1) \<and> k x = (r, acts2) \<and> acts = acts1 @ acts2)"
  by (cases m; cases "fst m") (auto simp: and_then_def split: prod.splits)

lemma run_command_Ok: "run_command env command = (Ok u, acts) \<Longrightarrow> acts = [Exec command]"
  by (auto simp: run_command_def split: if_splits)

lemma run_mktemp_Ok:
  "run_mktemp env = (Ok f, acts) \<Longrightarrow>
     acts = [Exec (lit ''mktemp --tmpdir deltasync.XXXXXXXX'')]
     \<and> (\<exists>output. ssh_output env (lit ''mktemp --tmpdir deltasync.XXXXXXXX'') = Some output \<and> f = trim output)"
  by (auto simp: run_mktemp_def Let_def split: if_splits option.splits)

lemma upload_binary_Ok:
  "upload_binary env f = (Ok u, acts) \<Longrightarrow>
     \<exists>uploaded. copy_binary (ssh_write env) (local_binary env) [] = (Ok (), uploaded) \<and> acts = [Exec (lit ''cat >'' @ f), Upload uploaded]"
  by (auto simp: upload_binary_def Let_def split: if_splits sum.splits prod.splits)

text \<open>A complete upload is the whole executable: the chunks up to the first empty read.\<close>

definition binary_content :: "u8 list result list \<Rightarrow> u8 list" where
  "binary_content reads = concat (map projr (takeWhile (\<lambda>r. r \<noteq> Ok []) reads))"

lemma copy_binary_Ok:
  "copy_binary wr reads uploaded = (Ok u, uploaded') \<Longrightarrow> uploaded' = uploaded @ binary_content reads"
  by (induction wr reads uploaded rule: copy_binary.induct) (auto simp: binary_content_def split: if_splits)

fun is_command :: "ssh_action \<Rightarrow> bool" where
  "is_command (Exec _) = True"
| "is_command (Upload _) = True"
| "is_command _ = False"

lemma try_identities_quiet: "a \<in> set (try_identities i ids) \<Longrightarrow> \<exists>j. a = TryAgent j"
  by (induction i ids rule: try_identities.induct) (auto split: if_splits)

lemma try_agent_quiet: "a \<in> set (try_ssh_auth_with_agent env) \<Longrightarrow> \<exists>j. a = TryAgent j"
  by (auto simp: try_ssh_auth_with_agent_def dest: try_identities_quiet split: option.splits)

lemma authenticate_quiet: "ssh_authenticate env options = (r, acts) \<Longrightarrow> list_all (\<lambda>a. \<not> is_command a) acts"
  by (auto simp: ssh_authenticate_def Let_def list_all_iff dest!: try_agent_quiet
      split: option.splits if_splits)

lemma authenticate_Ok: "ssh_authenticate env options = (Ok u, acts) \<Longrightarrow> ssh_authenticated env acts"
  by (auto simp: ssh_authenticate_def Let_def split: option.splits if_splits)

text \<open>The start is the authentication followed by the rest.\<close>

lemma remote_start_split:
  assumes "remote_start_server env options = (r, acts)" and "acts \<noteq> []"
  shows "\<exists>x auth rest. ssh_authenticate env options = (x, auth) \<and> acts = auth @ rest
    \<and> (rest \<noteq> [] \<longrightarrow> x = Ok ()) \<and> list_all is_command rest"
proof -
  obtain x auth where a: "ssh_authenticate env options = (x, auth)" by fastforce
  have cmds: "list_all is_command acts'" if "run_command env c = (r', acts')" for c r' acts'
    using that by (auto simp: run_command_def split: if_splits)
  have mk: "list_all is_command acts'" if "run_mktemp env = (r', acts')" for r' acts'
    using that by (auto simp: run_mktemp_def Let_def split: if_splits option.splits)
  have up: "list_all is_command acts'" if "upload_binary env f = (r', acts')" for f r' acts'
    using that by (auto simp: upload_binary_def Let_def split: if_splits prod.splits sum.splits)
  from assms a show ?thesis
    by (auto simp: remote_start_server_def and_then_eq_iff dest: cmds mk up split: if_splits)
qed

section \<open>Properties\<close>

text \<open>
  C32: Nothing is executed on, or uploaded to, a machine whose SSH session is not authenticated:
  the actions are attempts to authenticate followed by commands, and when there is a command at all,
  the session was authenticated after the attempts.
\<close>

theorem no_command_without_authentication:
  assumes "remote_start_server env options = (r, acts)"
  shows "\<exists>auth commands. acts = auth @ commands \<and> list_all (\<lambda>a. \<not> is_command a) auth
    \<and> list_all is_command commands \<and> (commands = [] \<or> ssh_authenticated env auth)"
proof (cases "acts = []")
  case False
  from remote_start_split [OF assms this] obtain x auth rest where
    s: "ssh_authenticate env options = (x, auth)" "acts = auth @ rest" "rest \<noteq> [] \<longrightarrow> x = Ok ()" "list_all is_command rest"
    by blast
  then have "rest = [] \<or> ssh_authenticated env auth" by (auto dest: authenticate_Ok)
  with s authenticate_quiet [OF s(1)] show ?thesis by blast
qed simp

text \<open>An environment in which the agent's second key and the password work.\<close>

abbreviation sample_ssh :: "bool list \<Rightarrow> rstring \<Rightarrow> ssh_env" where
  "sample_ssh ids typed \<equiv> \<lparr>ssh_connect = \<lambda>_. True,
     ssh_authenticated = \<lambda>acts. TryAgent 1 \<in> set acts \<or> TryPassword [113] \<in> set acts,
     ssh_agent = Some ids, ssh_prompt = Some typed, ssh_password = \<lambda>u p. p = [113], ssh_open = \<lambda>_. True,
     ssh_output = \<lambda>_. Some [102, 10], ssh_write = \<lambda>_ _. True, ssh_finish = \<lambda>_. True, local_open = True,
     local_binary = [Ok [1, 2], Ok [3]], random_secret = [115]\<rparr>"

abbreviation sample_start :: RemoteStartOptions where
  "sample_start \<equiv> \<lparr>rso_address = [], rso_ssh_port = 22, rso_username = [117], rso_identity_file = Some [107],
     rso_workers = 4, rso_server_port = 15000\<rparr>"

lemmas remote_start_defs = remote_start_server_def ssh_authenticate_def try_ssh_auth_with_agent_def and_then_def
  run_mktemp_def upload_binary_def run_command_def Let_def

theorem no_command_without_authentication_witness:
  "\<exists>acts. remote_start_server (sample_ssh [False] [112]) sample_start = (Err SshError, acts)
     \<and> list_all (\<lambda>a. \<not> is_command a) acts"
proof -
  let ?acts = "[TryKey [107], TryAgent 0, AskPassword, TryPassword [112]]"
  have r: "remote_start_server (sample_ssh [False] [112]) sample_start = (Err SshError, ?acts)"
    by (simp add: remote_start_defs)
  from no_command_without_authentication [OF r] obtain auth commands where
    s: "?acts = auth @ commands" "list_all (\<lambda>a. \<not> is_command a) auth"
    "commands = [] \<or> ssh_authenticated (sample_ssh [False] [112]) auth" by blast
  from s(1) have "set auth \<subseteq> set ?acts" by (metis Un_upper1 set_append)
  with s(3) have "commands = []" by auto
  with s have "list_all (\<lambda>a. \<not> is_command a) ?acts" by simp
  with r show ?thesis by blast
qed

lemma remote_start_Ok:
  assumes "remote_start_server env options = (Ok secret, acts)"
  shows "\<exists>output auth. secret = random_secret env \<and> ssh_authenticated env auth
    \<and> ssh_output env (lit ''mktemp --tmpdir deltasync.XXXXXXXX'') = Some output
    \<and> acts = auth @ [Exec (lit ''mktemp --tmpdir deltasync.XXXXXXXX''), Exec (lit ''cat >'' @ trim output),
        Upload (binary_content (local_binary env)), Exec (lit ''chmod +x '' @ trim output),
        Exec (server_command (trim output) options secret)]"
proof -
  from assms obtain auth u1 a1 f a2 u2 a3 u3 a4 u4 where
    au: "ssh_authenticate env options = (Ok u1, auth)" and mk: "run_mktemp env = (Ok f, a1)"
    and up: "upload_binary env f = (Ok u2, a2)" and ch: "run_command env (lit ''chmod +x '' @ f) = (Ok u3, a3)"
    and sv: "run_command env (server_command f options (random_secret env)) = (Ok u4, a4)"
    and "acts = auth @ a1 @ a2 @ a3 @ a4" "secret = random_secret env"
    by (auto simp: remote_start_server_def and_then_eq_iff split: if_splits)
  with authenticate_Ok [OF au] run_mktemp_Ok [OF mk] upload_binary_Ok [OF up] run_command_Ok [OF ch] run_command_Ok [OF sv]
  show ?thesis by (auto dest!: copy_binary_Ok)
qed

lemma remote_start_last:
  "remote_start_server env options = (Ok secret, acts) \<Longrightarrow> \<exists>f. last acts = Exec (server_command f options secret)"
  by (drule remote_start_Ok) auto

text \<open>
  C33: When the start succeeds, the session was authenticated, exactly four commands were run (make a
  temporary file, write the whole program to it, make it executable, start it as a one-shot
  server), and the secret given to the server is the one returned to the client.
\<close>

theorem remote_start_commands:
  assumes "remote_start_server env options = (Ok secret, acts)"
  shows "\<exists>output auth. secret = random_secret env \<and> ssh_authenticated env auth
    \<and> ssh_output env (lit ''mktemp --tmpdir deltasync.XXXXXXXX'') = Some output
    \<and> acts = auth @ [Exec (lit ''mktemp --tmpdir deltasync.XXXXXXXX''), Exec (lit ''cat >'' @ trim output),
        Upload (binary_content (local_binary env)), Exec (lit ''chmod +x '' @ trim output),
        Exec (server_command (trim output) options secret)]"
  using remote_start_Ok [OF assms] .

lemma trim_sample: "trim [102, 10] = [102]"
  by (simp add: trim_def white_space_def starts_with_def trim_start.simps)

theorem remote_start_commands_witness:
  "\<exists>acts. remote_start_server (sample_ssh [False, True] []) sample_start = (Ok [115], acts)
     \<and> last acts = Exec (server_command [102] sample_start [115])
     \<and> Upload [1, 2, 3] \<in> set acts"
proof -
  obtain r acts where r: "remote_start_server (sample_ssh [False, True] []) sample_start = (r, acts)" by fastforce
  then have ok: "r = Ok [115]" by (auto simp: remote_start_defs)
  from r remote_start_commands [OF r [unfolded ok]] show ?thesis
    by (auto simp: ok trim_sample binary_content_def)
qed

abbreviation key_attempt :: "RemoteStartOptions \<Rightarrow> ssh_action list" where
  "key_attempt options \<equiv> (case rso_identity_file options of None \<Rightarrow> [] | Some f \<Rightarrow> [TryKey f])"

lemma authenticate_asks:
  assumes "ssh_authenticate env options = (r, acts)" and "AskPassword \<in> set acts"
  shows "\<exists>rest. acts = (key_attempt options @ try_ssh_auth_with_agent env) @ AskPassword # rest"
    and "\<not> ssh_authenticated env (key_attempt options)"
    and "\<not> ssh_authenticated env (key_attempt options @ try_ssh_auth_with_agent env)"
  using assms
  by (auto simp: ssh_authenticate_def Let_def dest!: try_agent_quiet split: option.splits if_splits)

text \<open>
  The user is asked for a password only as the last resort: after the key file (if one was given)
  and the identities of the agent have been tried, with the session still not authenticated.
\<close>

lemma password_is_last_resort:
  assumes "remote_start_server env options = (r, acts)" and "AskPassword \<in> set acts"
  shows "\<exists>rest. acts = (key_attempt options @ try_ssh_auth_with_agent env) @ AskPassword # rest
    \<and> \<not> ssh_authenticated env (key_attempt options)
    \<and> \<not> ssh_authenticated env (key_attempt options @ try_ssh_auth_with_agent env)"
proof -
  from assms(2) have "acts \<noteq> []" by auto
  from remote_start_split [OF assms(1) this] obtain x auth rest where
    s: "ssh_authenticate env options = (x, auth)" "acts = auth @ rest" "list_all is_command rest" by blast
  with assms(2) have "AskPassword \<in> set auth" by (auto simp: list_all_iff)
  from authenticate_asks [OF s(1) this] s(2) show ?thesis by auto
qed

end
