(* ===== verification/Program.thy ===== *)
theory Program
  imports Server Client Remote_Start
begin

text \<open>
  The program itself: \<open>main.rs\<close> and the path helper of \<open>utils.rs\<close>. The arguments are a record; the
  server's accept loop with its client counter is a step relation, because the sessions run
  as tasks of their own; the client's preparation of its options is a function. The properties:
  one client at a time, the busy answer, one session in one-shot mode, what a refused client is
  told, and that the client uses the secret with which the remote server was started.
\<close>

section \<open>Arguments\<close>

record Args =
  arg_server :: bool
  arg_ip :: "rstring option"
  arg_port :: "16 word"
  arg_secret :: "rstring option"
  arg_one_shot :: bool
  arg_force_truncate :: bool
  arg_workers :: u8
  arg_block_size :: usize
  arg_hash :: HashAlgorithm
  arg_ephemeral :: bool
  arg_detached :: bool
  arg_remote_start :: bool
  arg_remote_start_user :: "rstring option"
  arg_remote_start_port :: "16 word"
  arg_remote_start_workers :: "u8 option"
  arg_identity_file :: "rstring option"
  arg_src :: "rstring option"
  arg_dest :: "rstring option"

definition unwrap_or :: "'a option \<Rightarrow> 'a \<Rightarrow> 'a" where
  "unwrap_or x d = (case x of None \<Rightarrow> d | Some y \<Rightarrow> y)"

text \<open>
  Lines 133--148: an ephemeral program removes its executable, a detached one forks into the
  background; then the secret. \<open>removed\<close> and \<open>daemonized\<close> are the outcomes of the two system calls.
\<close>

definition main_secret :: "Args \<Rightarrow> rstring result" where
  "main_secret args =
     (let secret = unwrap_or (arg_secret args) [] in
      if length secret > 255 then Err SecretTooLong else Ok secret)"

definition main_start :: "bool \<Rightarrow> bool \<Rightarrow> Args \<Rightarrow> rstring result" where
  "main_start removed daemonized args =
     (if arg_ephemeral args \<and> \<not> removed then Err IoError
      else if arg_detached args \<and> \<not> daemonized then Err IoError
      else main_secret args)"

definition address_of :: "rstring \<Rightarrow> 16 word \<Rightarrow> rstring" where
  "address_of ip port = ip @ lit '':'' @ dec (unat port)"

section \<open>Paths\<close>

text \<open>
  \<open>absolute_path\<close> of \<open>utils.rs\<close>. The current directory may be unavailable; \<open>clean\<close> is \<open>PathClean::clean\<close>
  of the \<open>path_clean\<close> crate.
\<close>

definition is_absolute :: "rstring \<Rightarrow> bool" where
  "is_absolute p \<longleftrightarrow> p \<noteq> [] \<and> hd p = 47"

text \<open>\<open>Path::join\<close> with a relative path: a separator is added unless the directory is empty or ends with one.\<close>

definition join_path :: "rstring \<Rightarrow> rstring \<Rightarrow> rstring" where
  "join_path dir p = (if dir = [] \<or> last dir = 47 then dir @ p else dir @ [47] @ p)"

definition absolute_path :: "(rstring \<Rightarrow> rstring) \<Rightarrow> rstring option \<Rightarrow> rstring \<Rightarrow> rstring result" where
  "absolute_path clean current_dir path =
     (if is_absolute path then Ok (clean path)
      else
        (case current_dir of
           None \<Rightarrow> Err IoError
         | Some dir \<Rightarrow> Ok (clean (join_path dir path))))"

text \<open>
  The path sent to the server is absolute, whatever the working directory of the client, and cleaning it
  again changes nothing, as far as \<open>clean\<close> keeps rooted paths rooted and is idempotent.
\<close>

lemma absolute_path_absolute:
  assumes "\<And>p. is_absolute p \<Longrightarrow> is_absolute (clean p)" and "\<And>p. clean (clean p) = clean p"
    and "\<And>dir. current_dir = Some dir \<Longrightarrow> is_absolute dir"
    and "absolute_path clean current_dir path = Ok p"
  shows "is_absolute p \<and> absolute_path clean other_dir p = Ok p"
proof -
  have "is_absolute (join_path dir path)" if "is_absolute dir" for dir
    using that by (simp add: is_absolute_def join_path_def)
  with assms show ?thesis
    by (auto simp: absolute_path_def split: if_splits option.splits)
qed

section \<open>The client\<close>

text \<open>Lines 198--239: the secret, the paths and the options for \<open>new_process\<close>.\<close>

definition client_secret :: "(RemoteStartOptions \<Rightarrow> rstring result) \<Rightarrow> rstring option \<Rightarrow> Args \<Rightarrow> rstring \<Rightarrow> rstring \<Rightarrow>
    rstring result" where
  "client_secret start current_username args ip secret =
     (if arg_remote_start args then
        (case (case arg_remote_start_user args of Some u \<Rightarrow> Some u | None \<Rightarrow> current_username) of
           None \<Rightarrow> Err NoUsername
         | Some username \<Rightarrow>
             start \<lparr>rso_address = ip, rso_ssh_port = arg_remote_start_port args, rso_username = username,
               rso_identity_file = arg_identity_file args,
               rso_workers = unwrap_or (arg_remote_start_workers args) (arg_workers args),
               rso_server_port = arg_port args\<rparr>)
      else Ok secret)"

definition client_options :: "(RemoteStartOptions \<Rightarrow> rstring result) \<Rightarrow> rstring option \<Rightarrow> (rstring \<Rightarrow> rstring result) \<Rightarrow>
    Args \<Rightarrow> rstring \<Rightarrow> ClientProcessOptions result" where
  "client_options start current_username abs_path args secret0 =
     (let ip = unwrap_or (arg_ip args) (lit ''127.0.0.1'') in
     bind_result (client_secret start current_username args ip secret0) (\<lambda>secret.
     bind_result (case arg_src args of None \<Rightarrow> Err MissingSource | Some s \<Rightarrow> abs_path s) (\<lambda>src.
     bind_result (case arg_dest args of Some d \<Rightarrow> abs_path d | None \<Rightarrow> Ok src) (\<lambda>dest.
     Ok \<lparr>opt_address = address_of ip (arg_port args), opt_secret = secret, opt_src_path = src, opt_dest = dest,
         opt_force_truncate = arg_force_truncate args, opt_workers = arg_workers args,
         opt_block_size = arg_block_size args, opt_hash_algorithm = arg_hash args\<rparr>))))"

text \<open>
  The client as a program (\<open>run\<close> is \<open>new_process\<close>): what \<open>main\<close> returns, and the error it prints. An
  error of the session is only printed.
\<close>

definition main_client :: "bool \<Rightarrow> bool \<Rightarrow> (RemoteStartOptions \<Rightarrow> rstring result) \<Rightarrow> rstring option \<Rightarrow>
    (rstring \<Rightarrow> rstring result) \<Rightarrow> (ClientProcessOptions \<Rightarrow> unit result) \<Rightarrow> Args \<Rightarrow> unit result \<times> error option" where
  "main_client removed daemonized start current_username abs_path run args =
     (case bind_result (main_start removed daemonized args) (client_options start current_username abs_path args) of
        Inl e \<Rightarrow> (Err e, None)
      | Inr options \<Rightarrow> (Ok (), case run options of Inl e \<Rightarrow> Some e | Inr _ \<Rightarrow> None))"

section \<open>The server\<close>

text \<open>The address the server listens on (lines 152--157).\<close>

definition listen_address :: "Args \<Rightarrow> rstring" where
  "listen_address args = address_of (unwrap_or (arg_ip args) (lit ''0.0.0.0'')) (arg_port args)"

text \<open>
  The body of the task spawned for a client (lines 166--185), up to the counter: run the session
  and send the final status; an error only goes to the log.
\<close>

definition serve_client :: "crates \<Rightarrow> hashing \<Rightarrow> disk_env \<Rightarrow> nat \<Rightarrow> rstring \<Rightarrow> u8 \<Rightarrow> server_conn \<Rightarrow> server_conn" where
  "serve_client C hash_file de n secret workers c =
     (case process_new_client C hash_file de n secret workers c of
        (Ready (Inr status), c') \<Rightarrow> snd (write_status status c')
      | (_, c') \<Rightarrow> c')"

text \<open>
  The accept loop. Clients are numbered in the order of their connections; \<open>sp_tasks\<close> are the running
  sessions, \<open>sp_started\<close> all sessions ever started, \<open>sp_answers\<close> the clients turned away.
\<close>

datatype loop_state = Accepting | Awaiting nat | Stopped

record server_process =
  sp_count :: u8                                     \<comment> \<open>\<open>client_count\<close>\<close>
  sp_loop :: loop_state
  sp_next :: nat
  sp_tasks :: "nat list"
  sp_started :: "nat list"
  sp_answers :: "(nat \<times> StatusCode) list"

definition server_start :: server_process where
  "server_start = \<lparr>sp_count = 0, sp_loop = Accepting, sp_next = 0, sp_tasks = [], sp_started = [], sp_answers = []\<rparr>"

text \<open>A connection is accepted: \<open>compare_exchange(0, 1)\<close>, then a session or the busy answer.\<close>

definition on_accept :: "bool \<Rightarrow> server_process \<Rightarrow> server_process" where
  "on_accept one_shot s =
     (let i = sp_next s in
      if sp_count s = 0 then
        s\<lparr>sp_count := 1, sp_next := Suc i, sp_tasks := sp_tasks s @ [i], sp_started := sp_started s @ [i],
          sp_loop := if one_shot then Awaiting i else Accepting\<rparr>
      else s\<lparr>sp_next := Suc i, sp_answers := sp_answers s @ [(i, ClientAlreadyConnected)]\<rparr>)"

text \<open>A session ends, with whatever result: the counter is stored back to zero.\<close>

definition on_task_end :: "nat \<Rightarrow> server_process \<Rightarrow> server_process" where
  "on_task_end i s = s\<lparr>sp_count := 0, sp_tasks := removeAll i (sp_tasks s)\<rparr>"

inductive server_step :: "bool \<Rightarrow> server_process \<Rightarrow> server_process \<Rightarrow> bool" for one_shot where
  accept: "sp_loop s = Accepting \<Longrightarrow> server_step one_shot s (on_accept one_shot s)"
| accept_error: "sp_loop s = Accepting \<Longrightarrow> server_step one_shot s (s\<lparr>sp_loop := Stopped\<rparr>)"
| task_end: "i \<in> set (sp_tasks s) \<Longrightarrow> server_step one_shot s (on_task_end i s)"
| awaited: "sp_loop s = Awaiting i \<Longrightarrow> i \<notin> set (sp_tasks s) \<Longrightarrow> server_step one_shot s (s\<lparr>sp_loop := Stopped\<rparr>)"

inductive server_reachable :: "bool \<Rightarrow> server_process \<Rightarrow> bool" for one_shot where
  start: "server_reachable one_shot server_start"
| step: "server_reachable one_shot s \<Longrightarrow> server_step one_shot s s' \<Longrightarrow> server_reachable one_shot s'"

inductive_cases server_stepE: "server_step one_shot s s'"

section \<open>One client at a time\<close>

definition program_inv :: "bool \<Rightarrow> server_process \<Rightarrow> bool" where
  "program_inv one_shot s \<longleftrightarrow>
     (sp_tasks s = [] \<and> sp_count s = 0 \<or> (\<exists>i < sp_next s. sp_tasks s = [i] \<and> sp_count s = 1))
     \<and> (one_shot \<longrightarrow> sp_answers s = [] \<and>
          (if sp_loop s = Accepting then sp_started s = [] \<and> sp_tasks s = [] else length (sp_started s) \<le> 1))
     \<and> (\<not> one_shot \<longrightarrow> (\<forall>i. sp_loop s \<noteq> Awaiting i))
     \<and> distinct (sp_started s @ map fst (sp_answers s))
     \<and> set (sp_started s @ map fst (sp_answers s)) = {..<sp_next s}
     \<and> (\<forall>(i, st) \<in> set (sp_answers s). st = ClientAlreadyConnected)"

lemma program_inv_start: "program_inv one_shot server_start"
  by (simp add: program_inv_def server_start_def)

lemma program_inv_step: "server_step one_shot s s' \<Longrightarrow> program_inv one_shot s \<Longrightarrow> program_inv one_shot s'"
  by (erule server_stepE)
    (auto simp: program_inv_def on_accept_def on_task_end_def Let_def lessThan_Suc split: if_splits)

lemma program_inv_reachable: "server_reachable one_shot s \<Longrightarrow> program_inv one_shot s"
  by (induction rule: server_reachable.induct) (auto intro: program_inv_start program_inv_step)

text \<open>
  C29: In every state the server can reach, at most one session runs and the counter says whether one
  does; every connection so far was either given a session of its own or told
  \<open>ClientAlreadyConnected\<close>, never both and never neither.
\<close>

theorem one_client_at_a_time:
  assumes "server_reachable one_shot s"
  shows "length (sp_tasks s) \<le> 1 \<and> (sp_count s = 0 \<longleftrightarrow> sp_tasks s = [])
    \<and> distinct (sp_started s @ map fst (sp_answers s))
    \<and> set (sp_started s) \<union> fst ` set (sp_answers s) = {..<sp_next s}
    \<and> snd ` set (sp_answers s) \<subseteq> {ClientAlreadyConnected}"
  using program_inv_reachable [OF assms] by (auto simp: program_inv_def)

abbreviation busy_server :: server_process where
  "busy_server \<equiv> \<lparr>sp_count = 1, sp_loop = Accepting, sp_next = 2, sp_tasks = [0], sp_started = [0],
     sp_answers = [(1, ClientAlreadyConnected)]\<rparr>"

lemma busy_server_reachable: "server_reachable False busy_server"
proof -
  let ?s = "on_accept False server_start"
  have "server_reachable False ?s"
    by (rule server_reachable.step [OF server_reachable.start server_step.accept]) (simp add: server_start_def)
  then have "server_reachable False (on_accept False ?s)"
    by (rule server_reachable.step [OF _ server_step.accept]) (simp add: server_start_def on_accept_def)
  then show ?thesis by (simp add: server_start_def on_accept_def numeral_2_eq_2)
qed

theorem one_client_at_a_time_witness:
  "length (sp_tasks busy_server) \<le> 1 \<and> set (sp_started busy_server) \<union> fst ` set (sp_answers busy_server) = {..<2}"
  using one_client_at_a_time [OF busy_server_reachable] by simp

text \<open>
  In one-shot mode the server starts at most one session in its life, turns nobody away, and once
  that session is over nothing is left to do but to stop.
\<close>

theorem one_shot_serves_one:
  assumes "server_reachable True s"
  shows "length (sp_started s) \<le> 1 \<and> sp_answers s = []
    \<and> (sp_started s \<noteq> [] \<and> sp_tasks s = [] \<and> server_step True s s' \<longrightarrow> sp_loop s' = Stopped)"
proof -
  from program_inv_reachable [OF assms] have inv: "program_inv True s" .
  then have "length (sp_started s) \<le> 1" "sp_answers s = []" by (auto simp: program_inv_def split: if_splits)
  moreover have "sp_loop s' = Stopped" if "sp_started s \<noteq> []" "sp_tasks s = []" "server_step True s s'"
    using that(3,1,2) inv by (cases rule: server_stepE) (auto simp: program_inv_def)
  ultimately show ?thesis by blast
qed

theorem one_shot_serves_one_witness:
  "length (sp_started (on_accept True server_start)) \<le> 1 \<and> sp_answers (on_accept True server_start) = []"
proof -
  have "server_reachable True (on_accept True server_start)"
    by (rule server_reachable.step [OF server_reachable.start server_step.accept]) (simp add: server_start_def)
  from one_shot_serves_one [OF this, of server_start] show ?thesis by simp
qed

text \<open>
  The server never gets stuck before it stops: as long as its loop has not ended it can take a
  step, and a server that is not in one-shot mode comes back to accepting after every session: when
  the running session ends, the next connection is given a session.
\<close>

theorem server_comes_back:
  assumes "server_reachable one_shot s"
  shows "(sp_loop s \<noteq> Stopped \<longrightarrow> (\<exists>s'. server_step one_shot s s'))
    \<and> (\<not> one_shot \<and> sp_loop s = Accepting \<and> sp_tasks s = [i] \<longrightarrow>
        (\<exists>s1 s2. server_step one_shot s s1 \<and> server_step one_shot s1 s2
          \<and> sp_tasks s2 = [sp_next s] \<and> sp_loop s2 = Accepting))"
proof (intro conjI impI)
  assume "sp_loop s \<noteq> Stopped"
  then show "\<exists>s'. server_step one_shot s s'"
    by (cases "sp_loop s") (blast intro: server_step.intros)+
next
  assume a: "\<not> one_shot \<and> sp_loop s = Accepting \<and> sp_tasks s = [i]"
  let ?s1 = "on_task_end i s"
  have "server_step one_shot s ?s1" by (rule server_step.task_end) (simp add: a)
  moreover have "server_step one_shot ?s1 (on_accept one_shot ?s1)"
    by (rule server_step.accept) (simp add: a on_task_end_def)
  moreover have "sp_tasks (on_accept one_shot ?s1) = [sp_next s] \<and> sp_loop (on_accept one_shot ?s1) = Accepting"
    using a by (simp add: on_accept_def on_task_end_def Let_def)
  ultimately show "\<exists>s1 s2. server_step one_shot s s1 \<and> server_step one_shot s1 s2
      \<and> sp_tasks s2 = [sp_next s] \<and> sp_loop s2 = Accepting" by blast
qed

theorem server_comes_back_witness:
  "\<exists>s1 s2. server_step False busy_server s1 \<and> server_step False s1 s2 \<and> sp_tasks s2 = [2]"
  using server_comes_back [OF busy_server_reachable, of 0] by auto

section \<open>What a refused client is told\<close>

lemma handshake_wrong_secret:
  assumes "bytes_of (rx c) = word_of_nat (length attempt) # attempt @ rest"
    and "attempt \<noteq> secret" and "length attempt \<le> 255"
  obtains c' where "server_handshake C secret c = (Ready (Ok (Rejected InvalidSecret)), c')"
    "tx_out c' = tx_out c" "disk c' = disk c" "can_send 1 c' = can_send 1 c"
proof -
  from assms(1) obtain c1 where c1: "read_u8 c = (Ready (Ok (word_of_nat (length attempt))), c1)"
    "consumed [word_of_nat (length attempt)] c c1" "bytes_of (rx c1) = attempt @ rest" by (rule read_u8_ok)
  show thesis
  proof (cases "word_of_nat (length attempt) = (word_of_nat (length secret) :: u8)")
    case False
    with c1 consumed_simps [OF c1(2)] show ?thesis
      by (intro that [of c1]) (simp_all add: server_handshake_def)
  next
    case True
    from assms(3) have "unat (word_of_nat (length attempt) :: u8) = length attempt"
      by (simp add: unat_of_nat)
    with c1(3) obtain c2 where c2: "io_read_exact (unat (word_of_nat (length attempt) :: u8)) c1 = (Ready (Ok attempt), c2)"
      "consumed attempt c1 c2" by (metis io_read_exact_ok)
    with c1 True assms(2) consumed_simps [OF c1(2)] consumed_simps [OF c2(2)] show ?thesis
      by (intro that [of c2]) (simp_all add: server_handshake_def)
  qed
qed

text \<open>A status is one byte: it is sent or not.\<close>

lemma write_status_out:
  "write_status st c = (r, c') \<Longrightarrow> tx_out c' = tx_out c \<or> tx_out c' = tx_out c @ [status_to_u8 st]"
  by (auto simp: write_status_def write_u8_def io_write_all_def Cons_eq_append_conv split: prod.splits dest!: write_all_to_prefix)

text \<open>
  C25: A client that does not present the secret gets nothing. Unless the stream begins with the length of the secret and the
  secret itself, no session is accepted, no file is changed, and the client is sent at most one byte, the status
  \<open>InvalidSecret\<close>, however its bytes arrive and wherever they end.
\<close>

theorem no_secret_no_access:
  assumes "\<And>rest. bytes_of (rx c) \<noteq> word_of_nat (length secret) # secret @ rest"
  shows "disk (serve_client C hash_file de n secret workers c) = disk c
    \<and> (tx_out (serve_client C hash_file de n secret workers c) = tx_out c
      \<or> tx_out (serve_client C hash_file de n secret workers c) = tx_out c @ [status_to_u8 InvalidSecret])
    \<and> (\<forall>ses c'. server_handshake C secret c \<noteq> (Ready (Ok (Accepted ses)), c'))"
proof -
  obtain r c1 where hs: "server_handshake C secret c = (r, c1)" by fastforce
  note H = handshake_without_secret [OF assms hs]
  consider (told) "r = Ready (Ok (Rejected InvalidSecret))" | (stopped) "\<forall>h. r \<noteq> Ready (Ok h)" using H by blast
  then show ?thesis
  proof cases
    case told
    then have p: "process_new_client C hash_file de n secret workers c = (Ready (Ok InvalidSecret), c1)"
      using hs by (simp add: process_new_client_def)
    obtain q c2 where w: "write_status InvalidSecret c1 = (q, c2)" by fastforce
    from write_status_out [OF w] write_status_keeps_disk [OF w] p w H hs told show ?thesis by (simp add: serve_client_def)
  next
    case stopped
    then have "snd (process_new_client C hash_file de n secret workers c) = c1
        \<and> (\<forall>st. fst (process_new_client C hash_file de n secret workers c) \<noteq> Ready (Ok st))"
      using hs by (auto simp: process_new_client_def io_bind_def split: poll.split sum.split)
    then have "serve_client C hash_file de n secret workers c = c1"
      by (auto simp: serve_client_def split: prod.split poll.split sum.split)
    with H hs stopped show ?thesis by simp
  qed
qed

theorem no_secret_no_access_witness:
  "disk (serve_client sample_crates (\<lambda>_ _ _ _ _. Err IoError) \<lparr>de_sched = [], de_flush_fault = False, de_sync_fault = False\<rparr> 5
      [120] 1 \<lparr>rx = [Chunk [1], Wait, Eof], tx_sched = [], tx_out = [5], disk = faultless Map.empty\<rparr>) = faultless Map.empty"
  using no_secret_no_access [of "\<lparr>rx = [Chunk [1], Wait, Eof], tx_sched = [], tx_out = [5], disk = faultless Map.empty\<rparr>" "[120]"]
  by simp

text \<open>
  C31: A client with a wrong secret gets one byte, the status \<open>InvalidSecret\<close>, and the file system is
  not touched, however the network delivers its bytes.
\<close>

theorem wrong_secret_is_told:
  assumes "bytes_of (rx c) = word_of_nat (length attempt) # attempt @ rest"
    and "attempt \<noteq> secret" and "length attempt \<le> 255" and "can_send 1 c"
  shows "tx_out (serve_client C hash_file de n secret workers c) = tx_out c @ [status_to_u8 InvalidSecret]
    \<and> disk (serve_client C hash_file de n secret workers c) = disk c"
proof -
  from handshake_wrong_secret [OF assms(1-3)] obtain c1 where
    c1: "server_handshake C secret c = (Ready (Ok (Rejected InvalidSecret)), c1)"
    "tx_out c1 = tx_out c" "disk c1 = disk c" "can_send (Suc 0) c1" using assms(4) by (metis One_nat_def)
  from write_status_ok [OF c1(4)] obtain c2 where
    c2: "write_status InvalidSecret c1 = (Ready (Ok ()), c2)" "tx_out c2 = tx_out c1 @ [status_to_u8 InvalidSecret]" by metis
  from c1(1) have "process_new_client C hash_file de n secret workers c = (Ready (Ok InvalidSecret), c1)"
    by (simp add: process_new_client_def)
  with c1 c2 write_status_keeps_disk [OF c2(1)] show ?thesis by (simp add: serve_client_def)
qed

theorem wrong_secret_is_told_witness:
  "tx_out (serve_client sample_crates (\<lambda>_ _ _ _ _. Ok \<lparr>hs_events = [], hs_left = ordered_channel []\<rparr>) \<lparr>de_sched = [], de_flush_fault = False, de_sync_fault = False\<rparr> 5
      [120] 1 \<lparr>rx = [Chunk [1], Wait, Chunk [121]], tx_sched = [Accept 1], tx_out = [], disk = faultless Map.empty\<rparr>) = [1]"
  using wrong_secret_is_told [of "\<lparr>rx = [Chunk [1], Wait, Chunk [121]], tx_sched = [Accept 1], tx_out = [],
      disk = faultless Map.empty\<rparr>" "[121]" "[]" "[120]"]
  by (simp add: can_send_def)

section \<open>The client and the server it starts\<close>

text \<open>
  With \<open>--remote-start\<close> the client speaks to the server it has started: the last command on the
  remote machine starts a one-shot server with the very secret the client will present and on the
  very port the client will connect to.
\<close>

theorem client_uses_remote_secret:
  assumes "client_options (\<lambda>o'. fst (remote_start_server env o')) current_username abs_path args secret0 = Ok options"
    and "arg_remote_start args"
  shows "\<exists>rso acts filename. remote_start_server env rso = (Ok (opt_secret options), acts)
    \<and> last acts = Exec (server_command filename rso (opt_secret options))
    \<and> rso_server_port rso = arg_port args \<and> opt_address options = address_of (rso_address rso) (arg_port args)"
proof -
  from assms obtain u where "client_options (\<lambda>o'. fst (remote_start_server env o')) current_username abs_path args secret0 = Ok options"
    and u: "(case arg_remote_start_user args of Some u \<Rightarrow> Some u | None \<Rightarrow> current_username) = Some u"
    by (auto simp: client_options_def client_secret_def bind_result_def Let_def split: option.splits sum.splits)
  let ?ip = "unwrap_or (arg_ip args) (lit ''127.0.0.1'')"
  let ?rso = "\<lparr>rso_address = ?ip, rso_ssh_port = arg_remote_start_port args, rso_username = u,
    rso_identity_file = arg_identity_file args, rso_workers = unwrap_or (arg_remote_start_workers args) (arg_workers args),
    rso_server_port = arg_port args\<rparr>"
  obtain r acts where r: "remote_start_server env ?rso = (r, acts)" by fastforce
  with assms u have o: "r = Ok (opt_secret options)" "opt_address options = address_of ?ip (arg_port args)"
    by (auto simp: client_options_def client_secret_def bind_result_def Let_def split: option.splits sum.splits)
  from remote_start_last [OF r [unfolded o]] obtain f where
    "last acts = Exec (server_command f ?rso (opt_secret options))" by blast
  with r o show ?thesis by (intro exI [of _ ?rso] exI [of _ acts] exI [of _ f]) simp
qed

abbreviation sample_args :: Args where
  "sample_args \<equiv> \<lparr>arg_server = False, arg_ip = None, arg_port = 15000, arg_secret = None, arg_one_shot = False,
     arg_force_truncate = False, arg_workers = 4, arg_block_size = 1048576, arg_hash = CRC32, arg_ephemeral = False,
     arg_detached = False, arg_remote_start = True, arg_remote_start_user = Some [117], arg_remote_start_port = 22,
     arg_remote_start_workers = None, arg_identity_file = None, arg_src = Some [47, 97], arg_dest = None\<rparr>"

theorem client_uses_remote_secret_witness:
  "\<exists>rso acts filename. remote_start_server (sample_ssh [False, True] []) rso = (Ok [115], acts)
     \<and> last acts = Exec (server_command filename rso [115])
     \<and> rso_server_port rso = 15000"
proof -
  obtain options where o: "client_options (\<lambda>o'. fst (remote_start_server (sample_ssh [False, True] []) o')) None Ok sample_args [] = Ok options"
    and s: "opt_secret options = [115]"
    by (simp add: client_options_def client_secret_def unwrap_or_def remote_start_defs)
  from client_uses_remote_secret [OF o] show ?thesis by (auto simp: s)
qed

end
