(* ===== verification/Service.thy ===== *)
theory Service
  imports Program "HOL-Library.Sublist"
begin

text \<open>
  The program as a whole: \<open>main\<close> with its two modes, and the server with the sessions it runs. The accept loop of
  \<open>Program\<close> only counts sessions; here each connection has its stream and each session its task, which works on the one disk
  step by step: the handshake, every iteration of the event loop, the drop of the stream of hashes and the final status are steps
  between which the accept loop and the other tasks run. The result is that the sessions are serial: the
  disk is what \<open>process_new_client\<close> makes of it for one client after the other, in the order of their connections, and in the middle of a session
  it differs from that in one file only.
\<close>

section \<open>The two modes of main\<close>

text \<open>The server mode up to the accept loop: the address it listens on and the secret. \<open>bound\<close> is the outcome of \<open>bind\<close>.\<close>

definition main_server :: "bool \<Rightarrow> bool \<Rightarrow> bool \<Rightarrow> Args \<Rightarrow> (rstring \<times> rstring) result" where
  "main_server removed daemonized bound args =
     bind_result (main_start removed daemonized args) (\<lambda>secret.
       if bound then Ok (listen_address args, secret) else Err IoError)"

text \<open>What \<open>main\<close> returns and the error it prints; the accept loop returns nothing.\<close>

definition deltasync_main :: "bool \<Rightarrow> bool \<Rightarrow> bool \<Rightarrow> (RemoteStartOptions \<Rightarrow> rstring result) \<Rightarrow> rstring option \<Rightarrow>
    (rstring \<Rightarrow> rstring result) \<Rightarrow> (ClientProcessOptions \<Rightarrow> unit result) \<Rightarrow> Args \<Rightarrow> unit result \<times> error option" where
  "deltasync_main removed daemonized bound start current_username abs_path run args =
     (if arg_server args then
        (case main_server removed daemonized bound args of Inl e \<Rightarrow> (Err e, None) | Inr _ \<Rightarrow> (Ok (), None))
      else main_client removed daemonized start current_username abs_path run args)"

text \<open>A session that fails is reported, but the program exits as if it had succeeded.\<close>

lemma failed_session_exits_ok:
  assumes "\<not> arg_server args" and "main_start removed daemonized args = Ok secret"
    and "client_options start current_username abs_path args secret = Ok options" and "run options = Err e"
  shows "deltasync_main removed daemonized bound start current_username abs_path run args = (Ok (), Some e)"
  using assms by (simp add: deltasync_main_def main_client_def)

section \<open>The server and its sessions\<close>

record service_env =
  sv_crates :: crates
  sv_hashing :: hashing
  sv_disk_env :: "nat \<Rightarrow> disk_env"     \<comment> \<open>how the disk behaves in each session\<close>
  sv_secret :: rstring
  sv_workers :: u8
  sv_one_shot :: bool

text \<open>
  How far the task of a client is: it waits for the handshake; the handshake is over, or it has stopped for ever; the event loop
  runs; the loop is left and the file is flushed; \<open>process_new_client\<close> has returned.
\<close>

datatype phase =
    Fresh
  | Stuck
  | Admitted session
  | Looping session HashStream server_loop
  | Leaving HashStream "StatusCode result"
  | Returned "StatusCode result"

record service =
  srv_process :: server_process           \<comment> \<open>the accept loop and its counter\<close>
  srv_conns :: "nat \<Rightarrow> server_conn"     \<comment> \<open>the connections, in the order of their arrival\<close>
  srv_phase :: "nat \<Rightarrow> phase"
  srv_disk :: fs
  srv_blocked :: bool                     \<comment> \<open>the only thread of the runtime waits in a join\<close>
  srv_served :: "nat list"                \<comment> \<open>the sessions that have ended\<close>

definition service_start :: "(nat \<Rightarrow> server_conn) \<Rightarrow> fs \<Rightarrow> service" where
  "service_start conns d = \<lparr>srv_process = server_start, srv_conns = conns, srv_phase = \<lambda>_. Fresh, srv_disk = d,
     srv_blocked = False, srv_served = []\<rparr>"

definition with_disk :: "fs \<Rightarrow> server_conn \<Rightarrow> server_conn" where
  "with_disk d c = c\<lparr>disk := d\<rparr>"

text \<open>A connection is accepted; while a session runs it is only sent the busy status, and the loop waits until that is sent.\<close>

definition service_accept :: "bool \<Rightarrow> service \<Rightarrow> service" where
  "service_accept one_shot s =
     (let p = srv_process s; i = sp_next p in
      s\<lparr>srv_process := on_accept one_shot p,
        srv_conns := (if sp_count p = 0 then srv_conns s
          else (srv_conns s)(i := snd (write_status ClientAlreadyConnected (srv_conns s i))))\<rparr>)"

definition can_answer :: "StatusCode \<Rightarrow> server_conn \<Rightarrow> bool" where
  "can_answer status c \<longleftrightarrow> fst (write_status status c) \<noteq> Pending"

text \<open>The steps of a task, each on the disk as it finds it: the handshake,\<close>

definition task_greets :: "service_env \<Rightarrow> nat \<Rightarrow> service \<Rightarrow> service" where
  "task_greets E i s =
     (case server_handshake (sv_crates E) (sv_secret E) (with_disk (srv_disk s) (srv_conns s i)) of
        (r, c) \<Rightarrow> s\<lparr>srv_conns := (srv_conns s)(i := c), srv_disk := disk c, srv_phase := (srv_phase s)(i :=
          (case r of
             Pending \<Rightarrow> Stuck
           | Ready (Inl e) \<Rightarrow> Returned (Err e)
           | Ready (Inr (Rejected status)) \<Rightarrow> Returned (Ok status)
           | Ready (Inr (Accepted ses)) \<Rightarrow> Admitted ses))\<rparr>)"

text \<open>the start of the hashing and the opening of the file,\<close>

definition task_starts :: "service_env \<Rightarrow> nat \<Rightarrow> session \<Rightarrow> service \<Rightarrow> service" where
  "task_starts E i ses s =
     (let c = srv_conns s i; de = sv_disk_env E i in
      s\<lparr>srv_phase := (srv_phase s)(i :=
        (case sv_hashing E (srv_disk s) (ses_path ses) (ses_block_size ses) (sv_workers E) (ses_algorithm ses) of
           Inl e \<Rightarrow> Returned (Err e)
         | Inr hasher \<Rightarrow>
             (case fs_open_write (srv_disk s) (ses_path ses) of
                Inl e \<Rightarrow> Leaving hasher (Err e)
              | Inr _ \<Rightarrow> Looping ses hasher (server_loop_start ses (the (files (srv_disk s) (ses_path ses))) (rx c)
                  (tx_sched c, tx_out c) (de_sched de) (hs_events hasher)))))\<rparr>)"

text \<open>an iteration of the event loop, which reads and writes the file,\<close>

definition task_iterates :: "service_env \<Rightarrow> nat \<Rightarrow> session \<Rightarrow> HashStream \<Rightarrow> server_loop \<Rightarrow> service \<Rightarrow> service" where
  "task_iterates E i ses hasher l s =
     (case server_select (l\<lparr>sl_file := the (files (srv_disk s) (ses_path ses))\<rparr>) of
        (ctl, l') \<Rightarrow>
          (let d = (srv_disk s)\<lparr>files := (files (srv_disk s))(ses_path ses \<mapsto> sl_file l')\<rparr>;
               c = (srv_conns s i)\<lparr>rx := sl_rx l', tx_sched := fst (sl_tx l'), tx_out := snd (sl_tx l'), disk := d\<rparr>;
               leave = (\<lambda>r. s\<lparr>srv_disk := d, srv_conns := (srv_conns s)(i := c), srv_phase := (srv_phase s)(i := Leaving hasher r)\<rparr>) in
           case ctl of
             Break \<Rightarrow> leave (if de_flush_fault (sv_disk_env E i) \<or> de_sync_fault (sv_disk_env E i) then Err IoError else Ok Ack)
           | Return e \<Rightarrow> leave (Err e)
           | _ \<Rightarrow> s\<lparr>srv_disk := d, srv_phase := (srv_phase s)(i := Looping ses hasher l')\<rparr>))"

text \<open>
  the drop of the stream of hashes, which joins the workers on the thread that runs everything else,
\<close>

definition task_joins :: "nat \<Rightarrow> HashStream \<Rightarrow> StatusCode result \<Rightarrow> service \<Rightarrow> service" where
  "task_joins i hasher r s =
     (case hash_stream_drop 3 (hs_left hasher) of
        None \<Rightarrow> s\<lparr>srv_blocked := True\<rparr>
      | Some _ \<Rightarrow> s\<lparr>srv_phase := (srv_phase s)(i := Returned r)\<rparr>)"

text \<open>and the final status and the end.\<close>

definition task_ends :: "nat \<Rightarrow> StatusCode result \<Rightarrow> service \<Rightarrow> service" where
  "task_ends i r s =
     s\<lparr>srv_process := on_task_end i (srv_process s), srv_served := srv_served s @ [i],
       srv_conns := (srv_conns s)(i := (case r of Inl _ \<Rightarrow> srv_conns s i | Inr status \<Rightarrow> snd (write_status status (srv_conns s i))))\<rparr>"

definition task_runs :: "nat \<Rightarrow> phase \<Rightarrow> service \<Rightarrow> bool" where
  "task_runs i ph s \<longleftrightarrow> \<not> srv_blocked s \<and> i \<in> set (sp_tasks (srv_process s)) \<and> srv_phase s i = ph"

inductive service_step :: "service_env \<Rightarrow> service \<Rightarrow> service \<Rightarrow> bool" for E where
  accept: "\<not> srv_blocked s \<Longrightarrow> sp_loop (srv_process s) = Accepting \<Longrightarrow>
    sp_count (srv_process s) = 0 \<or> can_answer ClientAlreadyConnected (srv_conns s (sp_next (srv_process s))) \<Longrightarrow>
    service_step E s (service_accept (sv_one_shot E) s)"
| accept_error: "\<not> srv_blocked s \<Longrightarrow> sp_loop (srv_process s) = Accepting \<Longrightarrow>
    service_step E s (s\<lparr>srv_process := (srv_process s)\<lparr>sp_loop := Stopped\<rparr>\<rparr>)"
| greets: "task_runs i Fresh s \<Longrightarrow> service_step E s (task_greets E i s)"
| starts: "task_runs i (Admitted ses) s \<Longrightarrow> service_step E s (task_starts E i ses s)"
| iterates: "task_runs i (Looping ses hasher l) s \<Longrightarrow> service_step E s (task_iterates E i ses hasher l s)"
| joins: "task_runs i (Leaving hasher r) s \<Longrightarrow> service_step E s (task_joins i hasher r s)"
| ends: "task_runs i (Returned r) s \<Longrightarrow> (\<And>status. r = Ok status \<Longrightarrow> can_answer status (srv_conns s i)) \<Longrightarrow>
    service_step E s (task_ends i r s)"
| awaited: "\<not> srv_blocked s \<Longrightarrow> sp_loop (srv_process s) = Awaiting i \<Longrightarrow> i \<notin> set (sp_tasks (srv_process s)) \<Longrightarrow>
    service_step E s (s\<lparr>srv_process := (srv_process s)\<lparr>sp_loop := Stopped\<rparr>\<rparr>)"

inductive_cases service_stepE: "service_step E s s'"

section \<open>The specification: one session after the other\<close>

abbreviation session_on :: "service_env \<Rightarrow> nat \<Rightarrow> nat \<Rightarrow> server_conn \<Rightarrow> StatusCode result poll \<times> server_conn" where
  "session_on E i n \<equiv> process_new_client (sv_crates E) (sv_hashing E) (sv_disk_env E i) n (sv_secret E) (sv_workers E)"

text \<open>The whole task of a client, run alone on a disk, comes to its end with the connection \<open>c'\<close> and the disk in it.\<close>

definition session_ends :: "service_env \<Rightarrow> nat \<Rightarrow> fs \<Rightarrow> server_conn \<Rightarrow> server_conn \<Rightarrow> bool" where
  "session_ends E i d c c' \<longleftrightarrow> (\<exists>n. fst (session_on E i n (with_disk d c)) \<noteq> Pending
     \<and> c' = serve_client (sv_crates E) (sv_hashing E) (sv_disk_env E i) n (sv_secret E) (sv_workers E) (with_disk d c))"

inductive serially :: "service_env \<Rightarrow> (nat \<Rightarrow> server_conn) \<Rightarrow> fs \<Rightarrow> nat list \<Rightarrow> fs \<Rightarrow> (nat \<Rightarrow> server_conn) \<Rightarrow> bool" for E conns d where
  none: "serially E conns d [] d conns"
| another: "serially E conns d is d' results \<Longrightarrow> session_ends E i d' (conns i) c \<Longrightarrow>
    serially E conns d (is @ [i]) (disk c) (results(i := c))"

text \<open>The outcome of a session does not depend on the fuel.\<close>

lemma process_new_client_cases:
  "process_new_client C H de n secret workers c =
     (case server_handshake C secret c of
        (Pending, c') \<Rightarrow> (Pending, c')
      | (Ready (Inl e), c') \<Rightarrow> (Ready (Err e), c')
      | (Ready (Inr (Rejected status)), c') \<Rightarrow> (Ready (Ok status), c')
      | (Ready (Inr (Accepted ses)), c') \<Rightarrow> server_session H de n workers ses c')"
  by (simp add: process_new_client_def io_bind_def split: prod.split poll.split sum.split handshake.split)

lemma server_session_more:
  assumes "server_session H de n workers ses c = (Ready r, c')"
  shows "server_session H de (n + k) workers ses c = (Ready r, c')"
proof (cases "\<exists>hasher. H (disk c) (ses_path ses) (ses_block_size ses) workers (ses_algorithm ses) = Ok hasher
    \<and> fs_open_write (disk c) (ses_path ses) = Ok ()")
  case True
  then obtain hasher where h: "H (disk c) (ses_path ses) (ses_block_size ses) workers (ses_algorithm ses) = Ok hasher"
    "fs_open_write (disk c) (ses_path ses) = Ok ()" by blast
  let ?l = "server_loop_start ses (the (files (disk c) (ses_path ses))) (rx c) (tx_sched c, tx_out c) (de_sched de) (hs_events hasher)"
  obtain res l where run: "server_run n ?l = (res, l)" by fastforce
  with assms h obtain x where x: "res = Some x" by (cases res) (simp_all add: server_session_def Let_def)
  then have "server_run (n + k) ?l = (Some x, l)" using run run_loop_more [of n server_select ?l x l k] by (simp add: server_run_def)
  with assms h run x show ?thesis by (simp add: server_session_def Let_def)
next
  case False
  with assms show ?thesis by (auto simp: server_session_def split: sum.splits)
qed

lemma process_new_client_more:
  assumes "process_new_client C H de n secret workers c = (Ready r, c')"
  shows "process_new_client C H de (n + k) secret workers c = (Ready r, c')"
  using assms server_session_more [of H de n workers _ _ r c' k]
  unfolding process_new_client_cases by (auto split: prod.splits poll.splits sum.splits handshake.splits)

lemma session_ends_unique:
  assumes "session_ends E i d c c'" and "session_ends E i d c c''"
  shows "c' = c''"
proof -
  from assms obtain m n where m: "fst (session_on E i m (with_disk d c)) \<noteq> Pending"
      "c' = serve_client (sv_crates E) (sv_hashing E) (sv_disk_env E i) m (sv_secret E) (sv_workers E) (with_disk d c)"
    and n: "fst (session_on E i n (with_disk d c)) \<noteq> Pending"
      "c'' = serve_client (sv_crates E) (sv_hashing E) (sv_disk_env E i) n (sv_secret E) (sv_workers E) (with_disk d c)"
    unfolding session_ends_def by blast
  obtain r1 c1 r2 c2 where r: "session_on E i m (with_disk d c) = (Ready r1, c1)" "session_on E i n (with_disk d c) = (Ready r2, c2)"
    using m(1) n(1) by (metis poll.exhaust prod.collapse)
  from process_new_client_more [OF r(1), of n] process_new_client_more [OF r(2), of m] have "r1 = r2" "c1 = c2"
    by (simp_all add: add.commute)
  with r m(2) n(2) show ?thesis by (simp add: serve_client_def)
qed

section \<open>The handshake touches one file\<close>

definition touches_one :: "'a server_io \<Rightarrow> bool" where
  "touches_one m \<longleftrightarrow> (\<forall>c r c'. m c = (r, c') \<longrightarrow> (\<exists>p. \<forall>q. q \<noteq> p \<longrightarrow> files (disk c') q = files (disk c) q))"

lemma touches_oneD: "touches_one m \<Longrightarrow> m c = (r, c') \<Longrightarrow> \<exists>p. \<forall>q. q \<noteq> p \<longrightarrow> files (disk c') q = files (disk c) q"
  by (simp add: touches_one_def)

lemma with_disk_sel [simp]: "disk (with_disk d c) = d"
  by (simp add: with_disk_def)

lemma touches_one_return: "touches_one (io_return x)"
  by (simp add: touches_one_def)

definition keeps_disk :: "'a server_io \<Rightarrow> bool" where
  "keeps_disk m \<longleftrightarrow> (\<forall>c r c'. m c = (r, c') \<longrightarrow> disk c' = disk c)"

lemma keeps_disk_io [simp]:
  "keeps_disk (io_read_exact n)" "keeps_disk read_u8" "keeps_disk (read_u64 C)" "keeps_disk (read_string C max_len)"
  "keeps_disk (write_status status)"
  unfolding keeps_disk_def by (auto dest: reads_keepD write_status_keeps_disk)

lemma touches_one_bind:
  assumes "keeps_disk m" and "\<And>x. touches_one (f x)"
  shows "touches_one (io_bind m f)"
  unfolding touches_one_def
proof (intro allI impI)
  fix c r c'
  assume "io_bind m f c = (r, c')"
  then show "\<exists>p. \<forall>q. q \<noteq> p \<longrightarrow> files (disk c') q = files (disk c) q"
  proof (cases rule: io_bindE)
    case (ok x c1)
    from assms(1) ok(1) assms(2) [of x] ok(2) show ?thesis unfolding touches_one_def keeps_disk_def by metis
  qed (use assms(1) in \<open>simp_all add: keeps_disk_def\<close>)
qed

lemma prepare_dest_path: "prepare_dest p sz force c = (r, c') \<Longrightarrow> q \<noteq> p \<Longrightarrow> files (disk c') q = files (disk c) q"
  by (auto simp: prepare_dest_def fs_create_def fs_set_len_def split: sum.splits io_kind.splits if_splits option.splits)

lemma touches_one_prepare:
  "touches_one (io_bind (prepare_dest p sz force) (\<lambda>refused.
     case refused of Some status \<Rightarrow> io_return (Rejected status)
     | None \<Rightarrow> io_bind (write_status Ack) (\<lambda>_. io_return (Accepted ses))))"
  unfolding touches_one_def
proof (intro allI impI)
  fix c r c'
  assume "io_bind (prepare_dest p sz force) (\<lambda>refused.
     case refused of Some status \<Rightarrow> io_return (Rejected status)
     | None \<Rightarrow> io_bind (write_status Ack) (\<lambda>_. io_return (Accepted ses))) c = (r, c')"
  then have "\<exists>x c1. prepare_dest p sz force c = (x, c1) \<and> disk c' = disk c1"
    by (auto elim!: io_bindE split: option.splits dest!: write_status_keeps_disk)
  with prepare_dest_path show "\<exists>p. \<forall>q. q \<noteq> p \<longrightarrow> files (disk c') q = files (disk c) q" by metis
qed

lemma server_handshake_touches_one: "touches_one (server_handshake C secret)"
proof -
  have "touches_one (receive_parameters C)" unfolding receive_parameters_def
    by (auto intro!: touches_one_bind touches_one_return touches_one_prepare split: option.split)
  then have "touches_one (check_version C)" unfolding check_version_def
    by (auto intro!: touches_one_bind touches_one_return)
  then show ?thesis unfolding server_handshake_def
    by (auto intro!: touches_one_bind touches_one_return)
qed

lemma session_touches_one: "touches_one (process_new_client C H de n secret workers)"
  unfolding touches_one_def
proof (intro allI impI)
  fix c r c'
  assume run: "process_new_client C H de n secret workers c = (r, c')"
  obtain h c1 where hs: "server_handshake C secret c = (h, c1)" by fastforce
  show "\<exists>p. \<forall>q. q \<noteq> p \<longrightarrow> files (disk c') q = files (disk c) q"
  proof (cases "\<exists>ses. h = Ready (Ok (Accepted ses))")
    case True
    then obtain ses where h: "h = Ready (Ok (Accepted ses))" by blast
    then have "server_session H de n workers ses c1 = (r, c')" using run hs by (simp add: process_new_client_cases)
    then have "disk c' = disk c1 \<or> (\<exists>f. disk c' = (disk c1)\<lparr>files := (files (disk c1))(ses_path ses \<mapsto> f)\<rparr>)"
      by (auto simp: server_session_def Let_def split: sum.splits prod.splits option.splits if_splits)
    moreover have "files (disk c1) q = files (disk c) q" if "q \<noteq> ses_path ses" for q
      using server_handshake_accepted [of C secret c ses c1] hs h that by simp
    ultimately show ?thesis by (intro exI [of _ "ses_path ses"]) auto
  next
    case False
    then have "c' = c1" using run hs by (auto simp: process_new_client_cases split: poll.splits sum.splits handshake.splits)
    then show ?thesis using server_handshake_touches_one [of C secret] hs unfolding touches_one_def by blast
  qed
qed

section \<open>Where a task is\<close>

text \<open>The loop \<open>l\<close> is what some iterations make of \<open>l0\<close>.\<close>

definition loop_at :: "server_loop \<Rightarrow> server_loop \<Rightarrow> bool" where
  "loop_at l0 l \<longleftrightarrow> (\<exists>k. \<forall>n. run_loop (k + n) server_select l0 = run_loop n server_select l)"

lemma loop_at_start: "loop_at l l"
  unfolding loop_at_def by (intro exI [of _ 0]) simp

lemma loop_at_step:
  assumes "loop_at l0 l" and "server_select l = (c, l')"
  shows "c = Continue \<or> c = Blocked \<Longrightarrow> loop_at l0 l'"
    and "c = Break \<Longrightarrow> \<exists>n. server_run n l0 = (Some (Ok ()), l')"
    and "c = Return e \<Longrightarrow> \<exists>n. server_run n l0 = (Some (Err e), l')"
proof -
  from assms(1) obtain k where k: "\<And>n. run_loop (k + n) server_select l0 = run_loop n server_select l" unfolding loop_at_def by blast
  note one = k [of "Suc n" for n]
  show "loop_at l0 l'" if "c = Continue \<or> c = Blocked"
    unfolding loop_at_def using one assms(2) that by (intro exI [of _ "Suc k"]) auto
  show "\<exists>n. server_run n l0 = (Some (Ok ()), l')" if "c = Break"
    unfolding server_run_def using one [of 0] assms(2) that by (intro exI [of _ "k + Suc 0"]) simp
  show "\<exists>n. server_run n l0 = (Some (Err e), l')" if "c = Return e"
    unfolding server_run_def using one [of 0] assms(2) that by (intro exI [of _ "k + Suc 0"]) simp
qed

text \<open>
  The task of client \<open>i\<close>, which began with the disk \<open>d0\<close> and the connection \<open>c0\<close>, is in phase \<open>ph\<close>, the disk is \<open>d\<close>
  and the connection \<open>c\<close>: it is on the way of the whole session run alone.
\<close>

definition task_at :: "service_env \<Rightarrow> nat \<Rightarrow> fs \<Rightarrow> server_conn \<Rightarrow> phase \<Rightarrow> fs \<Rightarrow> server_conn \<Rightarrow> bool" where
  "task_at E i d0 c0 ph d c \<longleftrightarrow>
     (case ph of
        Fresh \<Rightarrow> d = d0 \<and> c = c0
      | Stuck \<Rightarrow> server_handshake (sv_crates E) (sv_secret E) (with_disk d0 c0) = (Pending, c) \<and> disk c = d
      | Admitted ses \<Rightarrow> server_handshake (sv_crates E) (sv_secret E) (with_disk d0 c0) = (Ready (Ok (Accepted ses)), c) \<and> disk c = d
      | Looping ses hasher l \<Rightarrow>
          server_handshake (sv_crates E) (sv_secret E) (with_disk d0 c0) = (Ready (Ok (Accepted ses)), c)
          \<and> sv_hashing E (disk c) (ses_path ses) (ses_block_size ses) (sv_workers E) (ses_algorithm ses) = Ok hasher
          \<and> fs_open_write (disk c) (ses_path ses) = Ok ()
          \<and> loop_at (server_loop_start ses (the (files (disk c) (ses_path ses))) (rx c) (tx_sched c, tx_out c)
              (de_sched (sv_disk_env E i)) (hs_events hasher)) l
          \<and> d = (disk c)\<lparr>files := (files (disk c))(ses_path ses \<mapsto> sl_file l)\<rparr>
      | Leaving hasher r \<Rightarrow> (\<exists>n. session_on E i n (with_disk d0 c0) = (after_drop hasher (Ready r), c)) \<and> disk c = d
      | Returned r \<Rightarrow> (\<exists>n. session_on E i n (with_disk d0 c0) = (Ready r, c)) \<and> disk c = d)"

lemma task_touches_one:
  assumes "task_at E i d0 c0 ph d c"
  shows "\<exists>p. \<forall>q. q \<noteq> p \<longrightarrow> files d q = files d0 q"
proof -
  have hs: "\<exists>p. \<forall>q. q \<noteq> p \<longrightarrow> files (disk c) q = files d0 q"
    if "server_handshake (sv_crates E) (sv_secret E) (with_disk d0 c0) = (h, c)" for h
    using touches_oneD [OF server_handshake_touches_one that] by simp
  have ses: "\<exists>p. \<forall>q. q \<noteq> p \<longrightarrow> files (disk c) q = files d0 q" if "session_on E i n (with_disk d0 c0) = (x, c)" for n x
    using touches_oneD [OF session_touches_one that] by simp
  show ?thesis
  proof (cases ph)
    case (Looping s hasher l)
    then have a: "server_handshake (sv_crates E) (sv_secret E) (with_disk d0 c0) = (Ready (Ok (Accepted s)), c)"
      "d = (disk c)\<lparr>files := (files (disk c))(ses_path s \<mapsto> sl_file l)\<rparr>" using assms by (simp_all add: task_at_def)
    then show ?thesis using server_handshake_accepted [OF a(1)] by (intro exI [of _ "ses_path s"]) simp
  qed (use assms hs ses in \<open>auto simp: task_at_def\<close>)
qed

text \<open>Every step of a task leads to the next place on its way.\<close>

lemma greets_at:
  assumes "task_at E i d0 c0 Fresh (srv_disk s) (srv_conns s i)"
  shows "task_at E i d0 c0 (srv_phase (task_greets E i s) i) (srv_disk (task_greets E i s)) (srv_conns (task_greets E i s) i)"
proof -
  obtain r c where h: "server_handshake (sv_crates E) (sv_secret E) (with_disk d0 c0) = (r, c)" by fastforce
  from assms have at: "srv_disk s = d0" "srv_conns s i = c0" by (simp_all add: task_at_def)
  have "session_on E i n (with_disk d0 c0) = (Ready (Err e), c)" if "r = Ready (Err e)" for n e
    using h that by (simp add: process_new_client_cases)
  moreover have "session_on E i n (with_disk d0 c0) = (Ready (Ok st), c)" if "r = Ready (Ok (Rejected st))" for n st
    using h that by (simp add: process_new_client_cases)
  ultimately show ?thesis
    using h by (auto simp: task_greets_def at task_at_def split: poll.split sum.split handshake.split)
qed

lemma starts_at:
  assumes "task_at E i d0 c0 (Admitted ses) (srv_disk s) (srv_conns s i)"
  shows "task_at E i d0 c0 (srv_phase (task_starts E i ses s) i) (srv_disk (task_starts E i ses s)) (srv_conns (task_starts E i ses s) i)"
proof -
  let ?c = "srv_conns s i"
  have h: "server_handshake (sv_crates E) (sv_secret E) (with_disk d0 c0) = (Ready (Ok (Accepted ses)), ?c)" "srv_disk s = disk ?c"
    using assms by (simp_all add: task_at_def)
  have same: "(disk ?c)\<lparr>files := (files (disk ?c))(ses_path ses \<mapsto> the (files (disk ?c) (ses_path ses)))\<rparr> = disk ?c"
    if "fs_open_write (disk ?c) (ses_path ses) = Ok ()"
    using that by (auto simp: fs_open_write_def fun_upd_idem split: if_splits)
  have "session_on E i n (with_disk d0 c0) = server_session (sv_hashing E) (sv_disk_env E i) n (sv_workers E) ses ?c" for n
    using h(1) by (simp add: process_new_client_cases)
  then show ?thesis
    using h same loop_at_start
    by (auto simp: task_starts_def Let_def task_at_def server_session_def split: sum.split) (simp add: server_loop_start_def)
qed

lemma iterates_at:
  assumes "task_at E i d0 c0 (Looping ses hasher l) (srv_disk s) (srv_conns s i)"
  shows "task_at E i d0 c0 (srv_phase (task_iterates E i ses hasher l s) i) (srv_disk (task_iterates E i ses hasher l s))
    (srv_conns (task_iterates E i ses hasher l s) i)"
proof -
  let ?c = "srv_conns s i" and ?de = "sv_disk_env E i"
  let ?l0 = "server_loop_start ses (the (files (disk ?c) (ses_path ses))) (rx ?c) (tx_sched ?c, tx_out ?c) (de_sched ?de) (hs_events hasher)"
  have L: "server_handshake (sv_crates E) (sv_secret E) (with_disk d0 c0) = (Ready (Ok (Accepted ses)), ?c)"
    "sv_hashing E (disk ?c) (ses_path ses) (ses_block_size ses) (sv_workers E) (ses_algorithm ses) = Ok hasher"
    "fs_open_write (disk ?c) (ses_path ses) = Ok ()" "loop_at ?l0 l"
    "srv_disk s = (disk ?c)\<lparr>files := (files (disk ?c))(ses_path ses \<mapsto> sl_file l)\<rparr>"
    using assms by (simp_all add: task_at_def)
  obtain ctl l' where sel: "server_select l = (ctl, l')" by fastforce
  note at = loop_at_step [OF L(4) sel]
  have load: "l\<lparr>sl_file := the (files (srv_disk s) (ses_path ses))\<rparr> = l" by (simp add: L(5))
  have store: "(srv_disk s)\<lparr>files := (files (srv_disk s))(ses_path ses \<mapsto> f)\<rparr> = (disk ?c)\<lparr>files := (files (disk ?c))(ses_path ses \<mapsto> f)\<rparr>" for f
    by (simp add: L(5))
  have ses: "session_on E i n (with_disk d0 c0) = server_session (sv_hashing E) ?de n (sv_workers E) ses ?c" for n
    using L(1) by (simp add: process_new_client_cases)
  show ?thesis
  proof (cases ctl)
    case (Return e)
    from at(3) [OF this] obtain n where "server_run n ?l0 = (Some (Err e), l')" by blast
    with L(2,3) Return show ?thesis
      unfolding task_iterates_def load sel store by (auto simp: task_at_def ses server_session_def Let_def intro!: exI [of _ n])
  next
    case Break
    from at(2) [OF this] obtain n where "server_run n ?l0 = (Some (Ok ()), l')" by blast
    with L(2,3) Break show ?thesis
      unfolding task_iterates_def load sel store by (auto simp: task_at_def ses server_session_def Let_def intro!: exI [of _ n])
  qed (use at(1) L in \<open>simp_all add: task_iterates_def load sel store task_at_def Let_def\<close>)
qed

lemma joins_at:
  assumes "task_at E i d0 c0 (Leaving hasher r) (srv_disk s) (srv_conns s i)" and "srv_phase s i = Leaving hasher r"
  shows "task_at E i d0 c0 (srv_phase (task_joins i hasher r s) i) (srv_disk (task_joins i hasher r s)) (srv_conns (task_joins i hasher r s) i)"
  using assms by (auto simp: task_at_def task_joins_def after_drop_def split: option.splits)

lemma status_keeps_disk: "disk (snd (write_status status c)) = disk c"
  using write_status_keeps_disk [of status c] by (metis prod.collapse)

lemma ends_at:
  assumes "task_at E i d0 c0 (Returned r) (srv_disk s) (srv_conns s i)"
  shows "session_ends E i d0 c0 (srv_conns (task_ends i r s) i)" "disk (srv_conns (task_ends i r s) i) = srv_disk s"
proof -
  from assms obtain n where n: "session_on E i n (with_disk d0 c0) = (Ready r, srv_conns s i)" "disk (srv_conns s i) = srv_disk s"
    by (auto simp: task_at_def)
  then show "session_ends E i d0 c0 (srv_conns (task_ends i r s) i)"
    unfolding session_ends_def by (intro exI [of _ n]) (simp add: task_ends_def serve_client_def split: sum.split)
  show "disk (srv_conns (task_ends i r s) i) = srv_disk s"
    using n(2) by (simp add: task_ends_def status_keeps_disk split: sum.split)
qed

section \<open>The sessions are serial\<close>

text \<open>The sessions that have ended ran serially, and the one that runs is on its way.\<close>

definition sessions_at :: "service_env \<Rightarrow> (nat \<Rightarrow> server_conn) \<Rightarrow> fs \<Rightarrow> service \<Rightarrow> fs \<Rightarrow> (nat \<Rightarrow> server_conn) \<Rightarrow> bool" where
  "sessions_at E conns d s d' results \<longleftrightarrow> serially E conns d (srv_served s) d' results
     \<and> (\<forall>i \<in> set (srv_served s). srv_conns s i = results i)
     \<and> (sp_tasks (srv_process s) = [] \<longrightarrow> srv_disk s = d')
     \<and> (\<forall>i \<in> set (sp_tasks (srv_process s)). task_at E i d' (conns i) (srv_phase s i) (srv_disk s) (srv_conns s i))"

definition service_inv :: "service_env \<Rightarrow> (nat \<Rightarrow> server_conn) \<Rightarrow> fs \<Rightarrow> service \<Rightarrow> bool" where
  "service_inv E conns d s \<longleftrightarrow>
     srv_served s @ sp_tasks (srv_process s) = sp_started (srv_process s)
     \<and> (\<exists>d' results. sessions_at E conns d s d' results)
     \<and> (\<forall>i \<in> fst ` set (sp_answers (srv_process s)). srv_conns s i = snd (write_status ClientAlreadyConnected (conns i)))
     \<and> (\<forall>i. i \<notin> set (sp_started (srv_process s)) \<and> i \<notin> fst ` set (sp_answers (srv_process s)) \<longrightarrow>
          srv_conns s i = conns i \<and> srv_phase s i = Fresh)"

lemma service_invD:
  assumes "service_inv E conns d s"
  shows "srv_served s @ sp_tasks (srv_process s) = sp_started (srv_process s)"
    "k \<in> fst ` set (sp_answers (srv_process s)) \<Longrightarrow> srv_conns s k = snd (write_status ClientAlreadyConnected (conns k))"
    "k \<notin> set (sp_started (srv_process s)) \<Longrightarrow> k \<notin> fst ` set (sp_answers (srv_process s)) \<Longrightarrow>
      srv_conns s k = conns k \<and> srv_phase s k = Fresh"
  using assms unfolding service_inv_def by blast+

text \<open>Every step of the server is one of its accept loop, or leaves the accept loop alone.\<close>

lemma service_step_process:
  "service_step E s s' \<Longrightarrow> server_step (sv_one_shot E) (srv_process s) (srv_process s') \<or> srv_process s' = srv_process s"
  by (erule service_stepE)
    (auto simp: service_accept_def task_greets_def task_starts_def task_iterates_def task_joins_def task_ends_def task_runs_def Let_def
      intro: server_step.intros split: prod.split ctl.split option.split)

lemma newcomer:
  assumes "program_inv one_shot p" and "sp_next p \<le> i"
  shows "i \<notin> set (sp_started p)" "i \<notin> fst ` set (sp_answers p)"
proof -
  have eq: "set (sp_started p @ map fst (sp_answers p)) = {..<sp_next p}" using assms(1) unfolding program_inv_def by blast
  have "i \<notin> set (sp_started p @ map fst (sp_answers p))" unfolding eq using assms(2) by simp
  then show "i \<notin> set (sp_started p)" "i \<notin> fst ` set (sp_answers p)" by simp_all
qed

lemma service_inv_accept:
  assumes inv: "service_inv E conns d s" and p: "program_inv one_shot (srv_process s)"
  shows "service_inv E conns d (service_accept one_shot s)"
proof -
  let ?p = "srv_process s" and ?i = "sp_next (srv_process s)"
  note new = newcomer [OF p le_refl]
  have started: "srv_served s @ sp_tasks ?p = sp_started ?p" and fresh: "srv_conns s ?i = conns ?i" "srv_phase s ?i = Fresh"
    using inv new by (auto simp: service_inv_def)
  then have served: "?i \<notin> set (srv_served s)" "?i \<notin> set (sp_tasks ?p)" using new(1) by (metis Un_iff set_append)+
  show ?thesis
  proof (cases "sp_count ?p = 0")
    case True
    then have none: "sp_tasks ?p = []" using p by (auto simp: program_inv_def)
    have s': "service_accept one_shot s = s\<lparr>srv_process := on_accept one_shot ?p\<rparr>" "sp_tasks (on_accept one_shot ?p) = [?i]"
      "sp_started (on_accept one_shot ?p) = sp_started ?p @ [?i]" "sp_answers (on_accept one_shot ?p) = sp_answers ?p"
      using True none by (simp_all add: service_accept_def on_accept_def Let_def)
    from inv obtain d' results where "sessions_at E conns d s d' results" by (auto simp: service_inv_def)
    then have "sessions_at E conns d (service_accept one_shot s) d' results"
      using none fresh by (simp add: sessions_at_def s' task_at_def)
    moreover have "srv_process (service_accept one_shot s) = on_accept one_shot ?p" "srv_conns (service_accept one_shot s) = srv_conns s"
      "srv_phase (service_accept one_shot s) = srv_phase s" "srv_served (service_accept one_shot s) = srv_served s" by (simp_all add: s'(1))
    ultimately show ?thesis using inv none started unfolding service_inv_def by (auto simp: s'(2-4))
  next
    case False
    let ?conns = "(srv_conns s)(?i := snd (write_status ClientAlreadyConnected (srv_conns s ?i)))"
    have s': "service_accept one_shot s = s\<lparr>srv_process := ?p\<lparr>sp_next := Suc ?i,
        sp_answers := sp_answers ?p @ [(?i, ClientAlreadyConnected)]\<rparr>, srv_conns := ?conns\<rparr>"
      using False by (simp add: service_accept_def on_accept_def Let_def)
    from inv obtain d' results where "sessions_at E conns d s d' results" by (auto simp: service_inv_def)
    then have "sessions_at E conns d (service_accept one_shot s) d' results"
      using served unfolding s' sessions_at_def by auto
    moreover have "?conns k = snd (write_status ClientAlreadyConnected (conns k))" if "k \<in> fst ` set (sp_answers ?p) \<or> k = ?i" for k
      using inv that new(2) fresh(1) unfolding service_inv_def by auto
    moreover have "srv_process (service_accept one_shot s) = ?p\<lparr>sp_next := Suc ?i, sp_answers := sp_answers ?p @ [(?i, ClientAlreadyConnected)]\<rparr>"
      "srv_conns (service_accept one_shot s) = ?conns" "srv_phase (service_accept one_shot s) = srv_phase s"
      "srv_served (service_accept one_shot s) = srv_served s" unfolding s' by simp_all
    ultimately show ?thesis using inv started unfolding service_inv_def by (auto simp del: fun_upd_apply) (simp_all add: fun_upd_def)
  qed
qed

text \<open>A step of the running task that stays within its session.\<close>

lemma service_inv_task:
  assumes inv: "service_inv E conns d s" and p: "program_inv one_shot (srv_process s)" and i: "i \<in> set (sp_tasks (srv_process s))"
    and at: "\<And>d'. task_at E i d' (conns i) (srv_phase s i) (srv_disk s) (srv_conns s i) \<Longrightarrow>
      task_at E i d' (conns i) (srv_phase s' i) (srv_disk s') (srv_conns s' i)"
    and same: "srv_process s' = srv_process s" "srv_served s' = srv_served s"
      "\<And>k. k \<noteq> i \<Longrightarrow> srv_conns s' k = srv_conns s k \<and> srv_phase s' k = srv_phase s k"
  shows "service_inv E conns d s'"
proof -
  have tasks: "sp_tasks (srv_process s) = [i]" using p i by (auto simp: program_inv_def)
  have started: "sp_started (srv_process s) = srv_served s @ [i]" using inv tasks by (simp add: service_inv_def)
  moreover have "distinct (sp_started (srv_process s) @ map fst (sp_answers (srv_process s)))" using p by (simp add: program_inv_def)
  ultimately have new: "i \<notin> set (srv_served s)" "i \<notin> fst ` set (sp_answers (srv_process s))" by auto
  from inv obtain d' results where "sessions_at E conns d s d' results" by (auto simp: service_inv_def)
  moreover from this have "srv_conns s' k = results k" if "k \<in> set (srv_served s)" for k
    using same(3) [of k] new(1) that by (auto simp: sessions_at_def)
  ultimately have "sessions_at E conns d s' d' results"
    using at [of d'] same(1,2) by (simp add: sessions_at_def tasks)
  moreover have "srv_conns s' k = snd (write_status ClientAlreadyConnected (conns k))" if "k \<in> fst ` set (sp_answers (srv_process s))" for k
    using service_invD(2) [OF inv that] same(3) [of k] new(2) that by metis
  moreover have "srv_conns s' k = conns k \<and> srv_phase s' k = Fresh"
    if "k \<notin> set (sp_started (srv_process s))" "k \<notin> fst ` set (sp_answers (srv_process s))" for k
  proof -
    have "k \<noteq> i" using that(1) started by auto
    then show ?thesis using service_invD(3) [OF inv that] same(3) [of k] by simp
  qed
  ultimately show ?thesis using service_invD(1) [OF inv] unfolding service_inv_def same(1,2) by blast
qed

lemma service_inv_ends:
  assumes inv: "service_inv E conns d s" and p: "program_inv one_shot (srv_process s)" and i: "task_runs i (Returned r) s"
  shows "service_inv E conns d (task_ends i r s)"
proof -
  let ?p = "srv_process s" and ?s = "task_ends i r s"
  have tasks: "sp_tasks ?p = [i]" using p i by (auto simp: program_inv_def task_runs_def)
  have started: "sp_started ?p = srv_served s @ [i]" using inv tasks by (simp add: service_inv_def)
  moreover have "distinct (sp_started ?p @ map fst (sp_answers ?p))" using p by (simp add: program_inv_def)
  ultimately have new: "i \<notin> set (srv_served s)" "i \<notin> fst ` set (sp_answers ?p)" by auto
  from inv obtain d' results where S: "sessions_at E conns d s d' results" by (auto simp: service_inv_def)
  then have "task_at E i d' (conns i) (Returned r) (srv_disk s) (srv_conns s i)"
    using i by (simp add: sessions_at_def tasks task_runs_def)
  note at = ends_at [OF this]
  have f: "srv_served ?s = srv_served s @ [i]" "sp_tasks (srv_process ?s) = []" "sp_started (srv_process ?s) = srv_served s @ [i]"
    "sp_answers (srv_process ?s) = sp_answers ?p" "srv_disk ?s = srv_disk s" "srv_phase ?s = srv_phase s"
    "\<And>k. k \<noteq> i \<Longrightarrow> srv_conns ?s k = srv_conns s k"
    using started by (simp_all add: task_ends_def on_task_end_def tasks)
  have "serially E conns d (srv_served s @ [i]) (srv_disk s) (results(i := srv_conns ?s i))"
  proof -
    have "serially E conns d (srv_served s) d' results" using S by (simp add: sessions_at_def)
    from serially.another [where i = i, OF this at(1)] at(2) show ?thesis by simp
  qed
  moreover have "srv_conns ?s k = (results(i := srv_conns ?s i)) k" if "k \<in> set (srv_served s @ [i])" for k
  proof (cases "k = i")
    case False
    then show ?thesis using S f(7) [of k] that by (simp add: sessions_at_def)
  qed simp
  ultimately have "sessions_at E conns d ?s (srv_disk s) (results(i := srv_conns ?s i))"
    unfolding sessions_at_def f by (simp only: list.set(1) ball_empty simp_thms) blast
  moreover have "srv_conns ?s k = snd (write_status ClientAlreadyConnected (conns k))" if "k \<in> fst ` set (sp_answers ?p)" for k
    using service_invD(2) [OF inv that] f(7) [of k] new(2) that by metis
  moreover have "srv_conns ?s k = conns k \<and> srv_phase s k = Fresh" if "k \<notin> set (srv_served s @ [i])" "k \<notin> fst ` set (sp_answers ?p)" for k
    using service_invD(3) [OF inv, of k] f(7) [of k] started that by simp
  ultimately show ?thesis unfolding service_inv_def f by (simp, blast)
qed

lemma service_inv_step:
  assumes "service_step E s s'" and inv: "service_inv E conns d s" and p: "program_inv (sv_one_shot E) (srv_process s)"
  shows "service_inv E conns d s'"
  using assms(1)
proof cases
  case accept
  then show ?thesis using service_inv_accept [OF inv p] by simp
next
  case (greets i)
  show ?thesis unfolding greets(1)
    by (rule service_inv_task [OF inv p, of i]) (use greets greets_at in \<open>auto simp: task_runs_def task_greets_def split: prod.split\<close>)
next
  case (starts i ses)
  show ?thesis unfolding starts(1)
    by (rule service_inv_task [OF inv p, of i]) (use starts starts_at in \<open>auto simp: task_runs_def task_starts_def Let_def\<close>)
next
  case (iterates i ses hasher l)
  show ?thesis unfolding iterates(1)
    by (rule service_inv_task [OF inv p, of i])
      (use iterates iterates_at in \<open>auto simp: task_runs_def task_iterates_def Let_def split: prod.split ctl.split\<close>)
next
  case (joins i hasher r)
  show ?thesis unfolding joins(1)
    by (rule service_inv_task [OF inv p, of i]) (use joins joins_at in \<open>auto simp: task_runs_def task_joins_def split: option.split\<close>)
next
  case (ends i r)
  then show ?thesis using service_inv_ends [OF inv p] by simp
qed (use inv in \<open>simp_all add: service_inv_def sessions_at_def\<close>)

lemma service_inv_reachable:
  assumes "(service_step E)\<^sup>*\<^sup>* (service_start conns d) s"
  shows "service_inv E conns d s \<and> server_reachable (sv_one_shot E) (srv_process s)"
  using assms
proof (induction rule: rtranclp_induct)
  case base
  have "sessions_at E conns d (service_start conns d) d conns"
    by (simp add: sessions_at_def service_start_def server_start_def serially.none)
  then show ?case
    by (auto simp: service_inv_def service_start_def server_start_def server_reachable.start [unfolded server_start_def])
next
  case (step t u)
  from step.IH have t: "service_inv E conns d t" "server_reachable (sv_one_shot E) (srv_process t)" by simp_all
  have "server_reachable (sv_one_shot E) (srv_process u)"
    using service_step_process [OF step.hyps(2)] server_reachable.step [OF t(2)] t(2) by auto
  with service_inv_step [OF step.hyps(2) t(1) program_inv_reachable [OF t(2)]] show ?case by simp
qed

text \<open>
  C30: The server runs its sessions one after the other, although its tasks share the disk and the accept loop goes on in
  between. In every state it can reach there is a disk \<open>d'\<close> and there are connections that the sessions ended so far lead to when each
  runs alone, as \<open>process_new_client\<close> and the final status, on the disk the one before it left. What each of these clients has
  been sent is what such a session sends. Every session started has ended but at most one. If none runs, the
  disk is \<open>d'\<close>; in the middle of a session it differs from \<open>d'\<close> in at most one file. A client turned away
  was only sent the busy status, and a client that has not come yet is untouched.
\<close>

theorem sessions_are_serial:
  assumes "(service_step E)\<^sup>*\<^sup>* (service_start conns d) s"
  shows "\<exists>d' results. serially E conns d (srv_served s) d' results
    \<and> (\<forall>i \<in> set (srv_served s). srv_conns s i = results i)
    \<and> srv_served s @ sp_tasks (srv_process s) = sp_started (srv_process s) \<and> length (sp_tasks (srv_process s)) \<le> 1
    \<and> (sp_tasks (srv_process s) = [] \<longrightarrow> srv_disk s = d')
    \<and> (\<exists>p. \<forall>q. q \<noteq> p \<longrightarrow> files (srv_disk s) q = files d' q)
    \<and> (\<forall>i \<in> fst ` set (sp_answers (srv_process s)). srv_conns s i = snd (write_status ClientAlreadyConnected (conns i)))
    \<and> (\<forall>i \<ge> sp_next (srv_process s). srv_conns s i = conns i)"
proof -
  from service_inv_reachable [OF assms] have inv: "service_inv E conns d s"
    and p: "program_inv (sv_one_shot E) (srv_process s)" by (auto intro: program_inv_reachable)
  from inv obtain d' results where S: "sessions_at E conns d s d' results" by (auto simp: service_inv_def)
  have one: "sp_tasks (srv_process s) = [] \<or> (\<exists>i. sp_tasks (srv_process s) = [i])" using p by (auto simp: program_inv_def)
  have "\<exists>p. \<forall>q. q \<noteq> p \<longrightarrow> files (srv_disk s) q = files d' q"
  proof (cases "sp_tasks (srv_process s) = []")
    case True
    then show ?thesis using S by (simp add: sessions_at_def)
  next
    case False
    with one obtain i where "sp_tasks (srv_process s) = [i]" by blast
    then have "task_at E i d' (conns i) (srv_phase s i) (srv_disk s) (srv_conns s i)" using S by (simp add: sessions_at_def)
    then show ?thesis by (rule task_touches_one)
  qed
  moreover have "\<forall>i \<ge> sp_next (srv_process s). srv_conns s i = conns i"
    using inv newcomer [OF p] by (auto simp: service_inv_def)
  moreover have "length (sp_tasks (srv_process s)) \<le> 1" using one by auto
  moreover have "\<forall>i \<in> fst ` set (sp_answers (srv_process s)). srv_conns s i = snd (write_status ClientAlreadyConnected (conns i))"
    using service_invD(2) [OF inv] by blast
  moreover have "serially E conns d (srv_served s) d' results" "\<forall>i \<in> set (srv_served s). srv_conns s i = results i"
    "sp_tasks (srv_process s) = [] \<longrightarrow> srv_disk s = d'" using S by (simp_all add: sessions_at_def)
  ultimately show ?thesis using service_invD(1) [OF inv] by (intro exI [of _ d'] exI [of _ results] conjI) assumption+
qed

text \<open>
  A client that leaves at the wrong moment stops the server for good: when the task has come to the drop of its stream and a hash
  is queued, its next step is the last one the server takes.
\<close>

lemma queued_hash_stops_server:
  assumes "task_runs i (Leaving hasher r) s" and "given_back work (hs_left hasher)" and "queue (hs_left hasher) \<noteq> []"
  shows "service_step E s (task_joins i hasher r s) \<and> \<not> service_step E (task_joins i hasher r s) s'"
proof -
  have "srv_blocked (task_joins i hasher r s)"
    using hash_stream_drop_given_back [OF assms(2)] assms(3) by (simp add: task_joins_def)
  then have "\<not> service_step E (task_joins i hasher r s) s'" by (auto elim: service_stepE simp: task_runs_def)
  then show ?thesis using service_step.joins [OF assms(1)] by blast
qed

text \<open>A client with a wrong secret is served, then another one is accepted and a third one turned away.\<close>

abbreviation sample_service :: service_env where
  "sample_service \<equiv> \<lparr>sv_crates = sample_crates, sv_hashing = \<lambda>_ _ _ _ _. Err IoError,
     sv_disk_env = \<lambda>_. \<lparr>de_sched = [], de_flush_fault = False, de_sync_fault = False\<rparr>,
     sv_secret = [120], sv_workers = 1, sv_one_shot = False\<rparr>"

abbreviation sample_conns :: "nat \<Rightarrow> server_conn" where
  "sample_conns \<equiv> \<lambda>_. \<lparr>rx = [Chunk [1], Wait, Chunk [121]], tx_sched = [Accept 1], tx_out = [], disk = faultless Map.empty\<rparr>"

lemma sample_client_told:
  obtains c where "server_handshake sample_crates [120] (with_disk (faultless Map.empty) (sample_conns 0)) = (Ready (Ok (Rejected InvalidSecret)), c)"
    "can_answer InvalidSecret c"
proof (rule handshake_wrong_secret [where attempt = "[121]" and rest = "[]" and secret = "[120]" and C = sample_crates
      and c = "with_disk (faultless Map.empty) (sample_conns 0)"])
  fix c assume c: "server_handshake sample_crates [120] (with_disk (faultless Map.empty) (sample_conns 0)) = (Ready (Ok (Rejected InvalidSecret)), c)"
    "can_send 1 c = can_send 1 (with_disk (faultless Map.empty) (sample_conns 0))"
  then have "can_send (Suc 0) c" by (simp add: can_send_def with_disk_def)
  from write_status_ok [OF this] obtain c' where "write_status InvalidSecret c = (Ready (Ok ()), c')" by metis
  then show thesis using that [OF c(1)] by (simp add: can_answer_def)
qed (simp_all add: with_disk_def)

theorem sessions_are_serial_witness:
  "\<exists>s d' results. (service_step sample_service)\<^sup>*\<^sup>* (service_start sample_conns (faultless Map.empty)) s
     \<and> srv_served s = [0] \<and> sp_tasks (srv_process s) = [1] \<and> sp_answers (srv_process s) = [(2, ClientAlreadyConnected)]
     \<and> serially sample_service sample_conns (faultless Map.empty) [0] d' results \<and> srv_conns s 0 = results 0
     \<and> srv_conns s 2 = snd (write_status ClientAlreadyConnected (sample_conns 2))"
proof -
  let ?E = sample_service and ?start = "service_start sample_conns (faultless Map.empty)"
  let ?one = "service_accept False ?start"
  let ?two = "task_greets ?E 0 ?one"
  let ?three = "task_ends 0 (Ok InvalidSecret) ?two"
  let ?four = "service_accept False ?three"
  let ?five = "service_accept False ?four"
  note defs = service_accept_def task_greets_def task_ends_def service_start_def on_accept_def on_task_end_def server_start_def task_runs_def Let_def
  have 1: "service_step ?E ?start ?one"
    using service_step.accept [of ?start ?E] by (simp add: service_start_def server_start_def)
  obtain c where c: "server_handshake sample_crates [120] (with_disk (faultless Map.empty) (sample_conns 0)) = (Ready (Ok (Rejected InvalidSecret)), c)"
    and told: "can_answer InvalidSecret c" by (rule sample_client_told)
  have 2: "service_step ?E ?one ?two" by (rule service_step.greets) (simp add: defs)
  have 3: "service_step ?E ?two ?three" by (rule service_step.ends) (use c told in \<open>simp_all add: defs\<close>)
  have busy: "can_answer ClientAlreadyConnected (sample_conns 2)"
    by (simp add: can_answer_def write_status_def write_u8_def io_write_all_def)
  have 4: "service_step ?E ?three ?four" using service_step.accept [of ?three ?E] c by (simp add: defs)
  have 5: "service_step ?E ?four ?five"
    using service_step.accept [of ?four ?E] c busy by (simp add: defs numeral_2_eq_2)
  have r: "(service_step ?E)\<^sup>*\<^sup>* ?start ?five" using 1 2 3 4 5 by (meson converse_rtranclp_into_rtranclp rtranclp.rtrancl_refl)
  have f: "srv_served ?five = [0]" "sp_tasks (srv_process ?five) = [1]" "sp_answers (srv_process ?five) = [(2, ClientAlreadyConnected)]"
    using c by (simp_all add: defs numeral_2_eq_2)
  from sessions_are_serial [OF r] obtain d' results where "serially ?E sample_conns (faultless Map.empty) (srv_served ?five) d' results"
    "\<forall>i \<in> set (srv_served ?five). srv_conns ?five i = results i"
    "\<forall>i \<in> fst ` set (sp_answers (srv_process ?five)). srv_conns ?five i = snd (write_status ClientAlreadyConnected (sample_conns i))" by blast
  then have "serially ?E sample_conns (faultless Map.empty) [0] d' results" "srv_conns ?five 0 = results 0"
    "srv_conns ?five 2 = snd (write_status ClientAlreadyConnected (sample_conns 2))" unfolding f by simp_all
  with r f show ?thesis by blast
qed

end
