(* ===== verification/Test_Common.thy ===== *)
theory Test_Common
  imports Resumable_Write "HOL-Library.Monad_Syntax"
begin

text \<open>
  The unit tests of \<open>common.rs\<close>, on the model. Each test of the repository is a definition
  that runs the same calls on the same data and ends in \<open>Some ()\<close> when every assertion of the
  test holds and no \<open>unwrap\<close> panics; the lemmas show that each of them passes. They pin the
  model to the concrete bytes, limits and messages the authors expect of the code.

  The ends of the tests are those of the standard library and of tokio: a \<open>Vec\<close> takes every
  write whole, a \<open>Cursor\<close> hands out its bytes and is then at its end, and \<open>duplex(n)\<close> is a pipe
  with a buffer of \<open>n\<close> bytes. The timer of a \<open>select!\<close> fires when the other future is pending.
  Where a test leaves the cutting of the data to a concurrent task, the model's test has
  it as an argument and the lemma holds for every value of it.
\<close>

section \<open>Assertions\<close>

type_synonym test = "unit option"

definition assert_that :: "bool \<Rightarrow> test" where
  "assert_that b = (if b then Some () else None)"

definition unwrap :: "'a result poll \<Rightarrow> 'a option" where
  "unwrap p = (case p of Ready (Inr x) \<Rightarrow> Some x | _ \<Rightarrow> None)"

definition unwrap_err :: "'a result poll \<Rightarrow> error option" where
  "unwrap_err p = (case p of Ready (Inl e) \<Rightarrow> Some e | _ \<Rightarrow> None)"

definition contains :: "rstring \<Rightarrow> rstring \<Rightarrow> bool" where
  "contains hay needle = list_ex (\<lambda>k. take (length needle) (drop k hay) = needle) [0..<Suc (length hay)]"

text \<open>The texts of the errors that the tests read.\<close>

definition error_text :: "error \<Rightarrow> rstring" where
  "error_text e =
     (case e of
        StringTooLong sz max_len \<Rightarrow>
          lit ''String length '' @ dec (unat sz) @ lit '' exceeds maximum allowed '' @ dec (unat max_len)
      | ConnectionClosed \<Rightarrow> lit ''Connection closed by peer''
      | UnknownStatusCode \<Rightarrow> lit ''Unknown status code''
      | StatusError msg \<Rightarrow> msg
      | _ \<Rightarrow> [])"

lemma assert_that_True [simp]: "assert_that True = Some ()"
  by (simp add: assert_that_def)

lemma unwrap_simps [simp]:
  "unwrap (Ready (Ok x)) = Some x" "unwrap_err (Ready (Err e) :: 'a result poll) = Some e"
  by (simp_all add: unwrap_def unwrap_err_def)

section \<open>The ends of the tests\<close>

text \<open>No test writes more than four times to a vector, or more than 1024 bytes at once.\<close>

definition vec_sched :: "wr_event list" where
  "vec_sched = replicate 4 (Accept 1024)"

definition cursor :: "u8 list \<Rightarrow> rstream" where
  "cursor buf = [Chunk buf, Eof]"

definition into_vec :: "(unit, unit) io \<Rightarrow> u8 list option" where
  "into_vec m =
     (case m \<lparr>rx = [], tx_sched = vec_sched, tx_out = []\<rparr> of
        (p, c) \<Rightarrow> do { unwrap p; Some (tx_out c) })"

definition from_cursor :: "(unit, 'a) io \<Rightarrow> u8 list \<Rightarrow> 'a result poll" where
  "from_cursor m buf = fst (m \<lparr>rx = cursor buf, tx_sched = [], tx_out = []\<rparr>)"

definition rws_into :: "rstring \<Rightarrow> u8 list \<Rightarrow> u8 list option" where
  "rws_into s buf =
     (case rws_write_to (rws_new s) (vec_sched, buf) of (p, _, _, out) \<Rightarrow> do { unwrap p; Some out })"

definition rwfb_into :: "usize \<Rightarrow> u8 list \<Rightarrow> u8 list \<Rightarrow> u8 list option" where
  "rwfb_into offset block_data buf =
     (case rwfb_write_to (rwfb_new offset block_data) (vec_sched, buf) of
        (p, _, _, out) \<Rightarrow> do { unwrap p; Some out })"

definition rrs_from :: "usize \<Rightarrow> u8 list \<Rightarrow> rstring result poll" where
  "rrs_from max_len buf = fst (rrs_read_on (rrs_new max_len) (cursor buf))"

text \<open>A future that the timer of a \<open>select!\<close> cancels: it must be pending; its state is kept.\<close>

definition cancelled :: "'a result poll \<times> 's \<Rightarrow> 's option" where
  "cancelled r = (case r of (Pending, s) \<Rightarrow> Some s | _ \<Rightarrow> None)"

section \<open>Strings and status codes\<close>

definition write_read_string :: "crates \<Rightarrow> rstring \<Rightarrow> usize \<Rightarrow> test" where
  "write_read_string C s max_len =
     do { buf \<leftarrow> into_vec (write_string C s);
          result \<leftarrow> unwrap (from_cursor (read_string C max_len) buf);
          assert_that (result = s) }"

definition write_read_string_round_trip :: "crates \<Rightarrow> test" where
  "write_read_string_round_trip C = write_read_string C (lit ''hello'') 256"

definition write_read_string_empty :: "crates \<Rightarrow> test" where
  "write_read_string_empty C = write_read_string C (lit '''') 256"

definition read_string_rejects_exceeding_max_len :: "crates \<Rightarrow> test" where
  "read_string_rejects_exceeding_max_len C =
     do { buf \<leftarrow> into_vec (write_string C (lit ''toolong''));
          err \<leftarrow> unwrap_err (from_cursor (read_string C 3) buf);
          assert_that (contains (error_text err) (lit ''exceeds maximum'')) }"

definition read_string_accepts_exactly_max_len :: "crates \<Rightarrow> test" where
  "read_string_accepts_exactly_max_len C = write_read_string C (lit ''abc'') 3"

text \<open>The text of this test has seven characters, of which one takes two bytes and one four.\<close>

definition write_read_string_with_unicode :: "crates \<Rightarrow> test" where
  "write_read_string_with_unicode C =
     write_read_string C [0x68, 0xC3, 0xA9, 0x6C, 0x6C, 0x6F, 0x20, 0xF0, 0x9F, 0x8C, 0x8D] 256"

definition write_check_status_ack :: test where
  "write_check_status_ack =
     do { buf \<leftarrow> into_vec (write_status Ack);
          unwrap (from_cursor check_status buf) }"

primrec check_status_codes :: "(u8 \<times> rstring) list \<Rightarrow> test" where
  "check_status_codes [] = Some ()"
| "check_status_codes (c # codes) =
     do { err \<leftarrow> unwrap_err (from_cursor check_status [fst c]);
          assert_that (contains (error_text err) (snd c));
          check_status_codes codes }"

definition check_status_rejects_non_ack :: test where
  "check_status_rejects_non_ack =
     check_status_codes
       [(1, lit ''Invalid Secret''), (2, lit ''File size differs''), (3, lit ''Permission denied''),
        (4, lit ''A client is already connected''), (5, lit ''Hash algorithm is not supported''),
        (6, lit ''Protocol version mismatch''), (7, lit ''Invalid block size'')]"

definition check_status_rejects_unknown_code :: test where
  "check_status_rejects_unknown_code =
     do { err \<leftarrow> unwrap_err (from_cursor check_status [255]);
          assert_that (contains (error_text err) (lit ''Unknown status code'')) }"

text \<open>tokio enters through \<open>read_u64\<close> and \<open>write_u64\<close> only: its documented byte order settles the rest.\<close>

lemma same_wire:
  assumes "tokio_big_endian C"
  shows "write_string C = (write_string sample_crates :: _ \<Rightarrow> (unit, unit) io)"
    "read_string C = (read_string sample_crates :: _ \<Rightarrow> (unit, rstring) io)"
  using assms by (auto simp: fun_eq_iff write_string_def read_string_def write_u64_def read_u64_def
      tokio_big_endian_simps)

lemmas string_test_defs = write_read_string_round_trip_def write_read_string_empty_def
  read_string_rejects_exceeding_max_len_def read_string_accepts_exactly_max_len_def
  write_read_string_with_unicode_def write_read_string_def

lemma string_tests:
  assumes "tokio_big_endian C"
  shows "write_read_string_round_trip C = Some ()" "write_read_string_empty C = Some ()"
    "read_string_rejects_exceeding_max_len C = Some ()" "read_string_accepts_exactly_max_len C = Some ()"
    "write_read_string_with_unicode C = Some ()"
proof -
  have "write_read_string_round_trip sample_crates = Some ()"
    "write_read_string_empty sample_crates = Some ()"
    "read_string_rejects_exceeding_max_len sample_crates = Some ()"
    "read_string_accepts_exactly_max_len sample_crates = Some ()"
    "write_read_string_with_unicode sample_crates = Some ()"
    by code_simp+
  then show "write_read_string_round_trip C = Some ()" "write_read_string_empty C = Some ()"
    "read_string_rejects_exceeding_max_len C = Some ()" "read_string_accepts_exactly_max_len C = Some ()"
    "write_read_string_with_unicode C = Some ()"
    by (simp_all only: string_test_defs same_wire [OF assms])
qed

lemma status_tests:
  "write_check_status_ack = Some ()" "check_status_rejects_non_ack = Some ()"
  "check_status_rejects_unknown_code = Some ()"
  by code_simp+

section \<open>Resumable strings\<close>

definition resumable_write_read :: "rstring \<Rightarrow> usize \<Rightarrow> test" where
  "resumable_write_read s max_len =
     do { buf \<leftarrow> rws_into s [];
          result \<leftarrow> unwrap (rrs_from max_len buf);
          assert_that (result = s) }"

definition resumable_write_read_string_round_trip :: test where
  "resumable_write_read_string_round_trip = resumable_write_read (lit ''deltasync'') 256"

definition resumable_write_read_string_empty :: test where
  "resumable_write_read_string_empty = resumable_write_read (lit '''') 256"

definition resumable_read_string_rejects_exceeding_max_len :: test where
  "resumable_read_string_rejects_exceeding_max_len =
     do { buf \<leftarrow> rws_into (lit ''toolong'') [];
          err \<leftarrow> unwrap_err (rrs_from 3 buf);
          assert_that (contains (error_text err) (lit ''exceeds maximum'')) }"

definition resumable_read_string_multiple_sequential_reads :: test where
  "resumable_read_string_multiple_sequential_reads =
     do { buf \<leftarrow> rws_into (lit ''first'') [];
          buf \<leftarrow> rws_into (lit ''second'') buf;
          (case rrs_read_on (rrs_new 256) (cursor buf) of
             (p, reader, es) \<Rightarrow>
               do { r1 \<leftarrow> unwrap p;
                    assert_that (r1 = lit ''first'');
                    r2 \<leftarrow> unwrap (fst (rrs_read_on reader es));
                    assert_that (r2 = lit ''second'') }) }"

definition resumable_write_compatible_with_simple_read :: "crates \<Rightarrow> test" where
  "resumable_write_compatible_with_simple_read C =
     do { buf \<leftarrow> rws_into (lit ''compat'') [];
          result \<leftarrow> unwrap (from_cursor (read_string C 256) buf);
          assert_that (result = lit ''compat'') }"

definition simple_write_compatible_with_resumable_read :: "crates \<Rightarrow> test" where
  "simple_write_compatible_with_resumable_read C =
     do { buf \<leftarrow> into_vec (write_string C (lit ''compat''));
          result \<leftarrow> unwrap (rrs_from 256 buf);
          assert_that (result = lit ''compat'') }"

definition resumable_read_string_connection_closed_during_header :: test where
  "resumable_read_string_connection_closed_during_header =
     do { err \<leftarrow> unwrap_err (rrs_from 256 [0, 0, 0]);
          assert_that (contains (error_text err) (lit ''Connection closed'')) }"

definition resumable_read_string_connection_closed_during_payload :: test where
  "resumable_read_string_connection_closed_during_payload =
     do { err \<leftarrow> unwrap_err (rrs_from 256 ([0, 0, 0, 0, 0, 0, 0, 10] @ lit ''short''));
          assert_that (contains (error_text err) (lit ''Connection closed'')) }"

text \<open>Feed the first \<open>k\<close> bytes, cancel, feed the rest and resume.\<close>

definition read_string_cancel :: "crates \<Rightarrow> rstring \<Rightarrow> nat \<Rightarrow> test" where
  "read_string_cancel C s k =
     do { wire \<leftarrow> into_vec (write_string C s);
          (reader, es) \<leftarrow> cancelled (rrs_read_on (rrs_new 256) [Chunk (take k wire)]);
          result \<leftarrow> unwrap (fst (rrs_read_on reader (es @ [Chunk (drop k wire)])));
          assert_that (result = s) }"

definition resumable_read_string_cancel_during_header :: "crates \<Rightarrow> test" where
  "resumable_read_string_cancel_during_header C = read_string_cancel C (lit ''hello'') 3"

definition resumable_read_string_cancel_during_payload :: "crates \<Rightarrow> test" where
  "resumable_read_string_cancel_during_payload C = read_string_cancel C (lit ''hello world!'') 12"

lemma resumable_string_tests:
  "resumable_write_read_string_round_trip = Some ()"
  "resumable_write_read_string_empty = Some ()"
  "resumable_read_string_rejects_exceeding_max_len = Some ()"
  "resumable_read_string_multiple_sequential_reads = Some ()"
  "resumable_read_string_connection_closed_during_header = Some ()"
  "resumable_read_string_connection_closed_during_payload = Some ()"
  by code_simp+

lemma compatibility_tests:
  assumes "tokio_big_endian C"
  shows "resumable_write_compatible_with_simple_read C = Some ()"
    "simple_write_compatible_with_resumable_read C = Some ()"
    "resumable_read_string_cancel_during_header C = Some ()"
    "resumable_read_string_cancel_during_payload C = Some ()"
proof -
  have "resumable_write_compatible_with_simple_read sample_crates = Some ()"
    "simple_write_compatible_with_resumable_read sample_crates = Some ()"
    "resumable_read_string_cancel_during_header sample_crates = Some ()"
    "resumable_read_string_cancel_during_payload sample_crates = Some ()"
    by code_simp+
  then show "resumable_write_compatible_with_simple_read C = Some ()"
    "simple_write_compatible_with_resumable_read C = Some ()"
    "resumable_read_string_cancel_during_header C = Some ()"
    "resumable_read_string_cancel_during_payload C = Some ()"
    by (simp_all only: resumable_write_compatible_with_simple_read_def
        simple_write_compatible_with_resumable_read_def resumable_read_string_cancel_during_header_def
        resumable_read_string_cancel_during_payload_def read_string_cancel_def same_wire [OF assms])
qed

section \<open>Resumable blocks\<close>

text \<open>The loan of a test is dropped with its writer; the reclaimer is dropped unused.\<close>

definition write_read_file_block :: "u8 list \<Rightarrow> usize \<Rightarrow> usize \<Rightarrow> usize \<Rightarrow> test" where
  "write_read_file_block data block_size file_size offset =
     do { buf \<leftarrow> rwfb_into offset data [];
          (case rrfb_read_on (rrfb_new block_size file_size, []) (cursor buf) of
             (p, (_, read_buf), _) \<Rightarrow>
               do { read_offset \<leftarrow> unwrap p;
                    assert_that (read_offset = offset);
                    assert_that (read_buf = data) }) }"

definition resumable_write_read_file_block_round_trip :: test where
  "resumable_write_read_file_block_round_trip =
     write_read_file_block [1, 2, 3, 4, 5, 6, 7, 8, 9, 10] 10 100 20"

definition resumable_write_read_file_block_last_block_smaller :: test where
  "resumable_write_read_file_block_last_block_smaller = write_read_file_block [1, 2, 3] 10 93 90"

definition resumable_read_file_block_multiple_sequential :: test where
  "resumable_read_file_block_multiple_sequential =
     do { wire \<leftarrow> rwfb_into 0 (replicate 4 0xAA) [];
          wire \<leftarrow> rwfb_into 8 (replicate 2 0xBB) wire;
          (case rrfb_read_on (rrfb_new 4 10, []) (cursor wire) of
             (p, (reader, read_buf), es) \<Rightarrow>
               do { off \<leftarrow> unwrap p;
                    assert_that (off = 0);
                    assert_that (read_buf = replicate 4 0xAA);
                    (case rrfb_read_on (reader, read_buf) es of
                       (p, (_, read_buf), _) \<Rightarrow>
                         do { off \<leftarrow> unwrap p;
                              assert_that (off = 8);
                              assert_that (read_buf = replicate 2 0xBB) }) }) }"

definition resumable_read_file_block_cancel_and_resume :: test where
  "resumable_read_file_block_cancel_and_resume =
     do { wire \<leftarrow> rwfb_into 30 (replicate 10 0xCC) [];
          (reader, es) \<leftarrow> cancelled (rrfb_read_on (rrfb_new 10 100, []) [Chunk (take 5 wire)]);
          (case rrfb_read_on reader (es @ [Chunk (drop 5 wire)]) of
             (p, (_, read_buf), _) \<Rightarrow>
               do { read_offset \<leftarrow> unwrap p;
                    assert_that (read_offset = 30);
                    assert_that (read_buf = replicate 10 0xCC) }) }"

lemma block_tests:
  "resumable_write_read_file_block_round_trip = Some ()"
  "resumable_write_read_file_block_last_block_smaller = Some ()"
  "resumable_read_file_block_multiple_sequential = Some ()"
  "resumable_read_file_block_cancel_and_resume = Some ()"
  by code_simp+

section \<open>Writers cancelled on a full pipe\<close>

text \<open>
  \<open>duplex(4)\<close> takes four bytes and is then full, so the first poll is cancelled. When the
  test resumes, its reader drains the pipe concurrently: how many bytes each later write
  places, and how often the writer has to wait, is the schedule \<open>ws\<close>; \<open>n\<close> bounds the polls.
\<close>

definition resumable_async_write_all :: test where
  "resumable_async_write_all =
     (case rwa_write_all (lit ''hello world'') rwa_new (vec_sched, []) of
        (p, _, _, buf) \<Rightarrow> do { unwrap p; assert_that (buf = lit ''hello world'') })"

definition resumable_async_write_all_empty :: test where
  "resumable_async_write_all_empty =
     (case rwa_write_all [] rwa_new (vec_sched, []) of
        (p, _, _, buf) \<Rightarrow> do { unwrap p; assert_that (buf = []) })"

definition resumable_async_write_all_cancel_and_resume :: "nat \<Rightarrow> wr_event list \<Rightarrow> test" where
  "resumable_async_write_all_cancel_and_resume n ws =
     (let data = lit ''abcdefghijklmnopqrstuvwxyz'' in
      do { (writer, es, out) \<leftarrow> cancelled (rwa_write_all data rwa_new ([Accept 4], []));
           (case drive n (rwa_write_all data) writer (es @ ws, out) of
              (p, _, _, received) \<Rightarrow> do { unwrap p; assert_that (received = data) }) })"

definition resumable_write_string_cancel_and_resume :: "nat \<Rightarrow> wr_event list \<Rightarrow> test" where
  "resumable_write_string_cancel_and_resume n ws =
     do { (writer, es, out) \<leftarrow> cancelled (rws_write_to (rws_new (lit ''hello world!'')) ([Accept 4], []));
          (case drive n rws_write_to writer (es @ ws, out) of
             (p, _, _, received) \<Rightarrow>
               do { unwrap p;
                    expected \<leftarrow> rws_into (lit ''hello world!'') [];
                    assert_that (received = expected) }) }"

definition resumable_write_file_block_cancel_and_resume :: "nat \<Rightarrow> wr_event list \<Rightarrow> test" where
  "resumable_write_file_block_cancel_and_resume n ws =
     do { (writer, es, out) \<leftarrow> cancelled (rwfb_write_to (rwfb_new 40 (replicate 16 0xDD)) ([Accept 4], []));
          (case drive n rwfb_write_to writer (es @ ws, out) of
             (p, _, _, received) \<Rightarrow>
               do { unwrap p;
                    (case rrfb_read_on (rrfb_new 16 100, []) (cursor received) of
                       (p, (_, read_buf), _) \<Rightarrow>
                         do { read_offset \<leftarrow> unwrap p;
                              assert_that (read_offset = 40);
                              assert_that (read_buf = replicate 16 0xDD) }) }) }"

lemma write_all_tests:
  "resumable_async_write_all = Some ()" "resumable_async_write_all_empty = Some ()"
  by code_simp+

lemma write_all_cancel:
  assumes "sound_sched ws" and "22 \<le> accepts ws" and "wr_waits ws < n"
  shows "resumable_async_write_all_cancel_and_resume n ws = Some ()"
proof -
  let ?data = "lit ''abcdefghijklmnopqrstuvwxyz''" and ?out = "lit ''abcd''"
  have first: "rwa_write_all ?data rwa_new ([Accept 4], []) = (Pending, \<lparr>rwa_offset = 4\<rparr>, [], ?out)"
    by code_simp
  have "length ?data \<le> accepts ws + length ?out" using assms(2) by (simp add: lit_def)
  then obtain s es where "drive n (rwa_write_all ?data) \<lparr>rwa_offset = 4\<rparr> (ws, ?out)
      = (Ready (Ok ()), s, es, ?data)"
    using rwa.resume [OF rwa_new_message(1) first assms(1) _ assms(3)] by (auto simp: rwa_new_message)
  then show ?thesis
    by (simp add: resumable_async_write_all_cancel_and_resume_def first cancelled_def)
qed

lemma write_string_cancel:
  assumes "sound_sched ws" and "16 \<le> accepts ws" and "wr_waits ws < n"
  shows "resumable_write_string_cancel_and_resume n ws = Some ()"
proof -
  let ?s = "lit ''hello world!''" and ?out = "[0, 0, 0, 0] :: u8 list"
  let ?w = "(rws_new ?s)\<lparr>rws_offset := 4\<rparr>"
  have first: "rws_write_to (rws_new ?s) ([Accept 4], []) = (Pending, ?w, [], ?out)" by code_simp
  have "length (string_message ?s) \<le> accepts ws + length ?out"
    using assms(2) by (simp add: lit_def string_message_def)
  then obtain s es where "drive n rws_write_to ?w (ws, ?out) = (Ready (Ok ()), s, es, string_message ?s)"
    using rws.resume [OF rws_new_message(1) first assms(1) _ assms(3)] by (auto simp: rws_new_message)
  moreover have "rws_into ?s [] = Some (string_message ?s)" by code_simp
  ultimately show ?thesis
    by (simp add: resumable_write_string_cancel_and_resume_def first cancelled_def)
qed

lemma write_block_cancel:
  assumes "sound_sched ws" and "20 \<le> accepts ws" and "wr_waits ws < n"
  shows "resumable_write_file_block_cancel_and_resume n ws = Some ()"
proof -
  let ?b = "(40, replicate 16 0xDD) :: usize \<times> u8 list" and ?out = "[0, 0, 0, 0] :: u8 list"
  let ?w = "(rwfb_new (fst ?b) (snd ?b))\<lparr>rwfb_offset_bytes := [0, 0, 0, 40, 0, 0, 0, 40],
    rwfb_offsetlen := 4, rwfb_step := 1\<rparr>"
  have first: "rwfb_write_to (rwfb_new (fst ?b) (snd ?b)) ([Accept 4], []) = (Pending, ?w, [], ?out)"
    by code_simp
  have "length (block_message ?b) \<le> accepts ws + length ?out"
    using assms(2) by (simp add: block_message_def)
  then obtain s es where w: "drive n rwfb_write_to ?w (ws, ?out) = (Ready (Ok ()), s, es, block_message ?b)"
    using rwfb.resume [OF rwfb_new_message(1) first assms(1) _ assms(3)] by (auto simp: rwfb_new_message)
  have "fst (rrfb_read_on (rrfb_new 16 100, []) (cursor (block_message ?b))) = Ready (Ok 40)"
    "snd (fst (snd (rrfb_read_on (rrfb_new 16 100, []) (cursor (block_message ?b))))) = replicate 16 0xDD"
    by code_simp+
  then obtain r es2 where
    "rrfb_read_on (rrfb_new 16 100, []) (cursor (block_message ?b)) = (Ready (Ok 40), (r, replicate 16 0xDD), es2)"
    by (metis prod.collapse)
  then show ?thesis
    using w first by (simp add: resumable_write_file_block_cancel_and_resume_def cancelled_def)
qed

end
