(* ===== verification/Test_Sync.thy ===== *)
theory Test_Sync
  imports Ordered_Channel Test_Common
begin

text \<open>
  The unit tests of \<open>sync.rs\<close>, on the model. A test of the channel starts threads that interleave
  freely, so it is a predicate on a state of the channel, and its lemma is about every state that
  any interleaving of the test's threads reaches. The tests send string literals, which nobody
  reclaims: \<open>plain_reachable\<close>. The tests of the loans are sequential.
\<close>

section \<open>The ordered channel\<close>

text \<open>The helpers the source compiles for its tests: a queue of capacity one.\<close>

definition max_capacity :: "'v channel \<Rightarrow> nat" where
  "max_capacity c = 1"

definition capacity :: "'v channel \<Rightarrow> nat" where
  "capacity c = 1 - length (queue c)"

text \<open>All senders are gone and nothing is queued: \<open>recv\<close> returns \<open>None\<close>.\<close>

definition exhausted :: "'v channel \<Rightarrow> bool" where
  "exhausted c \<longleftrightarrow> list_all (\<lambda>s. s_pc s = Exited) (senders c) \<and> queue c = []"

text \<open>Plain values are not lent: a sender goes on at once when its value is queued.\<close>

definition lends_nothing :: "'v channel \<Rightarrow> 'v channel" where
  "lends_nothing c = c\<lparr>lent := {}\<rparr>"

inductive plain_reachable :: "(nat \<times> 'v) list list \<Rightarrow> 'v channel \<Rightarrow> bool" for work where
  start: "plain_reachable work (ordered_channel work)"
| step: "plain_reachable work c \<Longrightarrow> chan_step c c' \<Longrightarrow> plain_reachable work (lends_nothing c')"

text \<open>What \<open>recv\<close> has returned so far is what the assertions list, and all of it at the end.\<close>

definition receives :: "'v list \<Rightarrow> 'v channel \<Rightarrow> test" where
  "receives expected c =
     do { assert_that (map snd (received c) = take (length (received c)) expected);
          assert_that (exhausted c \<longrightarrow> map snd (received c) = expected) }"

definition ordered_threads :: "(nat \<times> rstring) list list" where
  "ordered_threads =
     [[(2, lit ''third'')], [(1, lit ''second'')], [(0, lit ''first''), (3, lit ''fourth'')]]"

definition ordered :: "rstring channel \<Rightarrow> test" where
  "ordered c = receives [lit ''first'', lit ''second'', lit ''third'', lit ''fourth''] c"

definition cancel_safe_threads :: "(nat \<times> rstring) list list" where
  "cancel_safe_threads = [[(0, lit ''first''), (1, lit ''second'')]]"

definition cancel_safe :: "rstring channel \<Rightarrow> test" where
  "cancel_safe c = receives [lit ''first'', lit ''second''] c"

text \<open>The receiver is dropped before any \<open>recv\<close>; what the thread returns is checked once it has ended.\<close>

definition dropping_rx_threads :: "(nat \<times> rstring) list list" where
  "dropping_rx_threads = [[(10, lit '''')]]"

definition dropping_rx :: "rstring channel \<Rightarrow> test" where
  "dropping_rx c =
     (if receiver c = Closed \<and> s_pc (senders c ! 0) = Exited then
        do { assert_that (s_todo (senders c ! 0) \<noteq> []);
             assert_that (capacity c = max_capacity c) }
      else Some ())"

text \<open>
  The test takes a value, cancels a \<open>recv\<close> that asked for the second one, drops the receiver and joins the
  thread: its first \<open>recv\<close> does not find the channel exhausted, and the join returns.
\<close>

definition no_deadlock_threads :: "(nat \<times> rstring) list list" where
  "no_deadlock_threads = [[(0, lit ''first''), (1, lit ''second'')]]"

definition no_deadlock_if_recv_canceled :: "rstring channel \<Rightarrow> test" where
  "no_deadlock_if_recv_canceled c =
     do { assert_that (exhausted c \<longrightarrow> received c \<noteq> []);
          _ \<leftarrow> join_thread 3 0 (recv_close c);
          Some () }"

lemma plain_reachable_inv:
  assumes "plain_reachable work c" and "distinct (map fst (concat work))"
  shows "chan_inv work c \<and> lent c = {}"
  using assms(1)
proof (induction rule: plain_reachable.induct)
  case (step c c')
  with chan_step_inv [OF step.hyps(2) _ assms(2)] have "chan_inv work c'" by simp
  then show ?case by (simp add: chan_inv_def sent_idx_def lends_nothing_def)
qed (simp_all add: chan_inv_start, simp add: ordered_channel_def)

text \<open>The order of the indices settles the order of the values.\<close>

lemma receives_in_order:
  assumes distinct: "distinct (map fst (concat work))" and reach: "plain_reachable work c"
    and vals: "\<And>x. x \<in> set (concat work) \<Longrightarrow> fst x < length expected \<and> expected ! fst x = snd x"
    and len_work: "length (concat work) = length expected" and open_rx: "\<not> recv_closed (shared c)"
  shows "receives expected c = Some ()"
proof -
  note inv = conjunct1 [OF plain_reachable_inv [OF reach distinct]]
  then have idx: "map fst (received c) = [0..<length (received c)]"
    and from_work: "set (received c) \<subseteq> set (concat work)" by (simp_all add: chan_inv_def)
  have nth: "fst (received c ! k) = k" if "k < length (received c)" for k
    using arg_cong [OF idx, of "\<lambda>xs. xs ! k"] that by simp
  have val: "k < length expected \<and> expected ! k = snd (received c ! k)" if "k < length (received c)" for k
  proof -
    have "received c ! k \<in> set (concat work)" using subsetD [OF from_work nth_mem [OF that]] .
    from vals [OF this] show ?thesis by (simp only: nth [OF that])
  qed
  have len: "length (received c) \<le> length expected"
    using val [of "length (received c) - 1"] by (cases "received c = []") auto
  have "map snd (received c) = take (length (received c)) expected"
    by (rule nth_equalityI) (use val len in auto)
  moreover have "length (received c) = length expected" if "exhausted c"
  proof -
    have "map fst (received c) = [0..<length (concat work)]"
      using channel_exhausted [OF distinct inv _ _ open_rx] that
      by (auto simp: exhausted_def list_all_iff)
    from arg_cong [OF this, of length] len_work show ?thesis by simp
  qed
  ultimately show ?thesis by (simp add: receives_def)
qed


lemma ordered_test:
  assumes "plain_reachable ordered_threads c" and "\<not> recv_closed (shared c)"
  shows "ordered c = Some ()"
  unfolding ordered_def
  by (rule receives_in_order [OF _ assms(1) _ _ assms(2)]) (auto simp: ordered_threads_def)

lemma cancel_safe_test:
  assumes "plain_reachable cancel_safe_threads c" and "\<not> recv_closed (shared c)"
  shows "cancel_safe c = Some ()"
  unfolding cancel_safe_def
  by (rule receives_in_order [OF _ assms(1) _ _ assms(2)]) (auto simp: cancel_safe_threads_def)

lemma dropping_rx_test:
  assumes "plain_reachable dropping_rx_threads c" and "wanted_idx (shared c) = None"
  shows "dropping_rx c = Some ()"
proof -
  have I: "chan_inv dropping_rx_threads c"
    by (rule conjunct1 [OF plain_reachable_inv [OF assms(1)]]) (simp add: dropping_rx_threads_def)
  with assms(2) have none: "\<not> receiving (shared c)" "received c = []" "queue c = []"
    by (auto simp: chan_inv_def split: if_splits)
  have "0 < length (senders c)"
    using I by (auto simp: chan_inv_def dropping_rx_threads_def dest: list_all2_lengthD)
  from sender_ok_nth [OF I this] none have "s_todo (senders c ! 0) \<noteq> []"
    by (auto simp: sender_ok_def sent_idx_def dropping_rx_threads_def)
  with none show ?thesis by (simp add: dropping_rx_def capacity_def max_capacity_def)
qed

lemma no_deadlock_test:
  assumes "plain_reachable no_deadlock_threads c" and "\<not> recv_closed (shared c)"
  shows "no_deadlock_if_recv_canceled c = Some ()"
proof -
  have distinct: "distinct (map fst (concat no_deadlock_threads))" by (simp add: no_deadlock_threads_def)
  note inv = plain_reachable_inv [OF assms(1) distinct]
  have "received c \<noteq> []" if "exhausted c"
  proof -
    have "set (received c) = set (concat no_deadlock_threads)"
      using channel_exhausted [OF distinct conjunct1 [OF inv] _ _ assms(2)] that by (auto simp: exhausted_def list_all_iff)
    moreover have "concat no_deadlock_threads \<noteq> []" by (simp add: no_deadlock_threads_def)
    ultimately show ?thesis by (metis set_empty)
  qed
  moreover have "dropping no_deadlock_threads (recv_close c)"
    unfolding dropping_def using inv by (intro conjI recv_close_inv) (simp_all add: recv_close_def)
  moreover have "length (senders (recv_close c)) = 1"
    using inv by (auto simp: chan_inv_def no_deadlock_threads_def recv_close_def notify_all_def dest: list_all2_lengthD)
  moreover have "exit_distance pc \<le> 3" for pc by (cases pc) auto
  ultimately show ?thesis using join_thread_returns [OF distinct, of "recv_close c" 0 3]
    by (auto simp: no_deadlock_if_recv_canceled_def)
qed

section \<open>Loans\<close>

text \<open>\<open>handle.join().unwrap()\<close> on a thread in \<open>blocking_reclaim\<close>: it ends once the loan is dropped.\<close>

definition joined :: "'a poll \<Rightarrow> 'a option" where
  "joined p = (case p of Pending \<Rightarrow> None | Ready x \<Rightarrow> Some x)"

definition loan_deref_gives_access_to_value :: test where
  "loan_deref_gives_access_to_value =
     (case loan_new [1, 2, 3 :: int] of (loan, _) \<Rightarrow> assert_that (loan_deref loan = [1, 2, 3]))"

definition loan_deref_mut_allows_mutation :: test where
  "loan_deref_mut_allows_mutation =
     (case loan_new [1, 2, 3 :: int] of (loan, _) \<Rightarrow>
        (let loan = loan_deref_mut (\<lambda>v. v @ [4]) loan in assert_that (loan_deref loan = [1, 2, 3, 4])))"

definition loan_drop_sends_value_back_to_reclaimer :: test where
  "loan_drop_sends_value_back_to_reclaimer =
     (case loan_new [10, 20 :: int] of (loan, reclaim) \<Rightarrow>
        do { (_, reclaim) \<leftarrow> loan_drop [] loan reclaim;
             v \<leftarrow> joined (blocking_reclaim reclaim);
             assert_that (v = [10, 20]) })"

definition loan_drop_sends_mutated_value_back :: test where
  "loan_drop_sends_mutated_value_back =
     (case loan_new [1 :: int] of (loan, reclaim) \<Rightarrow>
        (let loan = loan_deref_mut (\<lambda>v. v @ [2]) loan;
             loan = loan_deref_mut (\<lambda>v. v @ [3]) loan in
         do { (_, reclaim) \<leftarrow> loan_drop [] loan reclaim;
              v \<leftarrow> joined (blocking_reclaim reclaim);
              assert_that (v = [1, 2, 3]) }))"

definition loan_drop_returns_default_after_mem_take :: test where
  "loan_drop_returns_default_after_mem_take =
     (case loan_new (lit ''hello'') of (loan, reclaim) \<Rightarrow>
        do { (_, reclaim) \<leftarrow> loan_drop [] loan reclaim;
             v \<leftarrow> joined (blocking_reclaim reclaim);
             assert_that (v = lit ''hello'') })"

text \<open>In the last two the consumer's thread looks at the loan, drops it and is joined first.\<close>

definition loan_reclaim_across_threads :: test where
  "loan_reclaim_across_threads =
     (case loan_new (replicate 1024 (0 :: u8)) of (loan, reclaim) \<Rightarrow>
        do { assert_that (length (loan_deref loan) = 1024);
             (_, reclaim) \<leftarrow> loan_drop [] loan reclaim;
             reclaimed \<leftarrow> joined (blocking_reclaim reclaim);
             assert_that (length reclaimed = 1024) })"

definition loan_reclaim_preserves_mutations_across_threads :: test where
  "loan_reclaim_preserves_mutations_across_threads =
     (case loan_new (replicate 4 (0 :: u8)) of (loan, reclaim) \<Rightarrow>
        do { assert_that (loan_deref loan = [0, 0, 0, 0]);
             (_, reclaim) \<leftarrow> loan_drop [] loan reclaim;
             reclaimed \<leftarrow> joined (blocking_reclaim reclaim);
             assert_that (reclaimed = [0, 0, 0, 0]) })"

lemma loan_tests:
  "loan_deref_gives_access_to_value = Some ()"
  "loan_deref_mut_allows_mutation = Some ()"
  "loan_drop_sends_value_back_to_reclaimer = Some ()"
  "loan_drop_sends_mutated_value_back = Some ()"
  "loan_drop_returns_default_after_mem_take = Some ()"
  "loan_reclaim_preserves_mutations_across_threads = Some ()"
  by code_simp+

lemma loan_reclaim_across_threads_test: "loan_reclaim_across_threads = Some ()"
  by (simp add: loan_reclaim_across_threads_def loan_new_def loan_deref_def loan_drop_def
      blocking_reclaim_def joined_def)

end
