(* ===== verification/Test_Hash.thy ===== *)
theory Test_Hash
  imports Hash_File Test_Common
begin

text \<open>
  The unit tests of \<open>hash_file.rs\<close>, on the model: the hashes of the blocks of a text file, the drop of
  a stream that was not read to its end, and a worker that fails on a file truncated meanwhile.
\<close>

section \<open>The hashes of a file\<close>

text \<open>The contents of \<open>test/file_to_hash.txt\<close>.\<close>

definition file_to_hash :: "u8 list" where
  "file_to_hash = lit ''This text file is used'' @ [10] @ lit ''to test the `hash_file` function.'' @ [10, 10, 10]"

definition test_path :: rstring where
  "test_path = lit ''test/file_to_hash.txt''"

definition expected_hashes :: "rstring list" where
  "expected_hashes =
     [lit ''87569f2a32a30008939dbce402476f9e'', lit ''4bb90b25dbd367acfb66910764a60669'',
      lit ''2ae5379d67740e8bb6ce27404873efa5'', lit ''330880debc47896dacf1b11aa46ada4a'',
      lit ''a80a682a9206c851a4dd9d809a20e4c5'', lit ''590f3733f7c58433d9077904b0f1a6ee'']"

text \<open>The MD5 digests of the six blocks, the values the test takes from another implementation of MD5.\<close>

definition md5_of_blocks :: "crates \<Rightarrow> bool" where
  "md5_of_blocks C \<longleftrightarrow>
     map (\<lambda>block. hex_encode C (md5_digest C block))
       [lit ''This text '', lit ''file is us'', lit ''ed'' @ [10] @ lit ''to test'', lit '' the `hash'',
        lit ''_file` fun'', lit ''ction.'' @ [10, 10, 10]] = expected_hashes"

text \<open>The stream is read to its end; \<open>delays\<close> is the timing of the workers.\<close>

definition hashes :: "crates \<Rightarrow> (nat \<Rightarrow> nat) \<Rightarrow> hs_item channel \<Rightarrow> test" where
  "hashes C delays left =
     (case hash_file 7 C (reliable_env delays left) [test_path \<mapsto> file_to_hash] test_path 10 2 MD5 of
        Inl _ \<Rightarrow> None
      | Inr hasher \<Rightarrow>
          do { assert_that (map fst (hs_items (hs_events hasher)) = [0, 1, 2, 3, 4, 5]);
               assert_that (map (fst \<circ> snd) (hs_items (hs_events hasher)) = expected_hashes);
               assert_that (hs_no_error (hs_events hasher)) })"

lemma blocks_of_file_to_hash:
  "map (block_at 10 file_to_hash) [0, 1, 2, 3, 4, 5] =
     [lit ''This text '', lit ''file is us'', lit ''ed'' @ [10] @ lit ''to test'', lit '' the `hash'',
      lit ''_file` fun'', lit ''ction.'' @ [10, 10, 10]]"
  by code_simp

lemma hashes_test:
  assumes "md5_of_blocks C"
  shows "hashes C delays left = Some ()"
proof -
  have len: "length file_to_hash = 59" by code_simp
  have ceil: "div_ceil (length file_to_hash) (unat (10 :: usize)) = 6" by (simp add: len div_ceil_def)
  have "sizes_ok (length file_to_hash) 10 2" by (simp add: len sizes_ok_def)
  then obtain hs where hs: "hash_file 7 C (reliable_env delays left) [test_path \<mapsto> file_to_hash] test_path 10 2 MD5 = Ok hs"
    "hs_items (hs_events hs) = hash_items C MD5 (unat (10 :: usize)) file_to_hash" "hs_no_error (hs_events hs)"
    using hash_file_ok [of "[test_path \<mapsto> file_to_hash]" test_path file_to_hash 10 2 7 C delays left MD5] ceil by auto
  have upt: "[0..<6] = [0, 1, 2, 3, 4, 5 :: nat]" by (simp add: upt_rec)
  have items: "hs_items (hs_events hs) = map (hash_item C MD5 10 file_to_hash) [0, 1, 2, 3, 4, 5]"
    using hs(2) ceil by (simp only: hash_items_def upt) simp
  have "map (fst \<circ> snd) (hs_items (hs_events hs)) = map (\<lambda>block. hex_encode C (md5_digest C block)) (map (block_at 10 file_to_hash) [0, 1, 2, 3, 4, 5])"
    unfolding items by (simp add: hash_item_def)
  then have "map (fst \<circ> snd) (hs_items (hs_events hs)) = expected_hashes"
    using assms unfolding md5_of_blocks_def blocks_of_file_to_hash by simp
  moreover have "map fst (hs_items (hs_events hs)) = [0, 1, 2, 3, 4, 5]" unfolding items by (simp add: hash_item_def)
  ultimately show ?thesis using hs(1,3) by (simp add: hashes_def)
qed

section \<open>Dropping a stream\<close>

text \<open>
  One block is received and its loan dropped, then the stream is dropped, which ends when the workers
  have ended. \<open>c\<close> is the channel at the drop, with any progress of the workers; the test passes when
  the joins end: some worker can always take a step towards its end until all have ended.
\<close>

definition dropped_threads :: "crates \<Rightarrow> (nat \<times> hs_item) list list" where
  "dropped_threads C = hash_work 7 C CRC32 file_to_hash 10 2"

definition dropped_at :: "hs_item channel \<Rightarrow> bool" where
  "dropped_at c \<longleftrightarrow> length (received c) = 1 \<and> \<not> receiving (shared c) \<and> lent c = {}"

definition dropped :: "hs_item channel \<Rightarrow> bool" where
  "dropped c \<longleftrightarrow> (\<forall>c'. chan_step\<^sup>*\<^sup>* (recv_close c) c' \<longrightarrow>
     list_all (\<lambda>s. s_pc s = Exited) (senders c') \<or> (\<exists>c''. chan_step c' c'' \<and> join_todo c'' < join_todo c'))"

lemma dropped_test:
  assumes "chan_reachable (dropped_threads C) c" and "dropped_at c"
  shows "dropped c"
proof -
  have len: "length file_to_hash = 59" by code_simp
  have ok: "sizes_ok (length file_to_hash) 10 2" "div_ceil (length file_to_hash) (unat (10 :: usize)) < 7"
    by (simp_all add: len sizes_ok_def div_ceil_def)
  from distinct_hash_work [OF ok, of C CRC32] have d: "distinct (map fst (concat (dropped_threads C)))"
    by (simp add: dropped_threads_def)
  have "dropping (dropped_threads C) (recv_close c)"
    by (rule dropping_start [OF assms(1) d]) (use assms(2) in \<open>simp add: dropped_at_def\<close>)
  then have "dropping (dropped_threads C) c'" if "chan_step\<^sup>*\<^sup>* (recv_close c) c'" for c'
    using dropping_run [OF that _ d] by blast
  then show ?thesis unfolding dropped_def list_all_iff using dropping_progress by blast
qed

section \<open>A worker that fails\<close>

text \<open>
  The file has ten blocks. The first two are received; then the file is truncated and worker 0 fails to
  read block 2, while worker 1, whose block 3 is not wanted yet, finds the channel closed. The
  third \<open>recv\<close> must return: with the error or, if all senders are gone and it looks at the channel first, with the end.
\<close>

definition truncated_env :: "(nat \<Rightarrow> nat) \<Rightarrow> rstring \<Rightarrow> bool \<Rightarrow> bool \<Rightarrow> bool \<Rightarrow> stream_env" where
  "truncated_env delays os_error at_entry all_gone channel_first =
     \<lparr>st_delays = delays,
      st_worker = \<lambda>f i. (file_env f)
        \<lparr>we_read := \<lambda>pos n. if i = 0 \<and> 20 \<le> pos then Err UnexpectedEof else Ok (take n (drop pos f)),
         we_send_ok := \<lambda>block_idx. block_idx < 2\<rparr>,
      st_os_error = os_error, st_noticed = 2, st_at_entry = at_entry, st_all_gone = all_gone, st_channel_first = channel_first,
      st_left = ordered_channel []\<rparr>"

definition no_deadlock_on_worker_io_error :: "crates \<Rightarrow> (nat \<Rightarrow> nat) \<Rightarrow> rstring \<Rightarrow> bool \<Rightarrow> bool \<Rightarrow> bool \<Rightarrow> test" where
  "no_deadlock_on_worker_io_error C delays os_error at_entry all_gone channel_first =
     (let f = replicate 100 0xAB in
      case hash_file 3 C (truncated_env delays os_error at_entry all_gone channel_first) [test_path \<mapsto> f] test_path 10 2 CRC32 of
        Inl _ \<Rightarrow> None
      | Inr hasher \<Rightarrow>
          (case filter (\<lambda>e. e \<noteq> HsWait) (hs_events hasher) of
             [HsItem i0 _ _, HsItem i1 _ _, result] \<Rightarrow>
               do { assert_that (i0 = 0 \<and> i1 = 1);
                    assert_that (case result of HsEnd \<Rightarrow> True | HsErr msg \<Rightarrow> True | _ \<Rightarrow> False) }
           | _ \<Rightarrow> None))"

lemma truncated_workers:
  "hash_workers 3 C CRC32 (st_worker (truncated_env delays os_error at_entry all_gone channel_first) (replicate 100 0xAB)) 100 10 2
   = [([(0, hash_data C (replicate 10 0xAB) CRC32, replicate 10 0xAB)], Failed (ReadFailed 2)),
      ([(1, hash_data C (replicate 10 0xAB) CRC32, replicate 10 0xAB)], ReceiverGone)]"
  by (simp add: hash_workers_def hash_worker_def truncated_env_def file_env_def seek_start_def seek_current_def
      current_block_size_def Let_def upt_rec numeral_3_eq_3)

lemma truncated_env_simps [simp]:
  "st_delays (truncated_env delays os_error at_entry all_gone channel_first) = delays"
  "st_noticed (truncated_env delays os_error at_entry all_gone channel_first) = 2"
  "st_os_error (truncated_env delays os_error at_entry all_gone channel_first) = os_error"
  "st_at_entry (truncated_env delays os_error at_entry all_gone channel_first) = at_entry"
  "st_all_gone (truncated_env delays os_error at_entry all_gone channel_first) = all_gone"
  "st_channel_first (truncated_env delays os_error at_entry all_gone channel_first) = channel_first"
  by (simp_all add: truncated_env_def)

lemma no_deadlock_on_worker_io_error_test:
  "no_deadlock_on_worker_io_error C delays os_error at_entry all_gone channel_first = Some ()"
  unfolding no_deadlock_on_worker_io_error_def Let_def hash_file_def
  by (simp add: truncated_workers indexed_items_def in_order_def stream_events_def upt_rec
      hash_stream_recv_def Let_def)

end
