(* ===== verification/Test_Utils.thy ===== *)
theory Test_Utils
  imports Program Test_Common
begin

text \<open>
  The unit tests of \<open>utils.rs\<close>, on the model. \<open>absolute_path\<close> cleans its result with the \<open>path_clean\<close>
  crate, a parameter of the model; the tests rely on the lexical rules that crate documents, which
  are written out here: repeated slashes and \<open>.\<close> elements are dropped, \<open>..\<close> removes the element before it,
  is dropped at the root and is kept at the start of a relative path. The current directory of a
  test is any absolute path made of proper names.
\<close>

section \<open>The documented rules of \<open>clean\<close>\<close>

fun split_path :: "rstring \<Rightarrow> rstring list" where
  "split_path [] = [[]]"
| "split_path (b # bs) =
     (if b = 47 then [] # split_path bs
      else (case split_path bs of [] \<Rightarrow> [[b]] | x # xs \<Rightarrow> (b # x) # xs))"

fun path_text :: "rstring list \<Rightarrow> rstring" where
  "path_text [] = []"
| "path_text [x] = x"
| "path_text (x # xs) = x @ 47 # path_text xs"

definition clean_element :: "bool \<Rightarrow> rstring list \<Rightarrow> rstring \<Rightarrow> rstring list" where
  "clean_element rooted stack x =
     (if x = [] \<or> x = lit ''.'' then stack
      else if x = lit ''..'' then
        (case stack of
           [] \<Rightarrow> if rooted then [] else [x]
         | y # ys \<Rightarrow> if y = lit ''..'' then x # stack else ys)
      else x # stack)"

definition lexically_clean :: "rstring \<Rightarrow> rstring" where
  "lexically_clean p =
     (let rooted = is_absolute p; elements = rev (foldl (clean_element rooted) [] (split_path p)) in
      if rooted then 47 # path_text elements
      else if elements = [] then lit ''.'' else path_text elements)"

definition clean_documented :: "(rstring \<Rightarrow> rstring) \<Rightarrow> bool" where
  "clean_documented clean \<longleftrightarrow> (\<forall>p. clean p = lexically_clean p)"

section \<open>The tests\<close>

definition path_is :: "rstring result \<Rightarrow> rstring \<Rightarrow> test" where
  "path_is r expected = do { p \<leftarrow> unwrap (Ready r); assert_that (p = expected) }"

definition absolute_path_already_absolute :: "(rstring \<Rightarrow> rstring) \<Rightarrow> rstring \<Rightarrow> test" where
  "absolute_path_already_absolute clean cwd =
     path_is (absolute_path clean (Some cwd) (lit ''/usr/bin/foo'')) (lit ''/usr/bin/foo'')"

definition absolute_path_cleans_dot_dot :: "(rstring \<Rightarrow> rstring) \<Rightarrow> rstring \<Rightarrow> test" where
  "absolute_path_cleans_dot_dot clean cwd =
     path_is (absolute_path clean (Some cwd) (lit ''/usr/bin/../lib/foo'')) (lit ''/usr/lib/foo'')"

definition absolute_path_cleans_dot :: "(rstring \<Rightarrow> rstring) \<Rightarrow> rstring \<Rightarrow> test" where
  "absolute_path_cleans_dot clean cwd =
     path_is (absolute_path clean (Some cwd) (lit ''/usr/./bin/foo'')) (lit ''/usr/bin/foo'')"

definition absolute_path_relative_prepends_cwd :: "(rstring \<Rightarrow> rstring) \<Rightarrow> rstring \<Rightarrow> test" where
  "absolute_path_relative_prepends_cwd clean cwd =
     do { result \<leftarrow> unwrap (Ready (absolute_path clean (Some cwd) (lit ''some/relative/path'')));
          assert_that (result = join_path cwd (lit ''some/relative/path''));
          assert_that (is_absolute result) }"

definition absolute_path_relative_with_dot_dot :: "(rstring \<Rightarrow> rstring) \<Rightarrow> rstring \<Rightarrow> test" where
  "absolute_path_relative_with_dot_dot clean cwd =
     path_is (absolute_path clean (Some cwd) (lit ''foo/../bar'')) (join_path cwd (lit ''bar''))"

section \<open>Cleaning a path of proper names\<close>

definition proper :: "rstring \<Rightarrow> bool" where
  "proper x \<longleftrightarrow> x \<noteq> [] \<and> 47 \<notin> set x \<and> x \<noteq> lit ''.'' \<and> x \<noteq> lit ''..''"

lemma path_text_Cons: "xs \<noteq> [] \<Longrightarrow> path_text (x # xs) = x @ 47 # path_text xs"
  by (cases xs) simp_all

lemma path_text_append: "xs \<noteq> [] \<Longrightarrow> ys \<noteq> [] \<Longrightarrow> path_text (xs @ ys) = path_text xs @ 47 # path_text ys"
  by (induction xs rule: path_text.induct) (simp_all add: path_text_Cons)

lemma split_path_name: "47 \<notin> set x \<Longrightarrow> split_path x = [x]"
  by (induction x) simp_all

lemma split_path_name_Cons: "47 \<notin> set x \<Longrightarrow> split_path (x @ 47 # bs) = x # split_path bs"
  by (induction x) simp_all

lemma split_path_text: "xs \<noteq> [] \<Longrightarrow> (\<And>x. x \<in> set xs \<Longrightarrow> 47 \<notin> set x) \<Longrightarrow> split_path (path_text xs) = xs"
  by (induction xs rule: path_text.induct) (simp_all add: split_path_name split_path_name_Cons)

lemma clean_proper: "list_all proper xs \<Longrightarrow> foldl (clean_element rooted) stack xs = rev xs @ stack"
  by (induction xs arbitrary: stack) (simp_all add: clean_element_def proper_def)

lemma join_cwd:
  assumes "list_all proper dirs" and "xs \<noteq> []"
  shows "join_path (47 # path_text dirs) (path_text xs) = 47 # path_text (dirs @ xs)"
proof (cases "dirs = []")
  case False
  then obtain ds d where d: "dirs = ds @ [d]" by (metis rev_exhaust)
  with assms(1) have "d \<noteq> []" "last d \<noteq> 47" by (auto simp: proper_def dest: last_in_set)
  moreover have "last (path_text dirs) = last d \<and> path_text dirs \<noteq> []"
    using d \<open>d \<noteq> []\<close> by (cases "ds = []") (simp_all add: path_text_append)
  ultimately show ?thesis using False assms(2) by (simp add: join_path_def path_text_append)
qed (simp add: join_path_def)

lemma clean_rooted:
  assumes "xs \<noteq> []" and "\<And>x. x \<in> set xs \<Longrightarrow> 47 \<notin> set x"
  shows "lexically_clean (47 # path_text xs) = 47 # path_text (rev (foldl (clean_element True) [] xs))"
  using split_path_text [OF assms]
  by (simp add: lexically_clean_def is_absolute_def clean_element_def [of True "[]" "[]"])

lemma absolute_path_cwd:
  assumes "clean_documented clean" and "list_all proper dirs" and "xs \<noteq> []" and "xs ! 0 \<noteq> []"
    and "\<And>x. x \<in> set xs \<Longrightarrow> 47 \<notin> set x"
  shows "absolute_path clean (Some (47 # path_text dirs)) (path_text xs)
    = Ok (47 # path_text (rev (foldl (clean_element True) (rev dirs) xs)))"
proof -
  have "\<not> is_absolute (path_text xs)"
    using assms(3-5) by (cases xs rule: path_text.cases) (auto simp: is_absolute_def hd_append dest: hd_in_set)
  moreover have "clean (47 # path_text (dirs @ xs)) = 47 # path_text (rev (foldl (clean_element True) (rev dirs) xs))"
    using assms clean_rooted [of "dirs @ xs"]
    by (auto simp: clean_documented_def clean_proper list_all_iff proper_def)
  ultimately show ?thesis by (simp add: absolute_path_def join_cwd [OF assms(2,3)])
qed

lemma absolute_path_tests:
  assumes "clean_documented clean"
  shows "absolute_path_already_absolute clean cwd = Some ()"
    "absolute_path_cleans_dot_dot clean cwd = Some ()"
    "absolute_path_cleans_dot clean cwd = Some ()"
proof -
  have "is_absolute (lit ''/usr/bin/foo'')" "is_absolute (lit ''/usr/bin/../lib/foo'')"
    "is_absolute (lit ''/usr/./bin/foo'')" by code_simp+
  moreover have "lexically_clean (lit ''/usr/bin/foo'') = lit ''/usr/bin/foo''"
    "lexically_clean (lit ''/usr/bin/../lib/foo'') = lit ''/usr/lib/foo''"
    "lexically_clean (lit ''/usr/./bin/foo'') = lit ''/usr/bin/foo''" by code_simp+
  ultimately show "absolute_path_already_absolute clean cwd = Some ()"
    "absolute_path_cleans_dot_dot clean cwd = Some ()" "absolute_path_cleans_dot clean cwd = Some ()"
    using assms by (simp_all add: absolute_path_already_absolute_def absolute_path_cleans_dot_dot_def
        absolute_path_cleans_dot_def path_is_def absolute_path_def clean_documented_def)
qed

lemma relative_path_tests:
  assumes "clean_documented clean" and "list_all proper dirs"
  shows "absolute_path_relative_prepends_cwd clean (47 # path_text dirs) = Some ()"
    "absolute_path_relative_with_dot_dot clean (47 # path_text dirs) = Some ()"
proof -
  let ?p = "[lit ''some'', lit ''relative'', lit ''path'']" and ?q = "[lit ''foo'', lit ''..'', lit ''bar'']"
  have txt_eq: "lit ''some/relative/path'' = path_text ?p" "lit ''foo/../bar'' = path_text ?q" by code_simp+
  have ne: "?p ! 0 \<noteq> []" "?q ! 0 \<noteq> []" and names: "list_all (\<lambda>x. 47 \<notin> set x) ?p" "list_all (\<lambda>x. 47 \<notin> set x) ?q"
    and p: "list_all proper ?p"
    by code_simp+
  have q: "foldl (clean_element True) (rev dirs) ?q = lit ''bar'' # rev dirs"
    by (simp add: clean_element_def lit_def)
  have "absolute_path clean (Some (47 # path_text dirs)) (path_text ?p) = Ok (47 # path_text (dirs @ ?p))"
    using absolute_path_cwd [OF assms _ ne(1)] names(1) clean_proper [OF p, of True "rev dirs"]
    by (simp only: list_all_iff rev_append rev_rev_ident) blast
  then show "absolute_path_relative_prepends_cwd clean (47 # path_text dirs) = Some ()"
    using join_cwd [OF assms(2), of ?p] by (simp add: absolute_path_relative_prepends_cwd_def txt_eq is_absolute_def
        del: path_text.simps)
  have "absolute_path clean (Some (47 # path_text dirs)) (path_text ?q) = Ok (47 # path_text (dirs @ [lit ''bar'']))"
    using absolute_path_cwd [OF assms _ ne(2)] names(2)
    by (simp only: list_all_iff q rev.simps rev_rev_ident) blast
  then show "absolute_path_relative_with_dot_dot clean (47 # path_text dirs) = Some ()"
    using join_cwd [OF assms(2), of "[lit ''bar'']"]
    by (simp add: absolute_path_relative_with_dot_dot_def path_is_def txt_eq del: path_text.simps(3))
qed

end
