(* ===== verification/Spec2Isabelle.thy ===== *)
theory Spec2Isabelle
  imports Threaded_Session Resumption Service Test_Common Test_Sync Test_Hash Test_Utils
begin

text \<open>
  Deltasync copies a file to another machine by sending only the blocks that differ. This development
  is a model of the whole program (\<open>src/src/*.rs\<close>) with the theorems that make it correct.

  \<^bold>\<open>The program.\<close> A server (\<open>main.rs\<close>, \<open>server.rs\<close>) listens for one client at a time. A client
  (\<open>main.rs\<close>, \<open>client.rs\<close>) connects, presents a secret and the protocol version, and sends the
  destination path, the block size, the size of its file, a truncation flag and the hash algorithm; each
  part of this handshake is answered by a status byte (\<open>common.rs\<close>). Then both sides hash their
  file with a pool of worker threads (\<open>hash_file.rs\<close>), whose results an ordered channel puts in the order
  of the file (\<open>sync.rs\<close>). The server sends its hashes; the client compares them with its own and sends back
  each block that differs, preceded by its offset; the server writes it over the destination. Both event
  loops are biased \<open>tokio::select!\<close> loops, so all reads and writes on the connection are
  resumable structures (\<open>common.rs\<close>) that survive the cancellation of the future that drives them. The server
  can be started over SSH by the client (\<open>remote_start.rs\<close>).

  \<^bold>\<open>The theories\<close>, in the order of their imports:
  \<^item> \<open>Prelude\<close>: machine integers, results, byte vectors. \<open>Endian\<close>, \<open>Utf8\<close>: the two encodings on the wire.
    \<open>Crates\<close>: what is computed by other crates is a record of functions (CRC-32C, MD5, hex, tokio's
    integers), and what they document is a predicate on it, a hypothesis where it is needed.
  \<^item> \<open>Async_IO\<close>: a byte stream is a script of what its reads (or writes) will return: chunks of any size,
    not ready, end of stream, failure. A theorem about all scripts is one about every fragmentation and
    delay.
  \<^item> \<open>Wire\<close> (\<open>common.rs\<close>): the simple protocol functions, in a small I/O monad.
    \<open>Resumable_Read\<close>, \<open>Resumable_Write\<close> (\<open>common.rs\<close>): the four resumable structures, as records with their
    \<open>read_on\<close> and \<open>write_to\<close>. The locales \<open>resumable_reader\<close> and \<open>resumable_writer\<close> state what a poll may
    do to the stream; the structures are their instances, and the round trips follow in the locales.
  \<^item> \<open>Blocks\<close>: files as blocks, writing blocks into a file. \<open>Event_Loop\<close>: the hash algorithms, the hash stream
    as the loops see it (a script of what \<open>recv\<close> gives, and the channel and the threads that are left to the drop), and \<open>select!\<close>; the locale \<open>event_loop\<close> is the rule for a whole run of such a loop (an
    invariant, a measure, a postcondition), \<open>live_loop\<close> the one for a single iteration while the environment is
    still at work; the two loops of the program are instances of both.
  \<^item> \<open>Server_Handshake\<close>, \<open>Server\<close> (\<open>server.rs\<close>): \<open>process_new_client\<close>. The file system is a record of
    contents and faults. \<open>Client\<close> (\<open>client.rs\<close>): \<open>new_process\<close> and \<open>prepare_next_write_block\<close>. Both functions end with the
    drop of the stream of hashes, and do not return if it does not.
  \<^item> \<open>Ordered_Channel\<close> (\<open>sync.rs\<close>): loans, and the ordered channel as a step relation over its threads, with
    the mutex, the condition variable, spurious wake-ups, cancelled receives and closing.
    \<open>Hash_File\<close> (\<open>hash_file.rs\<close>): the worker, the workers over the channel, the resulting stream.
  \<^item> \<open>Sync_Session\<close>: the two sides together; the locale \<open>hash_source\<close> is what the loops expect of the
    hashing, with \<open>hash_file\<close> as its instance. \<open>Interleaving\<close>: the session as a concurrent system on
    the shared destination file, without the loops.
  \<^item> \<open>Live_Client\<close>, \<open>Live_Server\<close>: one iteration of each loop while the other side is still at work.
    \<open>Joint_System\<close>, \<open>Joint_Steps\<close>, \<open>Closed_Loop\<close>: both loops, the workers of the server and a connection with
    bounded buffers as one step relation, its invariant and its measure.
  \<^item> \<open>Shared_Work\<close>: the ordered channel as an event loop polls it, the loans the loop keeps, blocks dealt out to the senders.
    \<open>Server_Threads\<close>, \<open>Client_Threads\<close>, \<open>Threaded_Session\<close>: the joint system with
    the worker threads of both sides, each with its share of the blocks, and their two ordered channels, up to
    the join of the threads in \<open>HashStream::drop\<close>; the client keeps the buffers of the blocks it has still to write, and its workers
    wait for them. Every run is one of the joint system, for some timing of the client's hashes, and one of each channel.
  \<^item> \<open>Resumption\<close>: what a session leaves behind whose connection breaks in the middle of the blocks.
  \<^item> \<open>Remote_Start\<close> (\<open>remote_start.rs\<close>) and \<open>Program\<close> (\<open>main.rs\<close>, \<open>utils.rs\<close>): the start over SSH, the arguments, the
    accept loop, the preparation of the client. \<open>Service\<close> (\<open>main.rs\<close>): \<open>main\<close> with its two modes, and the accept loop
    with the tasks it spawns: their handshakes, iterations, drops and answers are steps on one disk that interleave with the accept loop.
  \<^item> \<open>Test_Common\<close>, \<open>Test_Sync\<close>, \<open>Test_Hash\<close>, \<open>Test_Utils\<close>: the unit tests of the repository as definitions over the
    model, each with a lemma that it passes; they tie the model to the expectations written in the source.

  \<^bold>\<open>What is shown.\<close> A session ends on both sides and leaves the destination synchronised, and exact if no hash
  collision interferes (this theory); the hashing may run while the destination is being overwritten
  (\<open>Interleaving\<close>). Both event loops run against each other over a connection of any capacity never deadlock, since the client
  keeps reading hashes while it writes, and end with a synchronised destination; no block is overwritten before it was
  hashed (\<open>Closed_Loop\<close>). This is still so with the threads and the channels of both sides in the picture: workers, loans and the
  connection never wait for each other in a circle, all threads are joined at the end, and the client holds no more blocks
  than it has workers (\<open>Threaded_Session\<close>). An interrupted session leaves no torn block, and the next one sends
  exactly what is missing (\<open>Resumption\<close>). The channel delivers in order, loses no wake-up, never blocks on its queue, lends
  no more buffers than it has senders and is complete; dropping an empty one lets all workers end (\<open>Ordered_Channel\<close>), so the hash stream is the file (\<open>Hash_File\<close>). Resumable reads and writes are
  round trips for every fragmentation and equal to the simple ones (\<open>Resumable_Write\<close>). The
  handshake decides as documented, a rejected client changes nothing (\<open>Server_Handshake\<close>), one without the secret is at most told
  so, at most one client is served at a time (\<open>Program\<close>), so that the sessions are serial although they share the disk (\<open>Service\<close>), and nothing runs on a remote machine without
  authentication (\<open>Remote_Start\<close>). Some theorems state defects: errors of disk and network writes are dropped,
  the client does not end when the server stops early, a stream that is dropped with a hash queued deadlocks, so that a server whose
  client leaves at the wrong moment never returns, zero workers are accepted, a block past the end of
  the file is accepted and extends it.

  \<^bold>\<open>Bounds and fuel.\<close> \<open>usize\<close> has 64 bits. \<open>sizes_ok\<close> says that the size of the file plus one round of all the
  workers stays below \<open>2^63\<close>, the range of file positions; a session allows blocks of at most 1 GiB and
  255 workers, so this excludes no real file. The event loops take fuel, because a peer may keep
  them waiting forever; the theorems give a number of iterations from which on the result is the stated one,
  and more fuel does not change it. The loop of a worker has as fuel more than the number of blocks. The drop of a stream gives each
  thread three steps: a join that returns at all returns within them, and one that does not returns with no fuel. The joint system needs no
  fuel: it is a step relation, in which no step adds to \<open>joint_todo\<close>, some step always lessens it before the end, and a
  capacity of one byte each way is enough.

  \<^bold>\<open>Not modelled.\<close> Command-line parsing (clap), the runtime and sockets (tokio), SSH (ssh2) and the remote
  shell are libraries and appear as parameters or scripts. Text printed for the user is left
  out, except for the progress lines. In the theorems on whole functions (\<open>delta_sync\<close> and the like) the workers appear by what their
  stream yields, in any timing, and by the state of their channel at the drop; with all their steps they appear in \<open>Hash_File\<close> and
  in the session with threads. Memory exhaustion and crashes of the machine are not considered.
\<close>

section \<open>A synchronisation from end to end\<close>

definition open_local :: "(rstring \<rightharpoonup> u8 list) \<Rightarrow> rstring \<Rightarrow> u8 list result" where
  "open_local fls p = (case fls p of None \<Rightarrow> Err IoError | Some f \<Rightarrow> Ok f)"

lemma delta_sync_run:
  assumes "tokio_big_endian C" and "hex_documented C" and "length (opt_secret options) \<le> 255"
    and src: "fls (opt_src_path options) = Some src" "src \<noteq> []" "valid_session (session_of options src)"
      "sizes_ok (length src) (opt_block_size options) (opt_workers options)"
      "sizes_ok (length src) (opt_block_size options) workers"
      "div_ceil (length src) (unat (opt_block_size options)) < k"
    and dst: "dst = resize (dest_before (disk c) (opt_dest options)) (length src)"
    and client: "new_process C (open_local fls) (hash_file k C (reliable_env dc left_c) fls) m ts options cc = (Ready r, cc')"
      "tx_out cc = []" "bytes_of (rx cc) = [0, 0, 0]
        @ hash_messages (hash_items C (opt_hash_algorithm options) (unat (opt_block_size options)) dst)"
      "can_send (length (handshake_message (opt_secret options) (session_of options src) (opt_force_truncate options))
        + div_ceil (length src) (unat (opt_block_size options)) * (unat (opt_block_size options) + 8)) cc"
    and link: "bytes_of (rx c) = tx_out cc'" "end_of (rx c) \<noteq> StillOpen" "can_send 3 c"
    and server: "no_faults (disk c) (opt_dest options)"
      "\<not> size_refused (disk c) (session_of options src) (opt_force_truncate options)" "sound_sched (de_sched de)"
      "div_ceil (length src) (unat (opt_block_size options)) * unat (opt_block_size options) \<le> accepts (de_sched de)"
      "\<not> de_flush_fault de" "\<not> de_sync_fault de"
    and left: "chan_reachable (hash_work k C (opt_hash_algorithm options) dst (opt_block_size options) workers) left"
      "lent left \<subseteq> fst ` set (queue left)" "length (received left) = div_ceil (length src) (unat (opt_block_size options))"
  shows "r = Ok () \<and> (\<exists>n0. \<forall>n\<ge>n0. \<exists>c' final.
      process_new_client C (\<lambda>F. hash_file k C (reliable_env ds left) (files F)) de n (opt_secret options) workers c = (Ready (Ok Ack), c')
    \<and> files (disk c') = (files (disk c))(opt_dest options \<mapsto> final)
    \<and> synced C (opt_hash_algorithm options) (unat (opt_block_size options)) src dst final)"
proof -
  let ?ses = "session_of options src" and ?bs = "opt_block_size options"
  have utf8: "utf8_valid (opt_dest options)" using src(3) by (simp add: valid_session_def session_of_def)
  have opn: "open_local fls (opt_src_path options) = Ok src" using src(1) by (simp add: open_local_def)
  have okc: "sizes_ok (length src) ?bs (opt_workers options) \<and> div_ceil (length src) (unat ?bs) < k"
    and oks: "sizes_ok (length src) (ses_block_size ?ses) workers \<and> div_ceil (length src) (unat (ses_block_size ?ses)) < k"
    using src by (simp_all add: session_of_def)
  have len: "length dst = length src" by (simp add: dst)
  let ?sent = "handshake_message (opt_secret options) ?ses (opt_force_truncate options)
      @ concat (map block_message (sent_blocks ?bs src (differing C (opt_hash_algorithm options) (unat ?bs) src dst)))"
  have spent: "given_back (hash_work k C (opt_hash_algorithm options) dst ?bs workers) left" "queue left = []"
    using spent_stream [where f = dst and bs = ?bs and w = workers and n = k and C = C and a = "opt_hash_algorithm options", OF _ _ left(1,2)]
      src(5,6) len left(3) by simp_all
  from hashing.new_process_side [where delays = dc and left = left_c and ts = ts and fls = fls and open_src = "open_local fls", OF assms(1-3) utf8 src(1,2) opn okc len
      client(3,4)] client(2)
  obtain m' cc2 where "new_process C (open_local fls) (hash_file k C (reliable_env dc left_c) fls) (m + m') ts options cc
      = (if hash_stream_drop 3 left_c = None then Pending else Ready (Ok ()), cc2)"
    "tx_out cc2 = ?sent" by (metis append_Nil le_add2)
  with new_process_more [OF client(1), of m'] have r: "r = Ok ()" and bytes: "bytes_of (rx c) = ?sent"
    using link(1) by (auto split: if_splits)
  have "\<exists>n0. \<forall>n\<ge>n0. \<exists>c' final.
      process_new_client C (\<lambda>F. hash_file k C (reliable_env ds left) (files F)) de n (opt_secret options) workers c = (Ready (Ok Ack), c')
    \<and> files (disk c') = (files (disk c))(ses_path ?ses \<mapsto> final)
    \<and> synced C (ses_algorithm ?ses) (unat (ses_block_size ?ses)) src dst final"
    by (rule hashing.server_side [OF assms(1,3) src(3) _ oks])
      (use bytes link server dst spent in \<open>simp_all add: session_of_def\<close>)
  with r show ?thesis by (simp add: session_of_def)
qed

text \<open>
  C1: The synchronisation works. Let the client run to its end on a source file, answered by three
  \<open>Ack\<close> and the hashes of the destination as the server found it (brought to the size of the
  source), and let the server receive what the client sent. Then the client ends without an error
  and the server with \<open>Ack\<close>; no file but the destination has changed; and the destination has the
  length of the source, and each of its blocks is the source's, or the two had the same hash and
  the old one was kept. This holds for any number of workers from one on either side, any pace of
  their hashing, and every fragmentation and delay on the network and the disk. \<open>left\<close> is the channel of the server's workers when
  the server drops its stream of hashes: by then every hash has been received and every buffer given back, since the
  client closes the connection only after it has got them all.
\<close>

theorem delta_sync:
  assumes "tokio_big_endian C" and "hex_documented C" and "length (opt_secret options) \<le> 255"
    and src: "fls (opt_src_path options) = Some src" "src \<noteq> []" "valid_session (session_of options src)"
      "sizes_ok (length src) (opt_block_size options) (opt_workers options)"
      "sizes_ok (length src) (opt_block_size options) workers"
      "div_ceil (length src) (unat (opt_block_size options)) < k"
    and dst: "dst = resize (dest_before (disk c) (opt_dest options)) (length src)"
    and client: "new_process C (open_local fls) (hash_file k C (reliable_env dc left_c) fls) m ts options cc = (Ready r, cc')"
      "tx_out cc = []" "bytes_of (rx cc) = [0, 0, 0]
        @ hash_messages (hash_items C (opt_hash_algorithm options) (unat (opt_block_size options)) dst)"
      "can_send (length (handshake_message (opt_secret options) (session_of options src) (opt_force_truncate options))
        + div_ceil (length src) (unat (opt_block_size options)) * (unat (opt_block_size options) + 8)) cc"
    and link: "bytes_of (rx c) = tx_out cc'" "end_of (rx c) \<noteq> StillOpen" "can_send 3 c"
    and server: "no_faults (disk c) (opt_dest options)"
      "\<not> size_refused (disk c) (session_of options src) (opt_force_truncate options)" "sound_sched (de_sched de)"
      "div_ceil (length src) (unat (opt_block_size options)) * unat (opt_block_size options) \<le> accepts (de_sched de)"
      "\<not> de_flush_fault de" "\<not> de_sync_fault de"
    and left: "chan_reachable (hash_work k C (opt_hash_algorithm options) dst (opt_block_size options) workers) left"
      "lent left \<subseteq> fst ` set (queue left)" "length (received left) = div_ceil (length src) (unat (opt_block_size options))"
  shows "r = Ok () \<and> (\<exists>n0. \<forall>n\<ge>n0. \<exists>c' final.
      process_new_client C (\<lambda>F. hash_file k C (reliable_env ds left) (files F)) de n (opt_secret options) workers c = (Ready (Ok Ack), c')
    \<and> files (disk c') = (files (disk c))(opt_dest options \<mapsto> final)
    \<and> synced C (opt_hash_algorithm options) (unat (opt_block_size options)) src dst final)"
  by (rule delta_sync_run [OF assms])

text \<open>A concrete session: a source of three bytes, a destination of two, truncation forced.\<close>

abbreviation sample_disk :: fs where
  "sample_disk \<equiv> faultless [[102] \<mapsto> [1, 2]]"

abbreviation sample_dst :: "u8 list" where
  "sample_dst \<equiv> resize (dest_before sample_disk [102]) (length [1, 7, 3 :: u8])"

abbreviation sample_local :: "rstring \<rightharpoonup> u8 list" where
  "sample_local \<equiv> [[115] \<mapsto> [1, 7, 3]]"

abbreviation sample_options :: ClientProcessOptions where
  "sample_options \<equiv> \<lparr>opt_address = [], opt_secret = [120, 121], opt_src_path = [115], opt_dest = [102],
     opt_force_truncate = True, opt_workers = 2, opt_block_size = 2, opt_hash_algorithm = MD5\<rparr>"

abbreviation sample_client :: conn where
  "sample_client \<equiv> \<lparr>rx = [Chunk ([0, 0, 0] @ hash_messages (hash_items sample_crates MD5 (unat (2 :: usize)) sample_dst))],
     tx_sched = replicate 90 (Accept 1), tx_out = []\<rparr>"

abbreviation sample_server :: "conn \<Rightarrow> server_conn" where
  "sample_server cc \<equiv> \<lparr>rx = [Chunk (tx_out cc), Eof], tx_sched = replicate 3 (Accept 1), tx_out = [], disk = sample_disk\<rparr>"

abbreviation sample_env :: disk_env where
  "sample_env \<equiv> \<lparr>de_sched = replicate 4 (Accept 1), de_flush_fault = False, de_sync_fault = False\<rparr>"

lemma sample_sizes:
  "sizes_ok (length [1, 7, 3 :: u8]) 2 2 \<and> div_ceil (length [1, 7, 3 :: u8]) (unat (2 :: usize)) < 9"
  by (simp add: sizes_ok_def div_ceil_def)

lemmas sample_eval = valid_session_def no_faults_def size_refused_def can_send_def faultless_def div_ceil_def
  session_of_def handshake_message_def parameters_message_def string_message_def open_local_def

text \<open>Both files have two blocks; on either side two workers hash them, and the receiver gets both hashes and gives the buffers back.\<close>

definition sample_spent :: "u8 list \<Rightarrow> hs_item channel" where
  "sample_spent f = the (chan_exec [Request, Call 0, Pass 0, Deliver, DropLoan 0, Request, Call 1, Pass 1, Deliver, DropLoan 1]
     (ordered_channel (hash_work 9 sample_crates MD5 f 2 2)))"

lemma sample_spent:
  assumes "length f = 3"
  shows "chan_reachable (hash_work 9 sample_crates MD5 f 2 2) (sample_spent f)" "lent (sample_spent f) = {}"
    "length (received (sample_spent f)) = 2" "hash_stream_drop 3 (sample_spent f) \<noteq> None"
proof -
  let ?w = "hash_work 9 sample_crates MD5 f 2 2"
  have ok: "sizes_ok (length f) 2 2" "div_ceil (length f) (unat (2 :: usize)) < 9" using assms by (simp_all add: sizes_ok_def div_ceil_def)
  have "?w = [[(0, hash_item sample_crates MD5 2 f 0)], [(1, hash_item sample_crates MD5 2 f 1)]]"
    unfolding hash_work_file [OF ok] using assms by (simp add: div_ceil_def upt_conv_Cons)
  then have "\<exists>c. chan_exec [Request, Call 0, Pass 0, Deliver, DropLoan 0, Request, Call 1, Pass 1, Deliver, DropLoan 1]
      (ordered_channel ?w) = Some c \<and> lent c = {} \<and> length (received c) = 2"
    by (simp add: chan_eval)
  then obtain c where c: "chan_exec [Request, Call 0, Pass 0, Deliver, DropLoan 0, Request, Call 1, Pass 1, Deliver, DropLoan 1]
      (ordered_channel ?w) = Some c" "lent c = {}" "length (received c) = 2" by blast
  have s: "sample_spent f = c" unfolding sample_spent_def c(1) by simp
  show "chan_reachable ?w (sample_spent f)" "lent (sample_spent f) = {}" "length (received (sample_spent f)) = 2"
    using chan_run [OF c(1)] c(2,3) unfolding s by simp_all
  with hash_stream_drop_returns [OF distinct_hash_work [OF ok] this(1,2)] show "hash_stream_drop 3 (sample_spent f) \<noteq> None" by auto
qed

lemma sample_client_runs:
  "\<exists>m cc'. new_process sample_crates (open_local sample_local) (hash_file 9 sample_crates (reliable_env (\<lambda>k. k) (sample_spent [1, 7, 3])) sample_local) m [True]
     sample_options sample_client = (Ready (Ok ()), cc')"
proof -
  note hashing.new_process_side [where n = 9 and delays = "\<lambda>k. k" and left = "sample_spent [1, 7, 3]" and C = sample_crates and options = sample_options
      and src = "[1, 7, 3]" and fls = sample_local and open_src = "open_local sample_local" and dst = sample_dst and cc = sample_client and ts = "[True]"]
  then show ?thesis using sample_sizes sample_spent(4) [of "[1, 7, 3]"] by (simp add: sample_eval) blast
qed

lemma sample_dst_bytes: "sample_dst = [1, 2, 0]"
  by (simp add: dest_before_def fs_metadata_len_def faultless_def resize_def)

theorem delta_sync_witness:
  "\<exists>m cc' n c' final. new_process sample_crates (open_local sample_local)
       (hash_file 9 sample_crates (reliable_env (\<lambda>k. k) (sample_spent [1, 7, 3])) sample_local) m [True] sample_options sample_client = (Ready (Ok ()), cc')
     \<and> process_new_client sample_crates (\<lambda>F. hash_file 9 sample_crates (reliable_env (\<lambda>_. 1) (sample_spent [1, 2, 0])) (files F)) sample_env n [120, 121] 2
         (sample_server cc') = (Ready (Ok Ack), c')
     \<and> files (disk c') [102] = Some final
     \<and> synced sample_crates MD5 (unat (2 :: usize)) [1, 7, 3] sample_dst final"
proof -
  obtain m cc' where run: "new_process sample_crates (open_local sample_local)
      (hash_file 9 sample_crates (reliable_env (\<lambda>k. k) (sample_spent [1, 7, 3])) sample_local) m [True]
      sample_options sample_client = (Ready (Ok ()), cc')" using sample_client_runs by blast
  have "Ok () = Ok () \<and> (\<exists>n0. \<forall>n\<ge>n0. \<exists>c' final.
      process_new_client sample_crates (\<lambda>F. hash_file 9 sample_crates (reliable_env (\<lambda>_. 1) (sample_spent [1, 2, 0])) (files F)) sample_env n
        (opt_secret sample_options) 2 (sample_server cc') = (Ready (Ok Ack), c')
    \<and> files (disk c') = (files (disk (sample_server cc')))(opt_dest sample_options \<mapsto> final)
    \<and> synced sample_crates (opt_hash_algorithm sample_options) (unat (opt_block_size sample_options)) [1, 7, 3] sample_dst final)"
    by (rule delta_sync [where fls = sample_local and m = m and ts = "[True]" and cc = sample_client and cc' = cc'])
      (use run sample_sizes sample_spent [of "[1, 2, 0]"] sample_dst_bytes in \<open>simp_all add: sample_eval\<close>)
  then obtain n c' final where
    "process_new_client sample_crates (\<lambda>F. hash_file 9 sample_crates (reliable_env (\<lambda>_. 1) (sample_spent [1, 2, 0])) (files F)) sample_env n [120, 121] 2
        (sample_server cc') = (Ready (Ok Ack), c')"
    "files (disk c') [102] = Some final" "synced sample_crates MD5 (unat (2 :: usize)) [1, 7, 3] sample_dst final"
    by auto
  with run show ?thesis by blast
qed

text \<open>
  C6: Where no two corresponding blocks of source and destination collide under the chosen hash,
  the synchronisation is exact: under the conditions of a session as above, the server ends with
  \<open>Ack\<close> and the destination is the source, byte for byte, every other file being as before.
\<close>

theorem exact_sync:
  assumes "tokio_big_endian C" and "hex_documented C" and "length (opt_secret options) \<le> 255"
    and src: "fls (opt_src_path options) = Some src" "src \<noteq> []" "valid_session (session_of options src)"
      "sizes_ok (length src) (opt_block_size options) (opt_workers options)"
      "sizes_ok (length src) (opt_block_size options) workers"
      "div_ceil (length src) (unat (opt_block_size options)) < k"
    and dst: "dst = resize (dest_before (disk c) (opt_dest options)) (length src)"
    and client: "new_process C (open_local fls) (hash_file k C (reliable_env dc left_c) fls) m ts options cc = (Ready r, cc')"
      "tx_out cc = []" "bytes_of (rx cc) = [0, 0, 0]
        @ hash_messages (hash_items C (opt_hash_algorithm options) (unat (opt_block_size options)) dst)"
      "can_send (length (handshake_message (opt_secret options) (session_of options src) (opt_force_truncate options))
        + div_ceil (length src) (unat (opt_block_size options)) * (unat (opt_block_size options) + 8)) cc"
    and link: "bytes_of (rx c) = tx_out cc'" "end_of (rx c) \<noteq> StillOpen" "can_send 3 c"
    and server: "no_faults (disk c) (opt_dest options)"
      "\<not> size_refused (disk c) (session_of options src) (opt_force_truncate options)" "sound_sched (de_sched de)"
      "div_ceil (length src) (unat (opt_block_size options)) * unat (opt_block_size options) \<le> accepts (de_sched de)"
      "\<not> de_flush_fault de" "\<not> de_sync_fault de"
    and left: "chan_reachable (hash_work k C (opt_hash_algorithm options) dst (opt_block_size options) workers) left"
      "lent left \<subseteq> fst ` set (queue left)" "length (received left) = div_ceil (length src) (unat (opt_block_size options))"
    and exact: "collision_free C (opt_hash_algorithm options) (unat (opt_block_size options)) src dst"
  shows "\<exists>n0. \<forall>n\<ge>n0. \<exists>c'.
      process_new_client C (\<lambda>F. hash_file k C (reliable_env ds left) (files F)) de n (opt_secret options) workers c = (Ready (Ok Ack), c')
    \<and> files (disk c') = (files (disk c))(opt_dest options \<mapsto> src)"
proof -
  have "0 < unat (opt_block_size options)" using src(4) by (simp add: sizes_ok_def word_less_nat_alt)
  from synced_exact [OF this _ exact] delta_sync_run [OF assms(1-3) src dst client link server left]
  show ?thesis by metis
qed

lemma sample_collision_free: "collision_free sample_crates MD5 (unat (2 :: usize)) [1, 7, 3] sample_dst"
  unfolding collision_free_def sample_dst_bytes
proof (intro allI impI)
  fix k
  assume "k < div_ceil (length [1, 7, 3 :: u8]) (unat (2 :: usize))"
    and eq: "hash_data sample_crates (block_at (unat (2 :: usize)) [1, 7, 3] k) MD5
      = hash_data sample_crates (block_at (unat (2 :: usize)) [1, 2, 0] k) MD5"
  then have "k = 0 \<or> k = 1" by (auto simp: div_ceil_def)
  moreover have "k \<noteq> 0"
  proof
    assume "k = 0"
    with arg_cong [OF eq, of "\<lambda>hash. hash ! 3"] show False
      by (simp add: block_at_def resize_def hex_of_def hex_digit_def)
  qed
  moreover have "k \<noteq> 1"
  proof
    assume "k = 1"
    with arg_cong [OF eq, of "\<lambda>hash. hash ! 1"] show False
      by (simp add: block_at_def resize_def hex_of_def hex_digit_def)
  qed
  ultimately show "block_at (unat (2 :: usize)) [1, 7, 3] k = block_at (unat (2 :: usize)) [1, 2, 0 :: u8] k" by blast
qed

theorem exact_sync_witness:
  "\<exists>m cc' n c'. new_process sample_crates (open_local sample_local) (hash_file 9 sample_crates (reliable_env (\<lambda>k. k) (sample_spent [1, 7, 3])) sample_local) m [True]
       sample_options sample_client = (Ready (Ok ()), cc')
     \<and> process_new_client sample_crates (\<lambda>F. hash_file 9 sample_crates (reliable_env (\<lambda>_. 1) (sample_spent [1, 2, 0])) (files F)) sample_env n [120, 121] 2
         (sample_server cc') = (Ready (Ok Ack), c')
     \<and> files (disk c') [102] = Some [1, 7, 3]"
proof -
  obtain m cc' where run: "new_process sample_crates (open_local sample_local) (hash_file 9 sample_crates (reliable_env (\<lambda>k. k) (sample_spent [1, 7, 3])) sample_local) m [True]
      sample_options sample_client = (Ready (Ok ()), cc')" using sample_client_runs by blast
  have "\<exists>n0. \<forall>n\<ge>n0. \<exists>c'.
      process_new_client sample_crates (\<lambda>F. hash_file 9 sample_crates (reliable_env (\<lambda>_. 1) (sample_spent [1, 2, 0])) (files F)) sample_env n (opt_secret sample_options) 2
        (sample_server cc') = (Ready (Ok Ack), c')
    \<and> files (disk c') = (files (disk (sample_server cc')))(opt_dest sample_options \<mapsto> [1, 7, 3])"
    by (rule exact_sync [where fls = sample_local and m = m and ts = "[True]" and cc = sample_client and cc' = cc'
          and dst = sample_dst])
      (use run sample_sizes sample_collision_free sample_spent [of "[1, 2, 0]"] sample_dst_bytes in \<open>simp_all add: sample_eval\<close>)
  then obtain n c' where
    "process_new_client sample_crates (\<lambda>F. hash_file 9 sample_crates (reliable_env (\<lambda>_. 1) (sample_spent [1, 2, 0])) (files F)) sample_env n [120, 121] 2
        (sample_server cc') = (Ready (Ok Ack), c')"
    "files (disk c') [102] = Some [1, 7, 3]" by auto
  with run show ?thesis by blast
qed

section \<open>The two sides agree on the protocol\<close>

text \<open>
  C10: The handshakes of client and server fit together. A client that knows the secret sends, when
  answered with three \<open>Ack\<close>, exactly the bytes on which the server accepts the session with the
  client's parameters, and the server's answer is those three \<open>Ack\<close>, provided the destination
  is absent, has the size of the source, or truncation is forced.
\<close>

theorem handshakes_agree:
  assumes "tokio_big_endian C" and "length (opt_secret options) \<le> 255"
    and "open_src (opt_src_path options) = Ok src" and "src \<noteq> []" and "length src < 2 ^ 64"
    and "valid_session (session_of options src)" and "bytes_of (rx cc) = [0, 0, 0] @ rest"
    and "can_send (length (handshake_message (opt_secret options) (session_of options src) (opt_force_truncate options))) cc"
    and "client_handshake C open_src options cc = (r, cc')" and "tx_out cc = []"
    and "bytes_of (rx c) = tx_out cc'" and "can_send 3 c"
    and "no_faults (disk c) (opt_dest options)"
    and "\<not> size_refused (disk c) (session_of options src) (opt_force_truncate options)"
  shows "r = Ready (Ok (word_of_nat (length src))) \<and> bytes_of (rx cc') = rest
    \<and> (\<exists>c'. server_handshake C (opt_secret options) c = (Ready (Ok (Accepted (session_of options src))), c')
        \<and> tx_out c' = tx_out c @ [0, 0, 0] \<and> bytes_of (rx c') = [])"
proof -
  let ?msg = "handshake_message (opt_secret options) (session_of options src) (opt_force_truncate options)"
  have "utf8_valid (opt_dest options)" using assms(6) by (simp add: valid_session_def session_of_def)
  from client_handshake_exchanges [where open_src = open_src, OF assms(1,2) this assms(3-5)] assms(7,8)
  obtain cc2 where "client_handshake C open_src options cc = (Ready (Ok (word_of_nat (length src))), cc2)"
    "bytes_of (rx cc2) = rest" "tx_out cc2 = tx_out cc @ ?msg"
    unfolding exchanges_def by (metis add_0_right)
  with assms(9-11) have cl: "r = Ready (Ok (word_of_nat (length src)))" "bytes_of (rx cc') = rest"
    "bytes_of (rx c) = ?msg @ []" by simp_all
  have "no_faults (disk c) (ses_path (session_of options src))" using assms(13) by (simp add: session_of_def)
  from server_handshake_run [OF assms(1,2,6) this cl(3) assms(12)] assms(14)
  obtain c' where c': "server_handshake C (opt_secret options) c = (Ready (Ok (Accepted (session_of options src))), c')"
    "bytes_of (rx c') = []" by auto
  with server_handshake_accepted [OF c'(1)] cl show ?thesis by simp
qed

theorem handshakes_agree_witness:
  "\<exists>cc' c'. client_handshake sample_crates (\<lambda>_. Ok [7, 8]) sample_options
       \<lparr>rx = [Chunk [0], Wait, Chunk [0, 0]], tx_sched = replicate 40 (Accept 1), tx_out = []\<rparr>
       = (Ready (Ok (word_of_nat (length [7, 8 :: u8]))), cc')
     \<and> server_handshake sample_crates [120, 121]
         \<lparr>rx = [Chunk (tx_out cc')], tx_sched = replicate 3 (Accept 1), tx_out = [], disk = sample_disk\<rparr>
       = (Ready (Ok (Accepted (session_of sample_options [7, 8]))), c')"
proof -
  let ?cc = "\<lparr>rx = [Chunk [0], Wait, Chunk [0, 0]], tx_sched = replicate 40 (Accept 1), tx_out = []\<rparr>"
  obtain r cc' where cl: "client_handshake sample_crates (\<lambda>_. Ok [7, 8]) sample_options ?cc = (r, cc')" by fastforce
  let ?c = "\<lparr>rx = [Chunk (tx_out cc')], tx_sched = replicate 3 (Accept 1), tx_out = [], disk = sample_disk\<rparr>"
  have "r = Ready (Ok (word_of_nat (length [7, 8 :: u8]))) \<and> bytes_of (rx cc') = []
    \<and> (\<exists>c'. server_handshake sample_crates (opt_secret sample_options) ?c
        = (Ready (Ok (Accepted (session_of sample_options [7, 8]))), c')
        \<and> tx_out c' = tx_out ?c @ [0, 0, 0] \<and> bytes_of (rx c') = [])"
    by (rule handshakes_agree [OF _ _ _ _ _ _ _ _ cl])
      (simp_all add: sample_eval)
  with cl show ?thesis by auto
qed

end
